(* ===== verification/Gaio_Prelude.thy ===== *)
theory Gaio_Prelude
  imports Main "HOL-Library.Word" "HOL-Library.Multiset" "HOL-Library.Monad_Syntax"
begin

text \<open>
  Shared material of the gaio development: the collections of rewrite and
  preservation lemmas that the component theories fill, the names of the model's base types,
  and generic facts on lists (exchange of two positions), options and maps.
\<close>

named_theorems frame_simps \<open>what an operation leaves unchanged\<close>
named_theorems inv_intros \<open>an operation preserves an invariant\<close>

section \<open>Base types\<close>

text \<open>
  Addresses of heap objects are natural numbers: requests (\<open>*aiocb\<close>), descriptor records
  (\<open>*fdDesc\<close>), elements of a \<open>container/list\<close> list and the data word of an interface value
  (\<open>reflect.Value.Pointer\<close>). Points in time and durations are integers counting nanoseconds; the
  zero \<open>time.Time\<close> is the integer 0.
\<close>

type_synonym byte = "8 word"
type_synonym aref = nat
type_synonym dref = nat
type_synonym eref = nat
type_synonym uintptr = nat
type_synonym fd = int
type_synonym gtime = int

section \<open>Exchanging two positions of a list\<close>

definition list_swap :: "'a list \<Rightarrow> nat \<Rightarrow> nat \<Rightarrow> 'a list" where
  "list_swap xs i j = xs[i := xs ! j, j := xs ! i]"

lemma length_list_swap [simp]: "length (list_swap xs i j) = length xs"
  by (simp add: list_swap_def)

lemma nth_list_swap:
  assumes "i < length xs" and "j < length xs" and "m < length xs"
  shows "list_swap xs i j ! m = (if m = j then xs ! i else if m = i then xs ! j else xs ! m)"
  using assms by (auto simp: list_swap_def nth_list_update)

lemma mset_list_swap [simp]:
  "i < length xs \<Longrightarrow> j < length xs \<Longrightarrow> mset (list_swap xs i j) = mset xs"
  by (simp add: list_swap_def mset_swap)

lemma set_list_swap [simp]:
  "i < length xs \<Longrightarrow> j < length xs \<Longrightarrow> set (list_swap xs i j) = set xs"
  using mset_list_swap [of i xs j] by (metis set_mset_mset)

lemma distinct_list_swap [simp]:
  "i < length xs \<Longrightarrow> j < length xs \<Longrightarrow> distinct (list_swap xs i j) = distinct xs"
  by (simp add: list_swap_def distinct_swap)

section \<open>Options and lists\<close>

lemma bind_SomeE:
  assumes "Option.bind m f = Some y"
  obtains x where "m = Some x" and "f x = Some y"
  using assms by (cases m) auto

lemma mset_butlast:
  "xs \<noteq> [] \<Longrightarrow> mset (butlast xs) = mset xs - {#last xs#}"
  by (induction xs rule: rev_induct) auto

lemma remove1_nth_take_drop:
  "distinct xs \<Longrightarrow> k < length xs \<Longrightarrow> remove1 (xs ! k) xs = take k xs @ drop (Suc k) xs"
proof (induction xs arbitrary: k)
  case (Cons x xs)
  then show ?case by (cases k) auto
qed simp

lemma distinct_nth_inj:
  "distinct xs \<Longrightarrow> i < length xs \<Longrightarrow> j < length xs \<Longrightarrow> xs ! i = xs ! j \<Longrightarrow> i = j"
  by (simp add: nth_eq_iff_index_eq)

section \<open>Loops that may not end\<close>

text \<open>
  A Go \<open>for\<close> loop whose body either goes round again with a new state (\<open>Inl\<close>) or leaves the loop
  with a result (\<open>Inr\<close>). The body may itself not return. \<open>None\<close>: the loop does not return.
\<close>

partial_function (option) go_loop :: "('s \<Rightarrow> ('s + 'r) option) \<Rightarrow> 's \<Rightarrow> 'r option" where
  "go_loop body s =
     Option.bind (body s) (\<lambda>x. case x of Inl s' \<Rightarrow> go_loop body s' | Inr r \<Rightarrow> Some r)"

declare go_loop.simps [code]

text \<open>Partial correctness: what the body keeps holds when the loop is left.\<close>

lemma go_loop_inv:
  assumes ret: "go_loop body s = Some r" and "I s"
    and keep: "\<And>s s'. I s \<Longrightarrow> body s = Some (Inl s') \<Longrightarrow> I s'"
    and exit: "\<And>s r. I s \<Longrightarrow> body s = Some (Inr r) \<Longrightarrow> P r"
  shows "P r"
proof -
  have "b = body \<longrightarrow> I s \<longrightarrow> P r" if "go_loop b s = Some r" for b s r
  proof (rule go_loop.raw_induct [where P = "\<lambda>b s r. b = body \<longrightarrow> I s \<longrightarrow> P r", OF _ that], intro impI)
    fix L b s r
    assume IH: "\<And>b s r. L b s = Some r \<Longrightarrow> b = body \<longrightarrow> I s \<longrightarrow> P r"
      and eq: "Option.bind (b s) (\<lambda>x. case x of Inl s' \<Rightarrow> L b s' | Inr r \<Rightarrow> Some r) = Some r"
      and b: "b = body" and I: "I s"
    from eq obtain x where x: "body s = Some x" "(case x of Inl s' \<Rightarrow> L b s' | Inr r \<Rightarrow> Some r) = Some r"
      by (auto simp: b elim: bind_SomeE)
    then show "P r"
      using keep [OF I] exit [OF I] IH b by (cases x) auto
  qed
  with assms show ?thesis by blast
qed

text \<open>Termination: a body that always returns and decreases a measure until it leaves.\<close>

lemma go_loop_total:
  assumes "I s"
    and step: "\<And>s. I s \<Longrightarrow> (\<exists>r. body s = Some (Inr r)) \<or> (\<exists>s'. body s = Some (Inl s') \<and> I s' \<and> m s' < (m s :: nat))"
  shows "\<exists>r. go_loop body s = Some r"
  using assms(1)
proof (induction "m s" arbitrary: s rule: less_induct)
  case less
  from step [OF less.prems] show ?case
  proof (elim disjE exE conjE)
    fix r assume "body s = Some (Inr r)"
    then show ?thesis by (subst go_loop.simps) simp
  next
    fix s' assume "body s = Some (Inl s')" "I s'" "m s' < m s"
    with less.hyps [of s'] show ?thesis by (subst go_loop.simps) auto
  qed
qed

end
