(* ===== verification/Go_Heap.thy ===== *)
theory Go_Heap
  imports Gaio_Prelude
begin

text \<open>
  The package \<open>container/heap\<close> of Go's standard library, as far as \<open>src/watcher.go\<close> uses it
  (\<open>heap.Push\<close>, \<open>heap.Pop\<close>, \<open>heap.Remove\<close>). The algorithms take the methods of
  \<open>heap.Interface\<close> as arguments. The locale \<open>heap_interface\<close> states what an implementation of
  that interface promises; the correctness of the package is proved once inside it.
  Out-of-range indices panic in Go: the operations return \<open>None\<close> there.
\<close>

section \<open>The algorithms\<close>

function heap_up :: "('h \<Rightarrow> nat \<Rightarrow> nat \<Rightarrow> bool) \<Rightarrow> ('h \<Rightarrow> nat \<Rightarrow> nat \<Rightarrow> 'h) \<Rightarrow> 'h \<Rightarrow> nat \<Rightarrow> 'h" where
  "heap_up lt swap h j =
     (let i = (j - 1) div 2
      in if i = j \<or> \<not> lt h j i then h else heap_up lt swap (swap h i j) i)"
  by pat_completeness auto
termination
  by (relation "measure (\<lambda>(lt, swap, h, j). j)") auto

text \<open>\<open>down\<close> stops at a position; the Go function returns whether it is below the start.\<close>

function heap_down ::
  "('h \<Rightarrow> nat \<Rightarrow> nat \<Rightarrow> bool) \<Rightarrow> ('h \<Rightarrow> nat \<Rightarrow> nat \<Rightarrow> 'h) \<Rightarrow> 'h \<Rightarrow> nat \<Rightarrow> nat \<Rightarrow> 'h \<times> nat" where
  "heap_down lt swap h i n =
     (let j1 = 2 * i + 1
      in if n \<le> j1 then (h, i)
         else let j = (if j1 + 1 < n \<and> lt h (j1 + 1) j1 then j1 + 1 else j1)
              in if \<not> lt h j i then (h, i) else heap_down lt swap (swap h i j) j n)"
  by pat_completeness auto
termination
  by (relation "measure (\<lambda>(lt, swap, h, i, n). n - i)") (auto simp: Let_def split: if_splits)

declare heap_up.simps [simp del] heap_down.simps [simp del]

definition heap_Push ::
  "('h \<Rightarrow> nat) \<Rightarrow> ('h \<Rightarrow> nat \<Rightarrow> nat \<Rightarrow> bool) \<Rightarrow> ('h \<Rightarrow> nat \<Rightarrow> nat \<Rightarrow> 'h) \<Rightarrow> ('x \<Rightarrow> 'h \<Rightarrow> 'h) \<Rightarrow> 'x \<Rightarrow> 'h \<Rightarrow> 'h" where
  "heap_Push len lt swap push x h =
     (let h1 = push x h in heap_up lt swap h1 (len h1 - 1))"

definition heap_Pop ::
  "('h \<Rightarrow> nat) \<Rightarrow> ('h \<Rightarrow> nat \<Rightarrow> nat \<Rightarrow> bool) \<Rightarrow> ('h \<Rightarrow> nat \<Rightarrow> nat \<Rightarrow> 'h) \<Rightarrow> ('h \<Rightarrow> 'x \<times> 'h) \<Rightarrow> 'h
     \<Rightarrow> ('x \<times> 'h) option" where
  "heap_Pop len lt swap pop h =
     (if len h = 0 then None
      else let n = len h - 1;
               h1 = swap h 0 n;
               (h2, _) = heap_down lt swap h1 0 n
           in Some (pop h2))"

definition heap_Remove ::
  "('h \<Rightarrow> nat) \<Rightarrow> ('h \<Rightarrow> nat \<Rightarrow> nat \<Rightarrow> bool) \<Rightarrow> ('h \<Rightarrow> nat \<Rightarrow> nat \<Rightarrow> 'h) \<Rightarrow> ('h \<Rightarrow> 'x \<times> 'h) \<Rightarrow> nat \<Rightarrow> 'h
     \<Rightarrow> ('x \<times> 'h) option" where
  "heap_Remove len lt swap pop i h =
     (if len h \<le> i then None
      else let n = len h - 1
           in if n = i then Some (pop h)
              else let (h2, i') = heap_down lt swap (swap h i n) i n
                   in Some (pop (if i < i' then h2 else heap_up lt swap h2 i)))"

section \<open>Heap order on an array\<close>

definition par :: "nat \<Rightarrow> nat" where
  "par c = (c - 1) div 2"

definition least_child :: "('h \<Rightarrow> nat \<Rightarrow> nat \<Rightarrow> bool) \<Rightarrow> 'h \<Rightarrow> nat \<Rightarrow> nat \<Rightarrow> nat" where
  "least_child lt h i n =
     (if 2 * i + 2 < n \<and> lt h (2 * i + 2) (2 * i + 1) then 2 * i + 2 else 2 * i + 1)"

lemma heap_up_unfold:
  "heap_up lt swap h j =
     (if par j = j \<or> \<not> lt h j (par j) then h else heap_up lt swap (swap h (par j) j) (par j))"
  by (subst heap_up.simps) (simp add: Let_def par_def)

lemma heap_down_unfold:
  "heap_down lt swap h i n =
     (if n \<le> 2 * i + 1 \<or> \<not> lt h (least_child lt h i n) i then (h, i)
      else heap_down lt swap (swap h i (least_child lt h i n)) (least_child lt h i n) n)"
  by (subst heap_down.simps) (simp add: Let_def least_child_def)

text \<open>
  \<open>edge k xs c\<close>: position \<open>c\<close> is not smaller than its parent. The array is ordered up to \<open>n\<close>
  when every edge below \<open>n\<close> holds.
\<close>

definition edge :: "('x \<Rightarrow> 'k::linorder) \<Rightarrow> 'x list \<Rightarrow> nat \<Rightarrow> bool" where
  "edge k xs c \<longleftrightarrow> k (xs ! par c) \<le> k (xs ! c)"

definition ordered_upto :: "('x \<Rightarrow> 'k::linorder) \<Rightarrow> 'x list \<Rightarrow> nat \<Rightarrow> bool" where
  "ordered_upto k xs n \<longleftrightarrow> (\<forall>c. 0 < c \<and> c < n \<longrightarrow> edge k xs c)"

definition heap_ordered :: "('x \<Rightarrow> 'k::linorder) \<Rightarrow> 'x list \<Rightarrow> bool" where
  "heap_ordered k xs \<longleftrightarrow> ordered_upto k xs (length xs)"

text \<open>Everything is ordered but possibly the edges at position \<open>i\<close>, whose neighbours agree.\<close>

definition hole_at :: "('x \<Rightarrow> 'k::linorder) \<Rightarrow> 'x list \<Rightarrow> nat \<Rightarrow> nat \<Rightarrow> bool" where
  "hole_at k xs n i \<longleftrightarrow>
     (\<forall>c. 0 < c \<and> c < n \<and> par c \<noteq> i \<and> c \<noteq> i \<longrightarrow> edge k xs c) \<and>
     (\<forall>c. 0 < c \<and> c < n \<and> par c = i \<and> 0 < i \<longrightarrow> k (xs ! par i) \<le> k (xs ! c))"

definition children_ok :: "('x \<Rightarrow> 'k::linorder) \<Rightarrow> 'x list \<Rightarrow> nat \<Rightarrow> nat \<Rightarrow> bool" where
  "children_ok k xs n i \<longleftrightarrow> (\<forall>c. 0 < c \<and> c < n \<and> par c = i \<longrightarrow> edge k xs c)"

lemma ordered_upto_code [code]: "ordered_upto k xs n \<longleftrightarrow> (\<forall>c \<in> set [1..<n]. edge k xs c)"
  by (auto simp: ordered_upto_def)

lemma par_less: "0 < c \<Longrightarrow> par c < c"
  by (simp add: par_def less_mult_imp_div_less)

lemma par_0 [simp]: "par 0 = 0"
  by (simp add: par_def)

lemma par_children: "0 < c \<Longrightarrow> par c = i \<longleftrightarrow> c = 2 * i + 1 \<or> c = 2 * i + 2"
  by (auto simp: par_def)

lemma least_child_less: "2 * i + 1 < n \<Longrightarrow> least_child lt h i n < n"
  by (simp add: least_child_def)

lemma least_child_par: "i < least_child lt h i n" "par (least_child lt h i n) = i"
  by (auto simp: least_child_def par_def)

lemma ordered_upto_root_min:
  assumes "ordered_upto k xs n" and "c < n"
  shows "k (xs ! 0) \<le> k (xs ! c)"
  using assms(2)
proof (induction c rule: less_induct)
  case (less c)
  show ?case
  proof (cases "c = 0")
    case False
    then have "par c < c" by (simp add: par_less)
    with less have "k (xs ! 0) \<le> k (xs ! par c)" by auto
    also from assms(1) less.prems False have "\<dots> \<le> k (xs ! c)"
      by (simp add: ordered_upto_def edge_def)
    finally show ?thesis .
  qed simp
qed

lemma ordered_uptoI_hole:
  assumes "hole_at k xs n i" and "children_ok k xs n i" and "0 < i \<Longrightarrow> i < n \<Longrightarrow> edge k xs i"
  shows "ordered_upto k xs n"
  unfolding ordered_upto_def
proof (intro allI impI)
  fix c assume "0 < c \<and> c < n"
  with assms show "edge k xs c"
    by (cases "c = i"; cases "par c = i") (auto simp: hole_at_def children_ok_def)
qed

lemma ordered_upto_le: "ordered_upto k xs n \<Longrightarrow> m \<le> n \<Longrightarrow> ordered_upto k xs m"
  by (simp add: ordered_upto_def)

lemma ordered_upto_cong:
  assumes "\<And>c. c < n \<Longrightarrow> xs ! c = ys ! c"
  shows "ordered_upto k xs n = ordered_upto k ys n"
proof -
  have "xs ! par c = ys ! par c \<and> xs ! c = ys ! c" if "0 < c" "c < n" for c
    using assms that par_less [of c] by simp
  then show ?thesis by (auto simp: ordered_upto_def edge_def)
qed

text \<open>Moving the hole up, and down to the smaller child.\<close>

lemma hole_up:
  assumes "hole_at k xs n j" and "children_ok k xs n j" and "0 < j" and "j < n" and "n \<le> length xs"
    and less: "k (xs ! j) < k (xs ! par j)"
  shows "hole_at k (list_swap xs (par j) j) n (par j)"
    and "children_ok k (list_swap xs (par j) j) n (par j)"
proof -
  let ?i = "par j" and ?ys = "list_swap xs (par j) j"
  have ij: "?i < j" using assms(3) by (rule par_less)
  have len: "?i < length xs" "j < length xs" using ij assms(4,5) by auto
  have ys: "m < length xs \<Longrightarrow> ?ys ! m = (if m = j then xs ! ?i else if m = ?i then xs ! j else xs ! m)" for m
    using nth_list_swap [OF len] by simp
  have old: "edge k xs c" if "0 < c" "c < n" "c \<noteq> j" for c
    using assms(1,2) that by (cases "par c = j") (auto simp: hole_at_def children_ok_def)
  have grand: "k (xs ! ?i) \<le> k (xs ! c)" if "0 < c" "c < n" "par c = j" for c
    using assms(1,3) that by (simp add: hole_at_def)
  show "hole_at k ?ys n ?i"
    unfolding hole_at_def
  proof (intro conjI allI impI)
    fix c assume c: "0 < c \<and> c < n \<and> par c \<noteq> ?i \<and> c \<noteq> ?i"
    then have "par c < length xs" "c < length xs" using assms(5) par_less [of c] by auto
    with c grand [of c] old [of c] show "edge k ?ys c"
      by (auto simp: edge_def ys)
  next
    fix c assume c: "0 < c \<and> c < n \<and> par c = ?i \<and> 0 < ?i"
    then have "c < length xs" using assms(5) by auto
    moreover have "par ?i < ?i" using c par_less by blast
    moreover have "k (xs ! par ?i) \<le> k (xs ! ?i)"
      using old [of ?i] c ij assms(4) by (simp add: edge_def)
    moreover have "c \<noteq> j \<Longrightarrow> k (xs ! ?i) \<le> k (xs ! c)"
      using old [of c] c by (simp add: edge_def)
    ultimately show "k (?ys ! par ?i) \<le> k (?ys ! c)"
      using ij len c par_less [of c] by (auto simp: ys)
  qed
  show "children_ok k ?ys n ?i"
    unfolding children_ok_def
  proof (intro allI impI)
    fix c assume c: "0 < c \<and> c < n \<and> par c = ?i"
    then have cl: "c < length xs" "c \<noteq> ?i" using assms(5) par_less [of c] by auto
    have "c \<noteq> j \<Longrightarrow> k (xs ! ?i) \<le> k (xs ! c)"
      using old [of c] c by (simp add: edge_def)
    with c cl len ij less show "edge k ?ys c"
      by (auto simp: edge_def ys less_imp_le intro: order_trans)
  qed
qed

lemma hole_down:
  assumes "hole_at k xs n i" and "par j = i" and "0 < j" and "j < n" and "n \<le> length xs"
    and smallest: "\<And>c. 0 < c \<Longrightarrow> c < n \<Longrightarrow> par c = i \<Longrightarrow> k (xs ! j) \<le> k (xs ! c)"
    and less: "k (xs ! j) < k (xs ! i)"
  shows "hole_at k (list_swap xs i j) n j" and "edge k (list_swap xs i j) j"
proof -
  let ?ys = "list_swap xs i j"
  have ij: "i < j" using assms(2,3) par_less by blast
  have len: "i < length xs" "j < length xs" using ij assms(4,5) by auto
  have ys: "m < length xs \<Longrightarrow> ?ys ! m = (if m = j then xs ! i else if m = i then xs ! j else xs ! m)" for m
    using nth_list_swap [OF len] by simp
  have old: "edge k xs c" if "0 < c" "c < n" "par c \<noteq> i" "c \<noteq> i" for c
    using assms(1) that by (auto simp: hole_at_def)
  have grand: "k (xs ! par i) \<le> k (xs ! j)" if "0 < i"
    using assms(1-4) that by (simp add: hole_at_def)
  show "edge k ?ys j"
    using len ij less assms(2) by (simp add: edge_def ys)
  show "hole_at k ?ys n j"
    unfolding hole_at_def
  proof (intro conjI allI impI)
    fix c assume c: "0 < c \<and> c < n \<and> par c \<noteq> j \<and> c \<noteq> j"
    then have cl: "par c < length xs" "c < length xs" "par c < c" using assms(5) par_less [of c] by auto
    show "edge k ?ys c"
      using c cl old [of c] grand smallest [of c] by (cases "c = i"; cases "par c = i") (auto simp: edge_def ys)
  next
    fix c assume c: "0 < c \<and> c < n \<and> par c = j \<and> 0 < j"
    then have cl: "c < length xs" "c \<noteq> j" "c \<noteq> i" using assms(5) par_less [of c] ij by auto
    have "edge k xs c" using c old [of c] cl ij by auto
    with c cl ij len assms(2) show "k (?ys ! par j) \<le> k (?ys ! c)"
      by (auto simp: edge_def ys)
  qed
qed

section \<open>What the package relies on and what it promises\<close>

locale heap_interface =
  fixes len :: "'h \<Rightarrow> nat"
    and lt :: "'h \<Rightarrow> nat \<Rightarrow> nat \<Rightarrow> bool"
    and swap :: "'h \<Rightarrow> nat \<Rightarrow> nat \<Rightarrow> 'h"
    and push :: "'x \<Rightarrow> 'h \<Rightarrow> 'h"
    and pop :: "'h \<Rightarrow> 'x \<times> 'h"
    and elems :: "'h \<Rightarrow> 'x list"
    and key :: "'h \<Rightarrow> 'x \<Rightarrow> 'k::linorder"
    and inv :: "'h \<Rightarrow> bool"
  assumes len_elems: "len h = length (elems h)"
    and less_key: "i < len h \<Longrightarrow> j < len h \<Longrightarrow> lt h i j \<longleftrightarrow> key h (elems h ! i) < key h (elems h ! j)"
    and swap_elems: "i < len h \<Longrightarrow> j < len h \<Longrightarrow> elems (swap h i j) = list_swap (elems h) i j"
    and swap_key: "i < len h \<Longrightarrow> j < len h \<Longrightarrow> key (swap h i j) = key h"
    and swap_inv: "inv h \<Longrightarrow> i < len h \<Longrightarrow> j < len h \<Longrightarrow> inv (swap h i j)"
    and push_elems: "elems (push x h) = elems h @ [x]"
    and push_key: "key (push x h) = key h"
    and push_inv: "inv h \<Longrightarrow> x \<notin> set (elems h) \<Longrightarrow> inv (push x h)"
    and pop_fst: "elems h \<noteq> [] \<Longrightarrow> fst (pop h) = last (elems h)"
    and pop_elems: "elems h \<noteq> [] \<Longrightarrow> elems (snd (pop h)) = butlast (elems h)"
    and pop_key: "elems h \<noteq> [] \<Longrightarrow> key (snd (pop h)) = key h"
    and pop_inv: "inv h \<Longrightarrow> elems h \<noteq> [] \<Longrightarrow> inv (snd (pop h))"
begin

abbreviation ordered :: "'h \<Rightarrow> bool" where
  "ordered h \<equiv> heap_ordered (key h) (elems h)"

text \<open>Whatever an exchange of two valid positions keeps, the two loops keep.\<close>

lemma up_keeps:
  assumes step: "\<And>h i j. P h \<Longrightarrow> i < n \<Longrightarrow> j < n \<Longrightarrow> P (swap h i j)"
    and "P h" and "j < n"
  shows "P (heap_up lt swap h j)"
  using assms(2,3)
proof (induction j arbitrary: h rule: less_induct)
  case (less j)
  have "par j < j" if "par j \<noteq> j" using that par_less [of j] by (cases "j = 0") auto
  with less step show ?case
    by (subst heap_up_unfold) auto
qed

lemma down_keeps:
  assumes step: "\<And>h i j. P h \<Longrightarrow> i < n \<Longrightarrow> j < n \<Longrightarrow> P (swap h i j)"
    and "P h" and "m \<le> n"
  shows "P (fst (heap_down lt swap h i m))"
  using assms(2)
proof (induction "m - i" arbitrary: h i rule: less_induct)
  case less
  let ?j = "least_child lt h i m"
  show ?case
  proof (cases "m \<le> 2 * i + 1 \<or> \<not> lt h ?j i")
    case True
    with less.prems show ?thesis by (subst heap_down_unfold) auto
  next
    case False
    then have "?j < m" "i < m" "m - ?j < m - i"
      using least_child_less [of i m lt h] least_child_par(1) [of i lt h m] by auto
    with less step assms(3) have "P (fst (heap_down lt swap (swap h i ?j) ?j m))"
      by (meson less_le_trans)
    with False show ?thesis by (subst heap_down_unfold) simp
  qed
qed

definition like :: "'h \<Rightarrow> 'h \<Rightarrow> bool" where
  "like h0 h \<longleftrightarrow> length (elems h) = length (elems h0) \<and> mset (elems h) = mset (elems h0) \<and>
     key h = key h0 \<and> (inv h0 \<longrightarrow> inv h)"

lemma like_refl [simp]: "like h h"
  by (simp add: like_def)

lemma like_trans: "like a b \<Longrightarrow> like b c \<Longrightarrow> like a c"
  by (simp add: like_def)

lemma like_swap:
  "like h0 h \<Longrightarrow> i < len h0 \<Longrightarrow> j < len h0 \<Longrightarrow> like h0 (swap h i j)"
  by (auto simp: like_def len_elems swap_elems swap_key swap_inv)

lemma like_up: "j < len h \<Longrightarrow> like h (heap_up lt swap h j)"
  by (rule up_keeps [where P = "like h" and n = "len h"]) (auto intro: like_swap)

lemma like_down: "m \<le> len h \<Longrightarrow> like h (fst (heap_down lt swap h i m))"
  by (rule down_keeps [where P = "like h" and n = "len h"]) (auto intro: like_swap)

lemma like_len: "like h0 h \<Longrightarrow> len h = len h0"
  by (simp add: like_def len_elems)

text \<open>\<open>down\<close> does not touch the positions from its bound on.\<close>

lemma down_tail:
  assumes "m \<le> len h" and "m \<le> c" and "c < len h"
  shows "elems (fst (heap_down lt swap h i m)) ! c = elems h ! c"
proof -
  let ?P = "\<lambda>g. length (elems g) = length (elems h) \<and> elems g ! c = elems h ! c"
  have "?P (fst (heap_down lt swap h i m))"
    by (rule down_keeps [where P = ?P and n = m])
      (use assms in \<open>auto simp: len_elems swap_elems nth_list_swap\<close>)
  then show ?thesis by simp
qed

lemma up_ordered:
  assumes "hole_at (key h) (elems h) n j" and "children_ok (key h) (elems h) n j"
    and "j < n" and "n \<le> len h"
  shows "ordered_upto (key h) (elems (heap_up lt swap h j)) n"
  using assms
proof (induction j arbitrary: h rule: less_induct)
  case (less j)
  show ?case
  proof (cases "par j = j \<or> \<not> lt h j (par j)")
    case True
    moreover have "0 < j \<Longrightarrow> edge (key h) (elems h) j"
      using True less.prems par_less [of j] by (auto simp: less_key edge_def not_less)
    ultimately show ?thesis
      using less.prems ordered_uptoI_hole [of "key h" "elems h" n j]
      by (subst heap_up_unfold) auto
  next
    case False
    then have j: "0 < j" "par j < j" using par_less [of j] by (cases "j = 0", auto)+
    have bounds: "par j < len h" "j < len h" using j less.prems by auto
    have lt: "key h (elems h ! j) < key h (elems h ! par j)"
      using False bounds by (simp add: less_key)
    let ?g = "swap h (par j) j"
    have g: "elems ?g = list_swap (elems h) (par j) j" "key ?g = key h"
      using bounds by (simp_all add: swap_elems swap_key)
    have "n \<le> length (elems h)" using less.prems(4) by (simp add: len_elems)
    from hole_up [OF less.prems(1,2) j(1) less.prems(3) this lt]
    have "hole_at (key ?g) (elems ?g) n (par j)" "children_ok (key ?g) (elems ?g) n (par j)"
      by (simp_all add: g)
    moreover have "par j < n" "n \<le> len ?g"
      using j less.prems by (auto simp: len_elems g)
    ultimately have "ordered_upto (key ?g) (elems (heap_up lt swap ?g (par j))) n"
      using less.IH [OF j(2)] by blast
    with False show ?thesis by (subst heap_up_unfold) (simp add: g)
  qed
qed

lemma down_ordered:
  assumes "hole_at (key h) (elems h) n i" and "n \<le> len h" and "heap_down lt swap h i n = (h', i')"
    and "i < n"
  shows "(edge (key h) (elems h) i \<or> i = 0 \<or> i \<noteq> i' \<longrightarrow> ordered_upto (key h) (elems h') n)
     \<and> i \<le> i' \<and> (i = i' \<longrightarrow> h' = h \<and> children_ok (key h) (elems h) n i)"
  using assms
proof (induction "n - i" arbitrary: h i rule: less_induct)
  case less
  let ?j = "least_child lt h i n"
  have small: "key h (elems h ! ?j) \<le> key h (elems h ! c)" if "0 < c" "c < n" "par c = i" for c
    using that less.prems(2) par_children [of c i]
    by (auto simp: least_child_def less_key not_less less_imp_le)
  show ?case
  proof (cases "n \<le> 2 * i + 1 \<or> \<not> lt h ?j i")
    case True
    then have res: "h' = h" "i' = i"
      using less.prems(3) by (auto simp: heap_down_unfold [of lt swap h i] split: if_splits)
    have "edge (key h) (elems h) c" if c: "0 < c" "c < n" "par c = i" for c
    proof -
      have "2 * i + 1 < n" using c par_children [of c i] by auto
      with True have "\<not> lt h ?j i" "?j < len h"
        using less.prems(2) least_child_less [of i n lt h] by auto
      moreover have "i < len h" using less.prems by simp
      ultimately have "key h (elems h ! i) \<le> key h (elems h ! ?j)"
        by (simp only: less_key not_less)
      with small [OF c] c show ?thesis by (auto simp: edge_def)
    qed
    then have "children_ok (key h) (elems h) n i" by (simp add: children_ok_def)
    with res less.prems ordered_uptoI_hole [of "key h" "elems h" n i] show ?thesis by auto
  next
    case False
    then have j: "?j < n" "i < ?j" "n - ?j < n - i" "par ?j = i" "0 < ?j"
      using less.prems(4) least_child_less [of i n lt h] least_child_par [where lt = lt and h = h and i = i and n = n]
      by auto
    have bounds: "i < len h" "?j < len h" using j less.prems by auto
    have lt: "key h (elems h ! ?j) < key h (elems h ! i)"
      using False bounds by (simp only: less_key) auto
    let ?g = "swap h i ?j"
    have g: "elems ?g = list_swap (elems h) i ?j" "key ?g = key h"
      using bounds by (simp_all only: swap_elems swap_key)
    have n: "n \<le> length (elems h)" using less.prems(2) by (simp add: len_elems)
    have "hole_at (key ?g) (elems ?g) n ?j" "edge (key ?g) (elems ?g) ?j"
      using hole_down [OF less.prems(1) j(4) j(5) j(1) n small lt] by (simp_all only: g)
    moreover have "n \<le> len ?g" using n by (simp add: len_elems g)
    moreover have "heap_down lt swap ?g ?j n = (h', i')"
      using less.prems(3) False by (simp add: heap_down_unfold [of lt swap h i])
    ultimately have "ordered_upto (key ?g) (elems h') n \<and> ?j \<le> i'"
      using less.hyps [OF j(3), of ?g] j(1) by blast
    with j(2) show ?thesis by (simp only: g) auto
  qed
qed

section \<open>Push, Pop and Remove\<close>

lemma Push_correct:
  assumes "inv h" and "ordered h" and "x \<notin> set (elems h)"
  shows "inv (heap_Push len lt swap push x h)"
    and "ordered (heap_Push len lt swap push x h)"
    and "mset (elems (heap_Push len lt swap push x h)) = add_mset x (mset (elems h))"
    and "key (heap_Push len lt swap push x h) = key h"
proof -
  let ?h1 = "push x h" and ?n = "length (elems h)"
  have len1: "len ?h1 = Suc ?n" by (simp add: len_elems push_elems)
  have L: "like ?h1 (heap_up lt swap ?h1 ?n)" by (rule like_up) (simp add: len1)
  have eq: "heap_Push len lt swap push x h = heap_up lt swap ?h1 ?n"
    by (simp add: heap_Push_def Let_def len1)
  have old: "edge (key h) (elems h @ [x]) c" if "0 < c" "c < ?n" for c
    using assms(2) that par_less [of c]
    by (auto simp: heap_ordered_def ordered_upto_def edge_def nth_append)
  have no_child: "par c \<noteq> ?n" if "0 < c" "c < Suc ?n" for c
    using that par_less [of c] by auto
  have "hole_at (key ?h1) (elems ?h1) (Suc ?n) ?n" "children_ok (key ?h1) (elems ?h1) (Suc ?n) ?n"
    using old no_child by (auto simp: hole_at_def children_ok_def push_elems push_key)
  then have "ordered_upto (key ?h1) (elems (heap_up lt swap ?h1 ?n)) (Suc ?n)"
    by (rule up_ordered) (simp_all add: len1)
  moreover have "length (elems (heap_up lt swap ?h1 ?n)) = Suc ?n"
    using L by (simp add: like_def push_elems)
  ultimately show "ordered (heap_Push len lt swap push x h)"
    using L by (simp add: eq heap_ordered_def like_def)
  show "inv (heap_Push len lt swap push x h)"
    using L push_inv [OF assms(1,3)] by (simp add: eq like_def)
  show "mset (elems (heap_Push len lt swap push x h)) = add_mset x (mset (elems h))"
    using L by (simp add: eq like_def push_elems)
  show "key (heap_Push len lt swap push x h) = key h"
    using L by (simp add: eq like_def push_key)
qed

text \<open>The last step of \<open>Pop\<close> and \<open>Remove\<close>: cut off the last position.\<close>

lemma cut_last:
  assumes L: "like h h2" and ne: "elems h \<noteq> []" and "inv h"
    and ord: "ordered_upto (key h) (elems h2) (length (elems h) - 1)"
    and last: "elems h2 ! (length (elems h) - 1) = x"
  shows "fst (pop h2) = x" and "inv (snd (pop h2))" and "ordered (snd (pop h2))"
    and "mset (elems (snd (pop h2))) = mset (elems h) - {#x#}" and "key (snd (pop h2)) = key h"
proof -
  have len2: "length (elems h2) = length (elems h)" "key h2 = key h" "mset (elems h2) = mset (elems h)"
    using L by (simp_all add: like_def)
  then have ne2: "elems h2 \<noteq> []" using ne by auto
  have lst: "last (elems h2) = x" using last ne2 len2 by (simp add: last_conv_nth)
  show "fst (pop h2) = x" using ne2 lst by (simp add: pop_fst)
  show "inv (snd (pop h2))" using L assms(3) ne2 by (simp add: like_def pop_inv)
  show "key (snd (pop h2)) = key h" using ne2 len2 by (simp add: pop_key)
  show "mset (elems (snd (pop h2))) = mset (elems h) - {#x#}"
    using ne2 len2 lst by (simp add: pop_elems mset_butlast)
  show "ordered (snd (pop h2))"
    using ord ne2 len2 ordered_upto_cong [of "length (elems h) - 1" "butlast (elems h2)" "elems h2" "key h"]
    by (simp add: heap_ordered_def pop_elems pop_key nth_butlast)
qed

lemma Pop_correct:
  assumes "inv h" and "ordered h" and "elems h \<noteq> []"
  obtains x h' where "heap_Pop len lt swap pop h = Some (x, h')"
    and "x = elems h ! 0" and "inv h'" and "ordered h'" and "key h' = key h"
    and "mset (elems h') = mset (elems h) - {#x#}"
    and "\<And>y. y \<in> set (elems h) \<Longrightarrow> key h x \<le> key h y"
proof -
  obtain n where N: "len h = Suc n"
    using assms(3) by (cases "len h") (auto simp: len_elems)
  then have n: "n < len h" "0 < len h" "length (elems h) = Suc n"
    by (auto simp: len_elems)
  obtain h2 i' where d: "heap_down lt swap (swap h 0 n) 0 n = (h2, i')"
    by fastforce
  let ?g = "swap h 0 n"
  have g: "elems ?g = list_swap (elems h) 0 n" "key ?g = key h" "like h ?g"
    using n by (auto simp: swap_elems swap_key intro: like_swap)
  have L: "like h h2"
    using like_down [of n ?g 0] g(3) d n(1) by (auto simp: like_len [OF g(3)] intro: like_trans)
  have last: "elems h2 ! n = elems h ! 0"
    using down_tail [of n ?g n 0] d n by (simp add: like_len [OF g(3)] g(1) nth_list_swap)
  have ord: "ordered_upto (key h) (elems h2) n"
  proof (cases "n = 0")
    case False
    have "edge (key h) (elems ?g) c" if "0 < c" "c < n" "par c \<noteq> 0" for c
      using assms(2) that par_less [of c] n
      by (auto simp: heap_ordered_def ordered_upto_def edge_def g(1) nth_list_swap)
    then have "hole_at (key ?g) (elems ?g) n 0" by (simp add: hole_at_def g(2))
    from down_ordered [OF this _ d] False n(1) show ?thesis
      by (simp add: like_len [OF g(3)] g(2))
  qed (simp add: ordered_upto_def)
  have "heap_Pop len lt swap pop h = Some (pop h2)"
    using N d by (simp add: heap_Pop_def Let_def)
  moreover have "key h (elems h ! 0) \<le> key h y" if y: "y \<in> set (elems h)" for y
  proof -
    from y obtain c where "c < length (elems h)" "elems h ! c = y"
      by (auto simp: in_set_conv_nth)
    with assms(2) ordered_upto_root_min [of "key h" "elems h" "length (elems h)" c]
    show ?thesis by (simp add: heap_ordered_def)
  qed
  ultimately show ?thesis
    using cut_last [OF L assms(3,1), of "elems h ! 0"] ord last n that [of "fst (pop h2)" "snd (pop h2)"]
    by (simp add: len_elems prod_eq_iff)
qed

text \<open>Exchanging position \<open>i\<close> with the last one leaves a hole at \<open>i\<close>.\<close>

lemma hole_exchange:
  assumes "ordered h" and N: "len h = Suc n" and i: "i < n"
  shows "hole_at (key (swap h i n)) (elems (swap h i n)) n i"
proof -
  let ?g = "swap h i n"
  have n: "n < len h" "i < len h" "length (elems h) = Suc n" using N i by (simp_all add: len_elems)
  have g: "elems ?g = list_swap (elems h) i n" "key ?g = key h" using n by (simp_all add: swap_elems swap_key)
  have all: "edge (key h) (elems h) c" if "0 < c" "c < Suc n" for c
    using assms(1) that n by (simp add: heap_ordered_def ordered_upto_def)
  show ?thesis
    unfolding hole_at_def
  proof (intro conjI allI impI)
    fix c assume "0 < c \<and> c < n \<and> par c \<noteq> i \<and> c \<noteq> i"
    with all [of c] par_less [of c] n N show "edge (key ?g) (elems ?g) c"
      by (auto simp: edge_def g nth_list_swap)
  next
    fix c assume c: "0 < c \<and> c < n \<and> par c = i \<and> 0 < i"
    then have "i < c" "par i < i" using par_less [of c] par_less [of i] by auto
    moreover have "key h (elems h ! par i) \<le> key h (elems h ! i)" "key h (elems h ! i) \<le> key h (elems h ! c)"
      using all [of i] all [of c] c i by (auto simp: edge_def)
    ultimately show "key ?g (elems ?g ! par i) \<le> key ?g (elems ?g ! c)"
      using c i n by (auto simp: g nth_list_swap)
  qed
qed

lemma Remove_correct:
  assumes "inv h" and "ordered h" and "i < length (elems h)"
  obtains h' where "heap_Remove len lt swap pop i h = Some (elems h ! i, h')"
    and "inv h'" and "ordered h'" and "key h' = key h"
    and "mset (elems h') = mset (elems h) - {#elems h ! i#}"
proof -
  obtain n where N: "len h = Suc n"
    using assms(3) by (cases "len h") (auto simp: len_elems)
  then have n: "n < len h" "i < len h" "length (elems h) = Suc n" "elems h \<noteq> []"
    using assms(3) by (auto simp: len_elems)
  show ?thesis
  proof (cases "i = n")
    case True
    have "heap_Remove len lt swap pop i h = Some (pop h)"
      using n N True by (simp add: heap_Remove_def Let_def)
    moreover have "ordered_upto (key h) (elems h) n"
      using assms(2) n(3) by (simp add: heap_ordered_def ordered_upto_def)
    ultimately show ?thesis
      using cut_last [OF like_refl n(4) assms(1), of "elems h ! i"] True n that [of "snd (pop h)"]
      by (simp add: prod_eq_iff)
  next
    case False
    then have i: "i < n" using n N by simp
    let ?g = "swap h i n"
    obtain h2 i' where d: "heap_down lt swap ?g i n = (h2, i')" by fastforce
    have g: "elems ?g = list_swap (elems h) i n" "key ?g = key h" "like h ?g"
      using n by (auto simp: swap_elems swap_key intro: like_swap)
    have gl: "len ?g = len h" using like_len [OF g(3)] .
    have hole: "hole_at (key ?g) (elems ?g) n i" by (rule hole_exchange [OF assms(2) N i])
    have D: "(i \<noteq> i' \<longrightarrow> ordered_upto (key h) (elems h2) n) \<and> i \<le> i'
        \<and> (i = i' \<longrightarrow> h2 = ?g \<and> children_ok (key h) (elems ?g) n i)"
      using down_ordered [OF hole _ d i] n(1) unfolding gl g(2) by simp
    let ?h3 = "if i < i' then h2 else heap_up lt swap h2 i"
    have L2: "like h h2"
      using like_down [of n ?g i] g(3) d n(1) by (auto simp: gl intro: like_trans)
    have L3: "like h ?h3"
      using L2 like_up [of i h2] n like_len [OF L2] by (auto intro: like_trans)
    have ord: "ordered_upto (key h) (elems ?h3) n"
      using D up_ordered [of ?g n i] hole i n(1) by (auto simp: g(2) gl)
    have tl2: "elems h2 ! n = elems h ! i"
      using down_tail [of n ?g n i] d n i by (simp add: gl g(1) nth_list_swap)
    have "elems (heap_up lt swap h2 i) ! n = elems h2 ! n \<and> length (elems (heap_up lt swap h2 i)) = length (elems h2)"
      by (rule up_keeps [where n = n and P = "\<lambda>z. elems z ! n = elems h2 ! n \<and> length (elems z) = length (elems h2)"])
        (use i n like_len [OF L2] in \<open>auto simp: swap_elems nth_list_swap len_elems\<close>)
    with tl2 have last: "elems ?h3 ! n = elems h ! i" by simp
    have "heap_Remove len lt swap pop i h = Some (pop ?h3)"
      using n N False d by (auto simp: heap_Remove_def Let_def)
    with cut_last [OF L3 n(4) assms(1), of "elems h ! i"] last ord n that [of "snd (pop ?h3)"] show ?thesis
      by (simp add: prod_eq_iff)
  qed
qed

end

end
