(* ===== verification/Aio_Types.thy ===== *)
theory Aio_Types
  imports Gaio_Prelude
begin

text \<open>
  The types and constants of \<open>src/aio_generic.go\<close>: errors, operation types, poller events,
  signals, results and the request record \<open>aiocb\<close>, with the parts of Go they rest on: slices over
  a memory of arrays, and the doubly linked lists of \<open>container/list\<close>.
\<close>

section \<open>Constants and errors\<close>

definition maxEvents :: nat where
  "maxEvents = 4096"

definition defaultInternalBufferSize :: nat where
  "defaultInternalBufferSize = 65536"

text \<open>
  Error numbers of system calls: the three the watcher tells apart, and all others by their number.
  The package's own error values follow, then the two errors of package \<open>io\<close> that it uses, system
  call errors as Go errors, and errors made elsewhere (named by their text).
\<close>

datatype errno = EAGAIN | EINTR | ENOBUFS | Errno int

datatype gerr =
    ErrUnsupported
  | ErrNoRawConn
  | ErrWatcherClosed
  | ErrPollerClosed
  | ErrConnClosed
  | ErrDeadline
  | ErrEmptyBuffer
  | ErrCPUID
  | EOF
  | ErrClosedPipe
  | ErrSys errno
  | ErrText string

datatype OpType = OpRead | OpWrite | opDelete

definition zeroTime :: gtime where
  "zeroTime = 0"

abbreviation IsZero :: "gtime \<Rightarrow> bool" where
  "IsZero t \<equiv> t = zeroTime"

section \<open>Poller events\<close>

text \<open>The flag set is an \<open>int8\<close>.\<close>

definition EV_READ :: "8 word" where
  "EV_READ = 0x1"

definition EV_WRITE :: "8 word" where
  "EV_WRITE = 0x2"

record event =
  ev_ident :: int
  ev_ev :: "8 word"

type_synonym pollerEvents = "event list"

record Signal =
  sig_events :: pollerEvents
  sig_err :: "gerr option"

section \<open>Slices\<close>

text \<open>
  Arrays have an identity, because results alias the watcher's buffers: the three shared read
  buffers, the small buffer inside each request and the arrays of the callers. A slice is a window
  of an array; a nil slice is \<open>None\<close> of a slice option. A slice expression out of bounds panics:
  \<open>None\<close>.
\<close>

datatype array = Swap nat | Back aref | User nat

type_synonym memory = "array \<Rightarrow> byte list"

record slice =
  s_arr :: array
  s_off :: nat
  s_len :: nat
  s_cap :: nat

definition mk_slice :: "array \<Rightarrow> nat \<Rightarrow> slice" where
  "mk_slice a n = \<lparr>s_arr = a, s_off = 0, s_len = n, s_cap = n\<rparr>"

definition len_of :: "slice option \<Rightarrow> nat" where
  "len_of b = (case b of None \<Rightarrow> 0 | Some s \<Rightarrow> s_len s)"

text \<open>\<open>s[n:]\<close> and \<open>s[:n]\<close>.\<close>

definition slice_from :: "slice \<Rightarrow> int \<Rightarrow> slice option" where
  "slice_from s n =
     (if 0 \<le> n \<and> n \<le> int (s_len s)
      then Some (s\<lparr>s_off := s_off s + nat n, s_len := s_len s - nat n, s_cap := s_cap s - nat n\<rparr>)
      else None)"

definition slice_upto :: "slice \<Rightarrow> int \<Rightarrow> slice option" where
  "slice_upto s n =
     (if 0 \<le> n \<and> n \<le> int (s_cap s) then Some (s\<lparr>s_len := nat n\<rparr>) else None)"

definition mem_write :: "memory \<Rightarrow> slice \<Rightarrow> byte list \<Rightarrow> memory" where
  "mem_write m s bs =
     m(s_arr s := take (s_off s) (m (s_arr s)) @ bs @ drop (s_off s + length bs) (m (s_arr s)))"

definition mem_read :: "memory \<Rightarrow> slice \<Rightarrow> byte list" where
  "mem_read m s = take (s_len s) (drop (s_off s) (m (s_arr s)))"

lemma slice_from_Some:
  "slice_from s n = Some p \<Longrightarrow> 0 \<le> n \<and> n \<le> int (s_len s) \<and> s_arr p = s_arr s
     \<and> s_off p = s_off s + nat n \<and> s_len p = s_len s - nat n"
  by (auto simp: slice_from_def split: if_splits)

lemma slice_upto_Some:
  "slice_upto s n = Some p \<Longrightarrow> 0 \<le> n \<and> n \<le> int (s_cap s) \<and> s_arr p = s_arr s
     \<and> s_off p = s_off s \<and> s_len p = nat n"
  by (auto simp: slice_upto_def split: if_splits)

lemma mem_write_other: "a \<noteq> s_arr s \<Longrightarrow> mem_write m s bs a = m a"
  by (simp add: mem_write_def)

text \<open>A write leaves the bytes before its window alone, and is read back.\<close>

lemma mem_read_write_disjoint:
  assumes "s_arr r = s_arr s \<Longrightarrow> s_off r + s_len r \<le> s_off s"
    and "s_off s \<le> length (m (s_arr s))"
  shows "mem_read (mem_write m s bs) r = mem_read m r"
proof (cases "s_arr r = s_arr s")
  case True
  with assms have "s_off r + s_len r \<le> s_off s" by simp
  with assms(2) True show ?thesis
    by (simp add: mem_read_def mem_write_def take_drop min_def)
qed (simp add: mem_read_def mem_write_other)

lemma mem_read_write_same:
  assumes "s_off s \<le> length (m (s_arr s))" and "s_arr r = s_arr s" and "s_off r = s_off s"
    and "s_len r = length bs"
  shows "mem_read (mem_write m s bs) r = bs"
  using assms by (simp add: mem_read_def mem_write_def)

lemma length_mem_write:
  "s_off s + length bs \<le> length (m (s_arr s)) \<Longrightarrow> length (mem_write m s bs a) = length (m a)"
  by (simp add: mem_write_def)

section \<open>Lists of package container/list\<close>

text \<open>
  A list element has an identity of its own beside the request it carries. \<open>Remove\<close> does nothing
  for an element that is not in the list.
\<close>

record element =
  el_id :: eref
  el_Value :: aref

definition list_PushBack :: "eref \<Rightarrow> aref \<Rightarrow> element list \<Rightarrow> element list" where
  "list_PushBack e v l = l @ [\<lparr>el_id = e, el_Value = v\<rparr>]"

definition list_Remove :: "eref \<Rightarrow> element list \<Rightarrow> element list" where
  "list_Remove e l = filter (\<lambda>x. el_id x \<noteq> e) l"

lemma list_Remove_head:
  "distinct (map el_id (x # l)) \<Longrightarrow> list_Remove (el_id x) (x # l) = l"
  by (auto simp: list_Remove_def filter_id_conv) (metis image_eqI)

section \<open>Requests and results\<close>

text \<open>
  A connection is an interface value: \<open>None\<close> is the nil interface, \<open>Some p\<close> holds the pointer
  \<open>p\<close> (0 for a typed nil pointer), which \<open>reflect.ValueOf(conn).Pointer()\<close> returns. The caller's
  context is an opaque value. The fields \<open>cb_l\<close> and \<open>cb_elem\<close> point to one of the two lists of a
  descriptor record and to an element of it. The array \<open>backBuffer\<close> of a request \<open>r\<close> is the
  memory array \<open>Back r\<close>.
\<close>

type_synonym net_conn = "uintptr option"
type_synonym any = "nat option"

datatype qside = Reader | Writer

record aiocb =
  cb_l :: "(dref \<times> qside) option"
  cb_elem :: "eref option"
  cb_ctx :: any
  cb_ptr :: uintptr
  cb_op :: OpType
  cb_conn :: net_conn
  cb_err :: "gerr option"
  cb_size :: int
  cb_buffer :: "slice option"
  cb_readFull :: bool
  cb_useSwap :: bool
  cb_idx :: int
  cb_deadline :: gtime

definition backBufferSize :: nat where
  "backBufferSize = 16"

definition zero_aiocb :: aiocb where
  "zero_aiocb = \<lparr>cb_l = None, cb_elem = None, cb_ctx = None, cb_ptr = 0, cb_op = OpRead,
     cb_conn = None, cb_err = None, cb_size = 0, cb_buffer = None, cb_readFull = False,
     cb_useSwap = False, cb_idx = 0, cb_deadline = zeroTime\<rparr>"

record OpResult =
  r_Operation :: OpType
  r_Context :: any
  r_Conn :: net_conn
  r_Buffer :: "slice option"
  r_IsSwapBuffer :: bool
  r_Size :: int
  r_Error :: "gerr option"

end
