(* ===== verification/Timed_Heap.thy ===== *)
theory Timed_Heap
  imports Go_Heap Aio_Types
begin

text \<open>
  The deadline heap of \<open>src/time.go\<close>. Its slice holds pointers to requests, and its methods write
  the \<open>idx\<close> field of the requests they move, so the methods act on the store of requests together
  with the slice. The last section states what \<open>heap.Push\<close>, \<open>heap.Pop\<close> and \<open>heap.Remove\<close> do
  to the pair, by interpreting the interface of \<open>Go_Heap\<close>.
\<close>

section \<open>The methods of timedHeap\<close>

type_synonym timedHeap = "(aref \<Rightarrow> aiocb) \<times> aref list"

fun timedHeap_Len :: "timedHeap \<Rightarrow> nat" where
  "timedHeap_Len (s, h) = length h"

fun timedHeap_Less :: "timedHeap \<Rightarrow> nat \<Rightarrow> nat \<Rightarrow> bool" where
  "timedHeap_Less (s, h) i j = (cb_deadline (s (h ! i)) < cb_deadline (s (h ! j)))"

definition set_idx :: "(aref \<Rightarrow> aiocb) \<Rightarrow> aref \<Rightarrow> int \<Rightarrow> (aref \<Rightarrow> aiocb)" where
  "set_idx s r i = s(r := (s r)\<lparr>cb_idx := i\<rparr>)"

fun timedHeap_Swap :: "timedHeap \<Rightarrow> nat \<Rightarrow> nat \<Rightarrow> timedHeap" where
  "timedHeap_Swap (s, h) i j =
     (let h' = list_swap h i j
      in (set_idx (set_idx s (h' ! i) (int i)) (h' ! j) (int j), h'))"

fun timedHeap_Push :: "aref \<Rightarrow> timedHeap \<Rightarrow> timedHeap" where
  "timedHeap_Push r (s, h) = (set_idx s r (int (length h)), h @ [r])"

fun timedHeap_Pop :: "timedHeap \<Rightarrow> aref \<times> timedHeap" where
  "timedHeap_Pop (s, h) = (last h, (s, butlast h))"

text \<open>The calls of \<open>src/watcher.go\<close> into package \<open>container/heap\<close>.\<close>

definition timeouts_Push :: "aref \<Rightarrow> timedHeap \<Rightarrow> timedHeap" where
  "timeouts_Push = heap_Push timedHeap_Len timedHeap_Less timedHeap_Swap timedHeap_Push"

definition timeouts_Pop :: "timedHeap \<Rightarrow> (aref \<times> timedHeap) option" where
  "timeouts_Pop = heap_Pop timedHeap_Len timedHeap_Less timedHeap_Swap timedHeap_Pop"

definition timeouts_Remove :: "int \<Rightarrow> timedHeap \<Rightarrow> (aref \<times> timedHeap) option" where
  "timeouts_Remove i h =
     (if i < 0 then None
      else heap_Remove timedHeap_Len timedHeap_Less timedHeap_Swap timedHeap_Pop (nat i) h)"

section \<open>Indices and deadlines\<close>

text \<open>
  Every request in the heap knows its position, no request is there twice, and the array is in heap
  order by deadline.
\<close>

definition idx_ok :: "timedHeap \<Rightarrow> bool" where
  "idx_ok h \<longleftrightarrow> distinct (snd h) \<and> (\<forall>i < length (snd h). cb_idx (fst h (snd h ! i)) = int i)"

definition deadline_of :: "timedHeap \<Rightarrow> aref \<Rightarrow> gtime" where
  "deadline_of h r = cb_deadline (fst h r)"

definition timed_ok :: "timedHeap \<Rightarrow> bool" where
  "timed_ok h \<longleftrightarrow> idx_ok h \<and> heap_ordered (deadline_of h) (snd h)"

lemma set_idx_simps [simp]:
  "cb_idx (set_idx s r i q) = (if q = r then i else cb_idx (s q))"
  "(set_idx s r i q)\<lparr>cb_idx := j\<rparr> = (s q)\<lparr>cb_idx := j\<rparr>"
  "cb_deadline (set_idx s r i q) = cb_deadline (s q)"
  by (simp_all add: set_idx_def)

lemma idx_ok_swap:
  assumes "idx_ok h" and "i < length (snd h)" and "j < length (snd h)"
  shows "idx_ok (timedHeap_Swap h i j)"
proof (cases h)
  case (Pair s xs)
  let ?ys = "list_swap xs i j"
  have d: "distinct ?ys" using assms by (simp add: idx_ok_def Pair)
  have pos: "?ys ! m = ?ys ! n \<longleftrightarrow> m = n" if "m < length xs" "n < length xs" for m n
    using that d by (simp add: nth_eq_iff_index_eq)
  have "cb_idx (fst (timedHeap_Swap h i j) (?ys ! m)) = int m" if m: "m < length xs" for m
  proof -
    have "m \<noteq> i \<Longrightarrow> m \<noteq> j \<Longrightarrow> ?ys ! m = xs ! m"
      using assms m by (simp add: nth_list_swap Pair)
    with assms m pos show ?thesis
      by (auto simp: Pair idx_ok_def Let_def)
  qed
  with d show ?thesis by (simp add: idx_ok_def Pair Let_def)
qed

lemma idx_ok_push:
  "idx_ok h \<Longrightarrow> r \<notin> set (snd h) \<Longrightarrow> idx_ok (timedHeap_Push r h)"
  by (cases h) (auto simp: idx_ok_def nth_append less_Suc_eq set_conv_nth)

lemma idx_ok_pop:
  "idx_ok h \<Longrightarrow> snd h \<noteq> [] \<Longrightarrow> idx_ok (snd (timedHeap_Pop h))"
  by (cases h) (auto simp: idx_ok_def nth_butlast distinct_butlast)

interpretation th: heap_interface timedHeap_Len timedHeap_Less timedHeap_Swap timedHeap_Push
  timedHeap_Pop snd deadline_of idx_ok
proof
  fix h :: timedHeap and i j :: nat and x :: aref
  obtain s xs where h: "h = (s, xs)" by fastforce
  show "timedHeap_Len h = length (snd h)" by (simp add: h)
  show "snd (timedHeap_Push x h) = snd h @ [x]" by (simp add: h)
  show "deadline_of (timedHeap_Push x h) = deadline_of h" by (simp add: h deadline_of_def fun_eq_iff)
  show "idx_ok h \<Longrightarrow> x \<notin> set (snd h) \<Longrightarrow> idx_ok (timedHeap_Push x h)" by (rule idx_ok_push)
  show "snd h \<noteq> [] \<Longrightarrow> fst (timedHeap_Pop h) = last (snd h)" by (simp add: h)
  show "snd h \<noteq> [] \<Longrightarrow> snd (snd (timedHeap_Pop h)) = butlast (snd h)" by (simp add: h)
  show "snd h \<noteq> [] \<Longrightarrow> deadline_of (snd (timedHeap_Pop h)) = deadline_of h"
    by (simp add: h deadline_of_def fun_eq_iff)
  show "idx_ok h \<Longrightarrow> snd h \<noteq> [] \<Longrightarrow> idx_ok (snd (timedHeap_Pop h))" by (rule idx_ok_pop)
  assume "i < timedHeap_Len h" "j < timedHeap_Len h"
  then have ij: "i < length (snd h)" "j < length (snd h)" by (simp_all add: h)
  show "timedHeap_Less h i j \<longleftrightarrow> deadline_of h (snd h ! i) < deadline_of h (snd h ! j)"
    by (simp add: h deadline_of_def)
  show "snd (timedHeap_Swap h i j) = list_swap (snd h) i j" by (simp add: h Let_def)
  show "deadline_of (timedHeap_Swap h i j) = deadline_of h"
    by (simp add: h Let_def deadline_of_def fun_eq_iff)
  show "idx_ok h \<Longrightarrow> idx_ok (timedHeap_Swap h i j)" using ij by (simp add: idx_ok_swap)
qed

section \<open>Only indices of requests in the heap change\<close>

definition no_idx :: "aiocb \<Rightarrow> aiocb" where
  "no_idx c = c\<lparr>cb_idx := 0\<rparr>"

definition idx_frame :: "aref set \<Rightarrow> (aref \<Rightarrow> aiocb) \<Rightarrow> (aref \<Rightarrow> aiocb) \<Rightarrow> bool" where
  "idx_frame R s s' \<longleftrightarrow> (\<forall>r. (r \<notin> R \<longrightarrow> s' r = s r) \<and> no_idx (s' r) = no_idx (s r))"

lemma no_idx_set_idx [simp]: "no_idx (set_idx s r i q) = no_idx (s q)"
  by (simp add: no_idx_def)

lemma idx_frame_refl [simp]: "idx_frame R s s"
  by (simp add: idx_frame_def)

lemma idx_frame_set_idx:
  "idx_frame R s s' \<Longrightarrow> r \<in> R \<Longrightarrow> idx_frame R s (set_idx s' r i)"
  by (auto simp: idx_frame_def) (auto simp: set_idx_def)

lemma idx_frame_trans: "idx_frame R a b \<Longrightarrow> idx_frame R b c \<Longrightarrow> idx_frame R a c"
  by (simp add: idx_frame_def)

lemma idx_frame_mono: "idx_frame R s s' \<Longrightarrow> R \<subseteq> R' \<Longrightarrow> idx_frame R' s s'"
  by (auto simp: idx_frame_def)

lemma idx_frame_out: "idx_frame R s s' \<Longrightarrow> r \<notin> R \<Longrightarrow> s' r = s r"
  by (simp add: idx_frame_def)

lemma no_idx_fields:
  assumes "no_idx a = no_idx b"
  shows "cb_l a = cb_l b" "cb_elem a = cb_elem b" "cb_ctx a = cb_ctx b" "cb_ptr a = cb_ptr b"
    "cb_op a = cb_op b" "cb_conn a = cb_conn b" "cb_err a = cb_err b" "cb_size a = cb_size b"
    "cb_buffer a = cb_buffer b" "cb_readFull a = cb_readFull b" "cb_useSwap a = cb_useSwap b"
    "cb_deadline a = cb_deadline b" "a\<lparr>cb_idx := i\<rparr> = b\<lparr>cb_idx := i\<rparr>"
  using assms by (cases a; cases b; simp add: no_idx_def)+

lemmas idx_frame_fields = no_idx_fields [OF idx_frame_def [THEN iffD1, rule_format, THEN conjunct2]]

definition th_frame :: "timedHeap \<Rightarrow> timedHeap \<Rightarrow> bool" where
  "th_frame h g \<longleftrightarrow> length (snd g) = length (snd h) \<and> set (snd g) = set (snd h)
     \<and> idx_frame (set (snd h)) (fst h) (fst g)"

lemma th_frame_swap:
  assumes "th_frame h g" and "i < length (snd h)" and "j < length (snd h)"
  shows "th_frame h (timedHeap_Swap g i j)"
proof (cases g)
  case (Pair s xs)
  have len: "length xs = length (snd h)" and set: "set xs = set (snd h)"
    and frame: "idx_frame (set (snd h)) (fst h) s"
    using assms(1) by (simp_all add: th_frame_def Pair)
  have m: "list_swap xs i j ! m \<in> set (snd h)" if "m < length (snd h)" for m
    using nth_mem [of m "list_swap xs i j"] that assms(2,3) by (simp add: len set)
  from m [OF assms(2)] m [OF assms(3)] frame assms(2,3) show ?thesis
    by (simp add: th_frame_def Pair Let_def idx_frame_set_idx len set)
qed

lemma th_frame_up:
  assumes "j < length (snd h)"
  shows "th_frame h (heap_up timedHeap_Less timedHeap_Swap h j)"
proof (rule th.up_keeps [where n = "length (snd h)" and P = "th_frame h"])
  show "th_frame h h" by (simp add: th_frame_def)
qed (use assms th_frame_swap in blast)+

lemma th_frame_down:
  assumes "th_frame h g" and "n \<le> length (snd h)"
  shows "th_frame h (fst (heap_down timedHeap_Less timedHeap_Swap g i n))"
  by (rule th.down_keeps [where n = "length (snd h)" and P = "th_frame h"])
    (use assms th_frame_swap in blast)+

lemma th_frame_trans: "th_frame a b \<Longrightarrow> th_frame b c \<Longrightarrow> th_frame a c"
  by (auto simp: th_frame_def intro: idx_frame_trans)

lemma timedHeap_Pop_store [simp]: "fst (snd (timedHeap_Pop h)) = fst h"
  by (cases h) simp

lemma timeouts_Push_frame:
  "idx_frame (insert r (set (snd h))) (fst h) (fst (timeouts_Push r h))"
proof (cases h)
  case (Pair s xs)
  let ?h1 = "timedHeap_Push r h"
  have "th_frame ?h1 (heap_up timedHeap_Less timedHeap_Swap ?h1 (length xs))"
    by (rule th_frame_up) (simp add: Pair)
  then have "idx_frame (insert r (set xs)) (fst ?h1) (fst (timeouts_Push r h))"
    by (simp add: timeouts_Push_def heap_Push_def Pair th_frame_def)
  moreover have "idx_frame (insert r (set xs)) s (fst ?h1)"
    by (simp add: Pair idx_frame_set_idx)
  ultimately show ?thesis
    by (auto simp: Pair intro: idx_frame_trans)
qed

lemma timeouts_Pop_frame:
  assumes "timeouts_Pop h = Some (x, g)"
  shows "idx_frame (set (snd h)) (fst h) (fst g)"
proof -
  let ?n = "timedHeap_Len h - 1"
  have ne: "timedHeap_Len h \<noteq> 0"
    using assms by (auto simp: timeouts_Pop_def heap_Pop_def split: if_splits)
  then have n: "?n < length (snd h)" "0 < length (snd h)" by (cases h; simp)+
  have "th_frame h (timedHeap_Swap h 0 ?n)"
    by (rule th_frame_swap) (use n in \<open>simp_all add: th_frame_def\<close>)
  then have "th_frame h (fst (heap_down timedHeap_Less timedHeap_Swap (timedHeap_Swap h 0 ?n) 0 ?n))"
    by (rule th_frame_down) (use n in simp)
  moreover have "g = snd (timedHeap_Pop (fst (heap_down timedHeap_Less timedHeap_Swap (timedHeap_Swap h 0 ?n) 0 ?n)))"
    using assms ne by (auto simp: timeouts_Pop_def heap_Pop_def Let_def split: prod.splits)
  ultimately show ?thesis by (simp add: th_frame_def)
qed

lemma timeouts_Remove_frame:
  assumes "timeouts_Remove k h = Some (x, g)"
  shows "idx_frame (set (snd h)) (fst h) (fst g)"
proof -
  let ?n = "timedHeap_Len h - 1" and ?i = "nat k"
  have i: "?i < length (snd h)" and k: "0 \<le> k"
    using assms by (cases h; auto simp: timeouts_Remove_def heap_Remove_def split: if_splits)+
  then have n: "?n < length (snd h)" by (cases h) auto
  show ?thesis
  proof (cases "?n = ?i")
    case True
    with assms k i have "g = snd (timedHeap_Pop h)"
      by (cases h) (auto simp: timeouts_Remove_def heap_Remove_def Let_def split: if_splits)
    then show ?thesis by simp
  next
    case False
    obtain h2 i' where d: "heap_down timedHeap_Less timedHeap_Swap (timedHeap_Swap h ?i ?n) ?i ?n = (h2, i')"
      by fastforce
    have "th_frame h (timedHeap_Swap h ?i ?n)"
      by (rule th_frame_swap) (use n i in \<open>simp_all add: th_frame_def\<close>)
    then have f2: "th_frame h h2"
      using th_frame_down [of h "timedHeap_Swap h ?i ?n" ?n ?i] n d by simp
    then have f3: "th_frame h (heap_up timedHeap_Less timedHeap_Swap h2 ?i)"
      using th_frame_trans [OF f2] th_frame_up [of ?i h2] i by (simp add: th_frame_def [of h h2])
    have "g = snd (timedHeap_Pop (if ?i < i' then h2 else heap_up timedHeap_Less timedHeap_Swap h2 ?i))"
      using assms False d k i
      by (cases h) (auto simp: timeouts_Remove_def heap_Remove_def Let_def split: if_splits)
    with f2 f3 show ?thesis by (auto simp: th_frame_def)
  qed
qed

section \<open>The three operations\<close>

lemma timeouts_Push_ok:
  assumes "timed_ok h" and "r \<notin> set (snd h)"
  shows "timed_ok (timeouts_Push r h)"
    and "mset (snd (timeouts_Push r h)) = add_mset r (mset (snd h))"
    and "deadline_of (timeouts_Push r h) = deadline_of h"
  using th.Push_correct [of h r] assms by (simp_all add: timed_ok_def timeouts_Push_def)

lemma timeouts_Pop_ok:
  assumes "timed_ok h" and "snd h \<noteq> []"
  obtains h' where "timeouts_Pop h = Some (snd h ! 0, h')" and "timed_ok h'"
    and "mset (snd h') = mset (snd h) - {#snd h ! 0#}"
    and "\<And>r. r \<in> set (snd h) \<Longrightarrow> cb_deadline (fst h (snd h ! 0)) \<le> cb_deadline (fst h r)"
  using th.Pop_correct [of h] assms unfolding timed_ok_def timeouts_Pop_def deadline_of_def
  by metis

lemma timeouts_Remove_ok:
  assumes "timed_ok h" and "r \<in> set (snd h)"
  obtains h' where "timeouts_Remove (cb_idx (fst h r)) h = Some (r, h')" and "timed_ok h'"
    and "mset (snd h') = mset (snd h) - {#r#}"
proof -
  from assms(2) obtain i where i: "i < length (snd h)" "snd h ! i = r"
    by (auto simp: in_set_conv_nth)
  with assms(1) have "cb_idx (fst h r) = int i" by (auto simp: timed_ok_def idx_ok_def)
  moreover from i assms(1) obtain h' where
    "heap_Remove timedHeap_Len timedHeap_Less timedHeap_Swap timedHeap_Pop i h = Some (r, h')"
    "idx_ok h'" "heap_ordered (deadline_of h') (snd h')" "mset (snd h') = mset (snd h) - {#r#}"
    using th.Remove_correct [of h i] unfolding timed_ok_def by metis
  ultimately show ?thesis
    using that [of h'] by (simp add: timed_ok_def timeouts_Remove_def)
qed

lemma timed_ok_set:
  assumes "timed_ok h" and "timed_ok h'" and "mset (snd h') = mset (snd h) - {#r#}"
  shows "set (snd h') = set (snd h) - {r}"
proof -
  have "distinct (snd h)" using assms(1) by (simp add: timed_ok_def idx_ok_def)
  then have "mset (snd h) - {#r#} = mset (remove1 r (snd h))" by simp
  with assms(3) have "set (snd h') = set (remove1 r (snd h))" by (metis set_mset_mset)
  with \<open>distinct (snd h)\<close> show ?thesis by (simp add: set_remove1_eq)
qed

section \<open>Properties\<close>

definition sample_heap :: timedHeap where
  "sample_heap = ((\<lambda>r. zero_aiocb\<lparr>cb_deadline := (if r = 1 then 9 else if r = 2 then 4 else 7),
     cb_idx := (if r = 1 then 1 else if r = 2 then 0 else -1)\<rparr>), [2, 1])"

lemma sample_heap_ok: "timed_ok sample_heap"
  by code_simp

text \<open>
  C11. \<open>heap.Pop\<close> on a well-formed deadline heap returns a request whose deadline is least,
  removes exactly that request and leaves a well-formed heap, in which every remaining request
  still knows its position.\<close>

theorem timeouts_pop_least:
  assumes "timed_ok h" and "snd h \<noteq> []"
  shows "\<exists>r h'. timeouts_Pop h = Some (r, h') \<and> timed_ok h' \<and> r \<in> set (snd h)
      \<and> set (snd h') = set (snd h) - {r} \<and> (\<forall>q. q \<in> set (snd h) \<longrightarrow> cb_deadline (fst h r) \<le> cb_deadline (fst h q))"
  using timeouts_Pop_ok [OF assms] timed_ok_set [OF assms(1)] assms(2)
  by (metis length_greater_0_conv nth_mem)

theorem timeouts_pop_least_witness:
  "timed_ok sample_heap \<and> snd sample_heap \<noteq> []
   \<and> (\<exists>r h'. timeouts_Pop sample_heap = Some (r, h') \<and> timed_ok h')"
proof -
  have ne: "snd sample_heap \<noteq> []" by (simp add: sample_heap_def)
  show ?thesis using sample_heap_ok ne timeouts_pop_least [OF sample_heap_ok ne] by blast
qed

text \<open>
  C12. \<open>heap.Remove\<close> at the recorded index of a request takes out exactly that request (the
  call that \<open>deliver\<close> makes), and the heap stays well formed.\<close>

theorem timeouts_remove_at_idx:
  assumes "timed_ok h" and "r \<in> set (snd h)"
  shows "\<exists>h'. timeouts_Remove (cb_idx (fst h r)) h = Some (r, h') \<and> timed_ok h'
      \<and> set (snd h') = set (snd h) - {r} \<and> (\<forall>q. no_idx (fst h' q) = no_idx (fst h q))"
proof -
  obtain h' where h': "timeouts_Remove (cb_idx (fst h r)) h = Some (r, h')" "timed_ok h'"
    "mset (snd h') = mset (snd h) - {#r#}"
    using timeouts_Remove_ok [OF assms] .
  with timed_ok_set [OF assms(1) h'(2,3)] timeouts_Remove_frame [OF h'(1)] show ?thesis
    by (auto simp: idx_frame_def)
qed

theorem timeouts_remove_at_idx_witness:
  "timed_ok sample_heap \<and> 1 \<in> set (snd sample_heap)
   \<and> (\<exists>h'. timeouts_Remove (cb_idx (fst sample_heap 1)) sample_heap = Some (1, h') \<and> timed_ok h')"
proof -
  have "1 \<in> set (snd sample_heap)" by (simp add: sample_heap_def)
  from timeouts_remove_at_idx [OF sample_heap_ok this] sample_heap_ok this show ?thesis by blast
qed

end
