(* ===== verification/Watcher_State.thy ===== *)
theory Watcher_State
  imports Timed_Heap
begin

text \<open>
  The state of \<open>src/watcher.go\<close>: the descriptor record \<open>fdDesc\<close>, the \<open>watcher\<close> struct together
  with the Go heap its pointers lead into, the environment the watcher calls (the platform files,
  the operating system, the Go runtime), and the constructor \<open>NewWatcherSize\<close>.

  A channel with a buffer of one element that carries only notifications is a flag. Locks guard
  sections that the model executes as one action; the one lock that is held across a blocking
  operation, \<open>gcMutex\<close> in \<open>handleGC\<close>, is the flag \<open>gcLocked\<close>.
\<close>

section \<open>Descriptor records\<close>

record fdDesc =
  fd_readers :: "element list"
  fd_writers :: "element list"
  fd_ptr :: uintptr

definition zero_fdDesc :: fdDesc where
  "zero_fdDesc = \<lparr>fd_readers = [], fd_writers = [], fd_ptr = 0\<rparr>"

section \<open>Actions of other goroutines\<close>

text \<open>
  While the watcher's loop runs, callers submit requests (\<open>Read\<close> \<dots> \<open>Free\<close>), one goroutine
  collects results with \<open>WaitIO\<close>, someone may stop the watcher, the runtime runs finalizers and
  fires the timer, and the poller sends signals. \<open>WaitIO\<close> is cut at its channel operations: entry,
  each receive, the two outcomes of the test of the channel's length, the notification with the return, and the return
  with an error.
\<close>

datatype act =
    ARead any net_conn "slice option"
  | AReadTimeout any net_conn "slice option" gtime
  | AReadFull any net_conn "slice option" gtime
  | AWrite any net_conn "slice option"
  | AWriteTimeout any net_conn "slice option" gtime
  | AFree net_conn
  | AWaitEnter
  | AWaitRecv
  | AWaitMore
  | AWaitDrained
  | AWaitNotify
  | AWaitClosed
  | AStop
  | AFinalize uintptr
  | ATimerFires
  | ASignal Signal

text \<open>
  Where the goroutine that calls \<open>WaitIO\<close> stands: outside, at the \<open>select\<close>, at the loop condition,
  at the receive in the loop body (which waits for a result and for nothing else), before the notification.
\<close>

datatype wphase = WIdle | WSelect | WDrain | WRecv | WNotify

section \<open>The environment\<close>

text \<open>
  What the watcher calls and does not define: the platform interface (modelled for Linux, BSD and
  Windows in theories of their own), the methods of \<open>net.Conn\<close>, the clock, and the choices the Go
  runtime makes (which goroutines run at a scheduling point, which ready case a \<open>select\<close> takes,
  which object a \<open>sync.Pool\<close> hands out). Each is a function on a state of the world.

  \<open>e_rawRead fd n\<close> returns the two results of \<open>rawRead(fd, p)\<close> for a slice \<open>p\<close> of \<open>n\<close>
  bytes, and the bytes it stored at the start of \<open>p\<close>.
\<close>

record 'w env =
  e_openPoll :: "'w \<Rightarrow> gerr option \<times> 'w"
  e_rawRead :: "fd \<Rightarrow> nat \<Rightarrow> 'w \<Rightarrow> (int \<times> errno option \<times> byte list) \<times> 'w"
  e_rawWrite :: "fd \<Rightarrow> byte list \<Rightarrow> 'w \<Rightarrow> (int \<times> errno option) \<times> 'w"
  e_dupconn :: "net_conn \<Rightarrow> 'w \<Rightarrow> (fd \<times> gerr option) \<times> 'w"
  e_closeFd :: "fd \<Rightarrow> 'w \<Rightarrow> 'w"
  e_conn_Close :: "net_conn \<Rightarrow> 'w \<Rightarrow> 'w"
  e_Watch :: "fd \<Rightarrow> 'w \<Rightarrow> gerr option \<times> 'w"
  e_pfd_Close :: "'w \<Rightarrow> gerr option \<times> 'w"
  e_wakeup :: "'w \<Rightarrow> gerr option \<times> 'w"
  e_set_cpuid :: "int \<Rightarrow> 'w \<Rightarrow> 'w"
  e_setAffinity :: "int \<Rightarrow> 'w \<Rightarrow> 'w"
  e_NumCPU :: int
  e_Now :: "'w \<Rightarrow> gtime \<times> 'w"
  e_sched :: "'w \<Rightarrow> act list \<times> 'w"
  e_select :: "'w \<Rightarrow> bool \<times> 'w"
  e_pool :: "'w \<Rightarrow> nat \<times> 'w"

section \<open>The watcher\<close>

record 'w watcher =
  aiocbs :: "aref \<Rightarrow> aiocb"
  next_cb :: aref
  aiocbPool :: "aref list"
  fdDescs :: "dref \<Rightarrow> fdDesc"
  next_desc :: dref
  fdDescPool :: "dref list"
  next_elem :: eref
  mem :: memory
  chSignal :: "Signal option"
  sigDone :: bool
  chPendingNotify :: bool
  pendingCreate :: "aref list"
  pendingProcessing :: "aref list"
  recycles :: "aref list"
  chResults :: "aref list"
  swapSize :: nat
  swapBufferFront :: slice
  swapBufferMiddle :: slice
  swapBufferBack :: slice
  bufferOffset :: int
  shouldSwap :: bool
  results :: "OpResult list"
  descs :: "fd \<Rightarrow> dref option"
  connIdents :: "uintptr \<Rightarrow> fd option"
  timeouts :: "aref list"
  timer :: "gtime option"
  timerC :: bool
  gc :: "uintptr list"
  gcLocked :: bool
  gcNotify :: bool
  gcFound :: "32 word"
  gcClosed :: "32 word"
  die :: bool
  loopDone :: bool
  pollerErr :: "gerr option"
  wphase :: wphase
  os :: 'w

text \<open>The capacity of \<open>chResults\<close>.\<close>

definition resultsCap :: nat where
  "resultsCap = maxEvents * 4"

definition set_cb :: "aref \<Rightarrow> aiocb \<Rightarrow> 'w watcher \<Rightarrow> 'w watcher" where
  "set_cb r c w = w\<lparr>aiocbs := (aiocbs w)(r := c)\<rparr>"

definition set_desc :: "dref \<Rightarrow> fdDesc \<Rightarrow> 'w watcher \<Rightarrow> 'w watcher" where
  "set_desc d x w = w\<lparr>fdDescs := (fdDescs w)(d := x)\<rparr>"

definition queue_of :: "qside \<Rightarrow> fdDesc \<Rightarrow> element list" where
  "queue_of s x = (case s of Reader \<Rightarrow> fd_readers x | Writer \<Rightarrow> fd_writers x)"

definition with_queue :: "qside \<Rightarrow> (element list \<Rightarrow> element list) \<Rightarrow> fdDesc \<Rightarrow> fdDesc" where
  "with_queue s f x =
     (case s of Reader \<Rightarrow> x\<lparr>fd_readers := f (fd_readers x)\<rparr> | Writer \<Rightarrow> x\<lparr>fd_writers := f (fd_writers x)\<rparr>)"

section \<open>Construction\<close>

text \<open>
  \<open>NewWatcherSize\<close>. Fresh requests and descriptor records start at the given addresses, the pools
  (package variables) are empty, and \<open>m\<close> holds the arrays of the callers. The size is not negative: \<open>make\<close>
  panics on a negative one.
\<close>

definition NewWatcherSize :: "'w env \<Rightarrow> nat \<Rightarrow> memory \<Rightarrow> 'w \<Rightarrow> gerr + 'w watcher" where
  "NewWatcherSize E bufsize m world =
     (case e_openPoll E world of
        (Some e, _) \<Rightarrow> Inl e
      | (None, world') \<Rightarrow> Inr
          \<lparr>aiocbs = (\<lambda>_. zero_aiocb), next_cb = 0, aiocbPool = [],
           fdDescs = (\<lambda>_. zero_fdDesc), next_desc = 0, fdDescPool = [], next_elem = 0,
           mem = (\<lambda>a. case a of Swap k \<Rightarrow> replicate bufsize 0 | Back r \<Rightarrow> replicate backBufferSize 0 | User u \<Rightarrow> m a),
           chSignal = None, sigDone = False, chPendingNotify = False,
           pendingCreate = [], pendingProcessing = [], recycles = [], chResults = [],
           swapSize = bufsize,
           swapBufferFront = mk_slice (Swap 0) bufsize,
           swapBufferMiddle = mk_slice (Swap 1) bufsize,
           swapBufferBack = mk_slice (Swap 2) bufsize,
           bufferOffset = 0, shouldSwap = False, results = [],
           descs = Map.empty, connIdents = Map.empty, timeouts = [], timer = None, timerC = False,
           gc = [], gcLocked = False, gcNotify = False, gcFound = 0, gcClosed = 0,
           die = False, loopDone = False, pollerErr = None, wphase = WIdle, os = world'\<rparr>)"

definition NewWatcher :: "'w env \<Rightarrow> memory \<Rightarrow> 'w \<Rightarrow> gerr + 'w watcher" where
  "NewWatcher E m world = NewWatcherSize E defaultInternalBufferSize m world"

section \<open>Projections\<close>

lemma queue_of_with_queue:
  "queue_of s (with_queue t f x) = (if s = t then f (queue_of s x) else queue_of s x)"
  by (cases s; cases t) (simp_all add: queue_of_def with_queue_def)

lemma fd_ptr_with_queue [simp]: "fd_ptr (with_queue s f x) = fd_ptr x"
  by (cases s) (simp_all add: with_queue_def)

lemma set_cb_aiocbs [simp]: "aiocbs (set_cb r c w) = (aiocbs w)(r := c)"
  by (simp add: set_cb_def)

lemma set_desc_fdDescs [simp]: "fdDescs (set_desc d x w) = (fdDescs w)(d := x)"
  by (simp add: set_desc_def)

end
