(* ===== verification/Watcher_Api.thy ===== *)
theory Watcher_Api
  imports Watcher_State
begin

text \<open>
  The side of \<open>src/watcher.go\<close> that other goroutines execute: request submission, \<open>WaitIO\<close>,
  shutdown, the affinity setters, the finalizer of a registered connection, and the scheduling
  points at which the loop lets those goroutines run.
\<close>

section \<open>Notifications\<close>

definition notifyPending :: "'w watcher \<Rightarrow> 'w watcher" where
  "notifyPending w = w\<lparr>chPendingNotify := True\<rparr>"

definition notifyShouldSwap :: "'w watcher \<Rightarrow> 'w watcher" where
  "notifyShouldSwap w = w\<lparr>shouldSwap := True\<rparr>"

section \<open>Submitting requests\<close>

definition aiocbPool_Get :: "'w env \<Rightarrow> 'w watcher \<Rightarrow> aref \<times> 'w watcher" where
  "aiocbPool_Get E w =
     (let (k, world) = e_pool E (os w); p = aiocbPool w; w1 = w\<lparr>os := world\<rparr>
      in if k < length p then (p ! k, w1\<lparr>aiocbPool := take k p @ drop (Suc k) p\<rparr>)
         else (next_cb w, w1\<lparr>next_cb := Suc (next_cb w)\<rparr>))"

definition aiocbPool_Put :: "aref \<Rightarrow> 'w watcher \<Rightarrow> 'w watcher" where
  "aiocbPool_Put r w = w\<lparr>aiocbPool := r # aiocbPool w\<rparr>"

definition new_aiocb :: "any \<Rightarrow> OpType \<Rightarrow> uintptr \<Rightarrow> slice option \<Rightarrow> gtime \<Rightarrow> bool \<Rightarrow> aiocb" where
  "new_aiocb cx oper ptr buf dl full =
     zero_aiocb\<lparr>cb_op := oper, cb_ptr := ptr, cb_size := 0, cb_ctx := cx, cb_conn := Some ptr,
       cb_buffer := buf, cb_deadline := dl, cb_readFull := full, cb_idx := -1\<rparr>"

text \<open>
  The assignment to \<open>*cb\<close> also clears the request's own buffer. The notification follows the
  critical section at once: it is idempotent, and a wake-up of the loop with nothing to do is
  harmless.
\<close>

definition aioCreate ::
  "'w env \<Rightarrow> any \<Rightarrow> OpType \<Rightarrow> net_conn \<Rightarrow> slice option \<Rightarrow> gtime \<Rightarrow> bool \<Rightarrow> 'w watcher
     \<Rightarrow> gerr option \<times> 'w watcher" where
  "aioCreate E cx oper conn buf dl full w =
     (case conn of
        None \<Rightarrow> (Some ErrUnsupported, w)
      | Some ptr \<Rightarrow>
          if ptr = 0 then (Some ErrUnsupported, w)
          else let (cb, w1) = aiocbPool_Get E w;
                   w2 = (set_cb cb (new_aiocb cx oper ptr buf dl full) w1)
                          \<lparr>mem := (mem w1)(Back cb := replicate backBufferSize 0)\<rparr>
               in if die w2 then (Some ErrWatcherClosed, aiocbPool_Put cb w2)
                  else (None, notifyPending (w2\<lparr>pendingCreate := pendingCreate w2 @ [cb]\<rparr>)))"

definition Read ::
  "'w env \<Rightarrow> any \<Rightarrow> net_conn \<Rightarrow> slice option \<Rightarrow> 'w watcher \<Rightarrow> gerr option \<times> 'w watcher" where
  "Read E cx conn buf w = aioCreate E cx OpRead conn buf zeroTime False w"

definition ReadTimeout ::
  "'w env \<Rightarrow> any \<Rightarrow> net_conn \<Rightarrow> slice option \<Rightarrow> gtime \<Rightarrow> 'w watcher \<Rightarrow> gerr option \<times> 'w watcher" where
  "ReadTimeout E cx conn buf dl w = aioCreate E cx OpRead conn buf dl False w"

definition ReadFull ::
  "'w env \<Rightarrow> any \<Rightarrow> net_conn \<Rightarrow> slice option \<Rightarrow> gtime \<Rightarrow> 'w watcher \<Rightarrow> gerr option \<times> 'w watcher" where
  "ReadFull E cx conn buf dl w =
     (if len_of buf = 0 then (Some ErrEmptyBuffer, w) else aioCreate E cx OpRead conn buf dl True w)"

definition Write ::
  "'w env \<Rightarrow> any \<Rightarrow> net_conn \<Rightarrow> slice option \<Rightarrow> 'w watcher \<Rightarrow> gerr option \<times> 'w watcher" where
  "Write E cx conn buf w =
     (if len_of buf = 0 then (Some ErrEmptyBuffer, w) else aioCreate E cx OpWrite conn buf zeroTime False w)"

definition WriteTimeout ::
  "'w env \<Rightarrow> any \<Rightarrow> net_conn \<Rightarrow> slice option \<Rightarrow> gtime \<Rightarrow> 'w watcher \<Rightarrow> gerr option \<times> 'w watcher" where
  "WriteTimeout E cx conn buf dl w =
     (if len_of buf = 0 then (Some ErrEmptyBuffer, w) else aioCreate E cx OpWrite conn buf dl False w)"

definition Free :: "'w env \<Rightarrow> net_conn \<Rightarrow> 'w watcher \<Rightarrow> gerr option \<times> 'w watcher" where
  "Free E conn w = aioCreate E None opDelete conn None zeroTime False w"

section \<open>Collecting results\<close>

definition result_of :: "aiocb \<Rightarrow> OpResult" where
  "result_of c = \<lparr>r_Operation = cb_op c, r_Context = cb_ctx c, r_Conn = cb_conn c,
     r_Buffer = cb_buffer c, r_IsSwapBuffer = cb_useSwap c, r_Size = cb_size c, r_Error = cb_err c\<rparr>"

text \<open>Entry: the requests of the previous batch go back to the pool, its results are cleared.\<close>

definition WaitIO_enter :: "'w watcher \<Rightarrow> 'w watcher" where
  "WaitIO_enter w = (fold aiocbPool_Put (recycles w) w)\<lparr>recycles := [], results := [], wphase := WSelect\<rparr>"

definition WaitIO_recv :: "'w watcher \<Rightarrow> 'w watcher" where
  "WaitIO_recv w =
     (case chResults w of
        [] \<Rightarrow> w
      | pcb # rest \<Rightarrow>
          (set_cb pcb ((aiocbs w pcb)\<lparr>cb_ctx := None, cb_conn := None\<rparr>) w)
            \<lparr>chResults := rest, results := results w @ [result_of (aiocbs w pcb)],
             recycles := recycles w @ [pcb], wphase := WDrain\<rparr>)"

text \<open>The loop condition \<open>len(w.chResults) > 0\<close> is true, or it is false.\<close>

definition WaitIO_more :: "'w watcher \<Rightarrow> 'w watcher" where
  "WaitIO_more w = (if chResults w \<noteq> [] then w\<lparr>wphase := WRecv\<rparr> else w)"

definition WaitIO_drained :: "'w watcher \<Rightarrow> 'w watcher" where
  "WaitIO_drained w = (if chResults w = [] then w\<lparr>wphase := WNotify\<rparr> else w)"

definition WaitIO_notify :: "'w watcher \<Rightarrow> 'w watcher" where
  "WaitIO_notify w = (notifyShouldSwap w)\<lparr>wphase := WIdle\<rparr>"

definition closed_error :: "'w watcher \<Rightarrow> gerr" where
  "closed_error w = (case pollerErr w of Some e \<Rightarrow> e | None \<Rightarrow> ErrWatcherClosed)"

text \<open>
  A whole call in which no other goroutine runs: \<open>None\<close> when it would block. When results are
  queued and the watcher is closed, the \<open>select\<close> may take either case.
\<close>

definition WaitIO :: "'w env \<Rightarrow> 'w watcher \<Rightarrow> ((gerr + OpResult list) \<times> 'w watcher) option" where
  "WaitIO E w =
     (let w1 = WaitIO_enter w; closed = die w1 \<or> loopDone w1; (b, world) = e_select E (os w1)
      in if chResults w1 \<noteq> [] \<and> (\<not> closed \<or> b)
         then let w2 = WaitIO_notify (WaitIO_drained ((WaitIO_recv ^^ length (chResults w1)) w1))
              in Some (Inr (results w2), w2\<lparr>os := world\<rparr>)
         else if closed then Some (Inl (closed_error w1), w1\<lparr>wphase := WIdle, os := world\<rparr>)
         else None)"

section \<open>Shutdown, affinity, finalizers\<close>

text \<open>\<open>dieOnce\<close> runs its function at most once; later calls return nil.\<close>

definition stop :: "'w env \<Rightarrow> 'w watcher \<Rightarrow> gerr option \<times> 'w watcher" where
  "stop E w =
     (if die w then (None, w)
      else let (e, world) = e_pfd_Close E (os w) in (e, w\<lparr>die := True, os := world\<rparr>))"

text \<open>\<open>Close\<close> returns once the loop has ended (\<open>None\<close>: it waits).\<close>

definition Close :: "'w env \<Rightarrow> 'w watcher \<Rightarrow> (gerr option \<times> 'w watcher) option" where
  "Close E w = (let (e, w') = stop E w in if loopDone w' then Some (e, w') else None)"

text \<open>\<open>int32(cpuid)\<close>: two's complement truncation to 32 bits.\<close>

definition int32 :: "int \<Rightarrow> int" where
  "int32 n = sint (word_of_int n :: 32 word)"

definition SetPollerAffinity :: "'w env \<Rightarrow> int \<Rightarrow> 'w watcher \<Rightarrow> gerr option \<times> 'w watcher" where
  "SetPollerAffinity E cpuid w =
     (if cpuid < 0 \<or> e_NumCPU E \<le> cpuid then (Some ErrCPUID, w)
      else let (e, world) = e_wakeup E (e_set_cpuid E (int32 cpuid) (os w))
           in case e of
                Some err \<Rightarrow> (Some err, w\<lparr>os := e_set_cpuid E (-1) world\<rparr>)
              | None \<Rightarrow> (None, w\<lparr>os := world\<rparr>))"

text \<open>
  \<open>ready\<close> says whether the loop stands at its \<open>select\<close> to receive from \<open>chCPUID\<close>; it then
  applies the value. \<open>None\<close>: the call blocks.
\<close>

definition SetLoopAffinity ::
  "'w env \<Rightarrow> bool \<Rightarrow> int \<Rightarrow> 'w watcher \<Rightarrow> (gerr option \<times> 'w watcher) option" where
  "SetLoopAffinity E ready cpuid w =
     (if cpuid < 0 \<or> e_NumCPU E \<le> cpuid then Some (Some ErrCPUID, w)
      else let (b, world) = e_select E (os w)
           in if ready \<and> (\<not> die w \<or> b) then Some (None, w\<lparr>os := e_setAffinity E (int32 cpuid) world\<rparr>)
              else if die w then Some (Some ErrConnClosed, w\<lparr>os := world\<rparr>)
              else None)"

definition GetGC :: "'w watcher \<Rightarrow> (32 word \<times> 32 word) option" where
  "GetGC w = (if gcLocked w then None else Some (gcFound w, gcClosed w))"

text \<open>The finalizer set in \<open>handlePending\<close>; it waits while \<open>handleGC\<close> holds the lock.\<close>

definition conn_finalizer :: "uintptr \<Rightarrow> 'w watcher \<Rightarrow> 'w watcher" where
  "conn_finalizer c w =
     (if gcLocked w then w
      else w\<lparr>gc := gc w @ [c], gcFound := gcFound w + 1, gcNotify := True\<rparr>)"

section \<open>Scheduling points\<close>

text \<open>An action that is not enabled leaves the state alone.\<close>

fun exec_act :: "'w env \<Rightarrow> act \<Rightarrow> 'w watcher \<Rightarrow> 'w watcher" where
  "exec_act E (ARead cx c b) w = snd (Read E cx c b w)"
| "exec_act E (AReadTimeout cx c b t) w = snd (ReadTimeout E cx c b t w)"
| "exec_act E (AReadFull cx c b t) w = snd (ReadFull E cx c b t w)"
| "exec_act E (AWrite cx c b) w = snd (Write E cx c b w)"
| "exec_act E (AWriteTimeout cx c b t) w = snd (WriteTimeout E cx c b t w)"
| "exec_act E (AFree c) w = snd (Free E c w)"
| "exec_act E AWaitEnter w = (if wphase w = WIdle then WaitIO_enter w else w)"
| "exec_act E AWaitRecv w =
     (if (wphase w = WSelect \<or> wphase w = WRecv) \<and> chResults w \<noteq> [] then WaitIO_recv w else w)"
| "exec_act E AWaitMore w = (if wphase w = WDrain then WaitIO_more w else w)"
| "exec_act E AWaitDrained w = (if wphase w = WDrain then WaitIO_drained w else w)"
| "exec_act E AWaitNotify w = (if wphase w = WNotify then WaitIO_notify w else w)"
| "exec_act E AWaitClosed w =
     (if wphase w = WSelect \<and> (die w \<or> loopDone w) then w\<lparr>wphase := WIdle\<rparr> else w)"
| "exec_act E AStop w = snd (stop E w)"
| "exec_act E (AFinalize c) w = conn_finalizer c w"
| "exec_act E ATimerFires w = (if timer w \<noteq> None then w\<lparr>timer := None, timerC := True\<rparr> else w)"
| "exec_act E (ASignal s) w = (if chSignal w = None then w\<lparr>chSignal := Some s\<rparr> else w)"

definition run_acts :: "'w env \<Rightarrow> act list \<Rightarrow> 'w watcher \<Rightarrow> 'w watcher" where
  "run_acts E acts w = fold (exec_act E) acts w"

text \<open>
  The loop shares with other goroutines only channels, the submission slice and the finalizer queue.
  Before an operation on one of them, any number of actions of other goroutines may happen.
\<close>

definition yield :: "'w env \<Rightarrow> 'w watcher \<Rightarrow> 'w watcher" where
  "yield E w = (let (acts, world) = e_sched E (os w) in run_acts E acts (w\<lparr>os := world\<rparr>))"

end
