(* ===== verification/Watcher_Loop.thy ===== *)
theory Watcher_Loop
  imports Watcher_Api
begin

text \<open>
  The loop goroutine of \<open>src/watcher.go\<close>: the I/O attempts \<open>tryRead\<close> and \<open>tryWrite\<close>, delivery
  of completions, release of connections, the handlers of the loop's \<open>select\<close> and the loop as a
  step relation. An operation returns \<open>None\<close> when it does not return in Go: it retries or waits
  forever, or it panics. The loops that may not end are defined by their bodies
  (\<open>read_once\<close>, \<open>write_once\<close>, \<open>send_once\<close>, \<open>expire_once\<close>) and \<open>go_loop\<close>.
\<close>

section \<open>Reading\<close>

text \<open>How one attempt of a system call loop ends: \<open>return false\<close>, \<open>continue\<close> or \<open>break\<close>.\<close>

datatype attempt = WouldBlock | Retry | Finished

text \<open>A swap notification rotates the shared buffers.\<close>

definition rotate_buffers :: "'w watcher \<Rightarrow> 'w watcher" where
  "rotate_buffers w =
     w\<lparr>shouldSwap := False,
       swapBufferFront := swapBufferMiddle w,
       swapBufferMiddle := swapBufferBack w,
       swapBufferBack := swapBufferFront w,
       bufferOffset := 0\<rparr>"

text \<open>The choice of the buffer: the slice, whether it is shared, whether it is the request's own.\<close>

definition select_buffer ::
  "aref \<Rightarrow> 'w watcher \<Rightarrow> (slice \<times> bool \<times> bool \<times> 'w watcher) option" where
  "select_buffer r w =
     (case cb_buffer (aiocbs w r) of
        Some b \<Rightarrow> Some (b, False, False, w)
      | None \<Rightarrow>
          let w1 = (if shouldSwap w then rotate_buffers w else w)
          in case slice_from (swapBufferFront w1) (bufferOffset w1) of
               None \<Rightarrow> None
             | Some buf \<Rightarrow>
                 if 0 < s_len buf then Some (buf, True, False, w1)
                 else Some (mk_slice (Back r) backBufferSize, False, True, w1))"

definition read_once ::
  "'w env \<Rightarrow> fd \<Rightarrow> slice \<Rightarrow> aref \<Rightarrow> 'w watcher \<Rightarrow> (attempt \<times> 'w watcher) option" where
  "read_once E f buf r w =
     (case slice_from buf (cb_size (aiocbs w r)) of
        None \<Rightarrow> None
      | Some p \<Rightarrow>
          let ((nr, er, bs), world) = e_rawRead E f (s_len p) (os w);
              w1 = w\<lparr>os := world, mem := mem_write (mem w) p bs\<rparr>;
              c = aiocbs w r
          in if er = Some EAGAIN then Some (WouldBlock, w1)
             else if er = Some EINTR then Some (Retry, w1)
             else Some (Finished, set_cb r
                    (c\<lparr>cb_size := (if er = None then cb_size c + nr else cb_size c),
                       cb_err := (if nr = 0 \<and> er = None then Some EOF else map_option ErrSys er)\<rparr>) w1))"

definition retry_unless :: "(attempt \<times> 'w watcher) option \<Rightarrow> ('w watcher + attempt \<times> 'w watcher) option" where
  "retry_unless x = map_option (\<lambda>(a, w). if a = Retry then Inl w else Inr (a, w)) x"

definition read_loop ::
  "'w env \<Rightarrow> fd \<Rightarrow> slice \<Rightarrow> aref \<Rightarrow> 'w watcher \<Rightarrow> (attempt \<times> 'w watcher) option" where
  "read_loop E f buf r = go_loop (\<lambda>w. retry_unless (read_once E f buf r w))"

text \<open>The end of \<open>tryRead\<close>, after a system call that neither blocked nor was interrupted.\<close>

definition finish_read ::
  "slice \<Rightarrow> bool \<Rightarrow> bool \<Rightarrow> aref \<Rightarrow> 'w watcher \<Rightarrow> (bool \<times> 'w watcher) option" where
  "finish_read buf useSwap backBuffer r w =
     (let c = aiocbs w r
      in if cb_readFull c then Some (cb_err c \<noteq> None \<or> cb_size c = int (len_of (cb_buffer c)), w)
         else if useSwap then
           (case slice_upto buf (cb_size c) of
              None \<Rightarrow> None
            | Some b \<Rightarrow> Some (True, (set_cb r (c\<lparr>cb_useSwap := True, cb_buffer := Some b\<rparr>) w)
                                     \<lparr>bufferOffset := bufferOffset w + cb_size c\<rparr>))
         else if backBuffer then Some (True, set_cb r (c\<lparr>cb_buffer := Some buf\<rparr>) w)
         else Some (True, w))"

definition tryRead :: "'w env \<Rightarrow> fd \<Rightarrow> aref \<Rightarrow> 'w watcher \<Rightarrow> (bool \<times> 'w watcher) option" where
  "tryRead E f r w =
     do {
       (buf, useSwap, backBuffer, w1) \<leftarrow> select_buffer r (yield E w);
       (a, w2) \<leftarrow> read_loop E f buf r w1;
       if a = WouldBlock then Some (False, w2) else finish_read buf useSwap backBuffer r w2
     }"

section \<open>Writing\<close>

definition write_once ::
  "'w env \<Rightarrow> fd \<Rightarrow> slice \<Rightarrow> aref \<Rightarrow> 'w watcher \<Rightarrow> (attempt \<times> 'w watcher) option" where
  "write_once E f buf r w =
     (case slice_from buf (cb_size (aiocbs w r)) of
        None \<Rightarrow> None
      | Some p \<Rightarrow>
          let ((nw, ew), world) = e_rawWrite E f (mem_read (mem w) p) (os w);
              c = (aiocbs w r)\<lparr>cb_err := map_option ErrSys ew\<rparr>;
              w1 = (set_cb r c w)\<lparr>os := world\<rparr>
          in if ew = Some EAGAIN then Some (WouldBlock, w1)
             else if ew = Some ENOBUFS then Some (WouldBlock, w1)
             else if ew = Some EINTR then Some (Retry, w1)
             else Some (Finished,
                    if ew = None then set_cb r (c\<lparr>cb_size := cb_size c + nw\<rparr>) w1 else w1))"

definition write_loop ::
  "'w env \<Rightarrow> fd \<Rightarrow> slice \<Rightarrow> aref \<Rightarrow> 'w watcher \<Rightarrow> (attempt \<times> 'w watcher) option" where
  "write_loop E f buf r = go_loop (\<lambda>w. retry_unless (write_once E f buf r w))"

text \<open>After the loop, \<open>pcb.err\<close> holds the error of the last call.\<close>

definition tryWrite :: "'w env \<Rightarrow> fd \<Rightarrow> aref \<Rightarrow> 'w watcher \<Rightarrow> (bool \<times> 'w watcher) option" where
  "tryWrite E f r w =
     (case cb_buffer (aiocbs w r) of
        None \<Rightarrow> Some (cb_size (aiocbs w r) = 0, w)
      | Some buf \<Rightarrow>
          do {
            (a, w1) \<leftarrow> write_loop E f buf r w;
            if a = WouldBlock then Some (False, w1)
            else Some (cb_size (aiocbs w1 r) = int (s_len buf) \<or> cb_err (aiocbs w1 r) \<noteq> None, w1)
          })"

section \<open>Delivery\<close>

definition leave_heap :: "aref \<Rightarrow> 'w watcher \<Rightarrow> 'w watcher option" where
  "leave_heap r w =
     (if cb_idx (aiocbs w r) \<noteq> -1 then
        (case timeouts_Remove (cb_idx (aiocbs w r)) (aiocbs w, timeouts w) of
           None \<Rightarrow> None
         | Some (_, (s, h)) \<Rightarrow> Some (w\<lparr>aiocbs := set_idx s r (-1), timeouts := h\<rparr>))
      else Some w)"

text \<open>
  One look at the \<open>select\<close>: the send is ready while the channel has room, the other case once the
  watcher is closed; with both ready the runtime chooses. The flag says whether a case was taken.
\<close>

definition send_once :: "'w env \<Rightarrow> aref \<Rightarrow> 'w watcher \<Rightarrow> bool \<times> 'w watcher" where
  "send_once E r w =
     (let w1 = yield E w;
          room = length (chResults w1) < resultsCap;
          sent = w1\<lparr>chResults := chResults w1 @ [r]\<rparr>
      in if die w1
         then let (b, world) = e_select E (os w1)
              in (True, (if room \<and> b then sent else w1)\<lparr>os := world\<rparr>)
         else if room then (True, sent)
         else (False, w1))"

definition send_loop :: "'w env \<Rightarrow> aref \<Rightarrow> 'w watcher \<Rightarrow> 'w watcher option" where
  "send_loop E r = go_loop (\<lambda>w. case send_once E r w of (taken, w1) \<Rightarrow> Some (if taken then Inr w1 else Inl w1))"

definition deliver :: "'w env \<Rightarrow> aref \<Rightarrow> 'w watcher \<Rightarrow> 'w watcher option" where
  "deliver E r w = do { w1 \<leftarrow> leave_heap r w; send_loop E r w1 }"

definition set_err :: "aref \<Rightarrow> gerr \<Rightarrow> 'w watcher \<Rightarrow> 'w watcher" where
  "set_err r e w = set_cb r ((aiocbs w r)\<lparr>cb_err := Some e\<rparr>) w"

section \<open>Releasing a connection\<close>

fun fail_all :: "'w env \<Rightarrow> element list \<Rightarrow> 'w watcher \<Rightarrow> 'w watcher option" where
  "fail_all E [] w = Some w"
| "fail_all E (e # es) w =
     do { w1 \<leftarrow> deliver E (el_Value e) (set_err (el_Value e) ErrClosedPipe w); fail_all E es w1 }"

definition unregister :: "'w env \<Rightarrow> fd \<Rightarrow> dref \<Rightarrow> 'w watcher \<Rightarrow> 'w watcher" where
  "unregister E ident d w =
     (set_desc d zero_fdDesc w)
       \<lparr>descs := (descs w)(ident := None),
        connIdents := (connIdents w)(fd_ptr (fdDescs w d) := None),
        fdDescPool := d # fdDescPool w,
        os := e_closeFd E ident (os w)\<rparr>"

definition releaseConn :: "'w env \<Rightarrow> fd \<Rightarrow> 'w watcher \<Rightarrow> 'w watcher option" where
  "releaseConn E ident w =
     (case descs w ident of
        None \<Rightarrow> Some w
      | Some d \<Rightarrow>
          do {
            w1 \<leftarrow> fail_all E (fd_readers (fdDescs w d)) w;
            w2 \<leftarrow> fail_all E (fd_writers (fdDescs w1 d)) w1;
            Some (unregister E ident d w2)
          })"

section \<open>Starting requests\<close>

definition fdDescPool_Get :: "'w env \<Rightarrow> 'w watcher \<Rightarrow> dref \<times> 'w watcher" where
  "fdDescPool_Get E w =
     (let (k, world) = e_pool E (os w); p = fdDescPool w; w1 = w\<lparr>os := world\<rparr>
      in if k < length p then (p ! k, w1\<lparr>fdDescPool := take k p @ drop (Suc k) p\<rparr>)
         else (next_desc w, w1\<lparr>next_desc := Suc (next_desc w)\<rparr>))"

text \<open>The watcher takes over the duplicate: close the original, make and index a record.\<close>

definition register :: "'w env \<Rightarrow> fd \<Rightarrow> aref \<Rightarrow> 'w watcher \<Rightarrow> dref \<times> 'w watcher" where
  "register E ident r w =
     (let c = aiocbs w r;
          (d, w1) = fdDescPool_Get E (w\<lparr>os := e_conn_Close E (cb_conn c) (os w)\<rparr>)
      in (d, (set_desc d \<lparr>fd_readers = [], fd_writers = [], fd_ptr = cb_ptr c\<rparr> w1)
               \<lparr>descs := (descs w1)(ident \<mapsto> d), connIdents := (connIdents w1)(cb_ptr c \<mapsto> ident)\<rparr>))"

definition enqueue :: "qside \<Rightarrow> dref \<Rightarrow> aref \<Rightarrow> 'w watcher \<Rightarrow> 'w watcher" where
  "enqueue s d r w =
     (set_cb r ((aiocbs w r)\<lparr>cb_l := Some (d, s), cb_elem := Some (next_elem w)\<rparr>)
        (set_desc d (with_queue s (list_PushBack (next_elem w) r) (fdDescs w d)) w))
       \<lparr>next_elem := Suc (next_elem w)\<rparr>"

text \<open>
  \<open>Time.Sub\<close> saturates at the range of a 64-bit duration. The timer is set to the point in time at
  which it will fire; the clock reading and the \<open>Reset\<close> computed from it are one instant.
\<close>

definition time_Sub :: "gtime \<Rightarrow> gtime \<Rightarrow> int" where
  "time_Sub t u = max (- (2 ^ 63)) (min (2 ^ 63 - 1) (t - u))"

definition timer_Reset :: "gtime \<Rightarrow> int \<Rightarrow> 'w watcher \<Rightarrow> 'w watcher" where
  "timer_Reset now d w = w\<lparr>timer := Some (now + d)\<rparr>"

definition track_deadline :: "'w env \<Rightarrow> aref \<Rightarrow> 'w watcher \<Rightarrow> 'w watcher" where
  "track_deadline E r w =
     (let dl = cb_deadline (aiocbs w r)
      in if IsZero dl then w
         else let (s, h) = timeouts_Push r (aiocbs w, timeouts w);
                  w1 = w\<lparr>aiocbs := s, timeouts := h\<rparr>
              in if 0 < length h \<and> h ! 0 = r
                 then let (now, world) = e_Now E (os w1)
                      in timer_Reset now (time_Sub dl now) (w1\<lparr>os := world\<rparr>)
                 else w1)"

definition start_op :: "'w env \<Rightarrow> fd \<Rightarrow> dref \<Rightarrow> aref \<Rightarrow> 'w watcher \<Rightarrow> 'w watcher option" where
  "start_op E ident d r w =
     (case cb_op (aiocbs w r) of
        OpRead \<Rightarrow>
          if fd_readers (fdDescs w d) = [] then
            do {
              (fin, w1) \<leftarrow> tryRead E ident r w;
              if fin then deliver E r w1 else Some (track_deadline E r (enqueue Reader d r w1))
            }
          else Some (track_deadline E r (enqueue Reader d r w))
      | OpWrite \<Rightarrow>
          if fd_writers (fdDescs w d) = [] then
            do {
              (fin, w1) \<leftarrow> tryWrite E ident r w;
              if fin then deliver E r w1 else Some (track_deadline E r (enqueue Writer d r w1))
            }
          else Some (track_deadline E r (enqueue Writer d r w))
      | opDelete \<Rightarrow> Some (track_deadline E r w))"

definition handle_request :: "'w env \<Rightarrow> aref \<Rightarrow> 'w watcher \<Rightarrow> 'w watcher option" where
  "handle_request E r w =
     (let c = aiocbs w r
      in case connIdents w (cb_ptr c) of
           Some ident \<Rightarrow>
             if cb_op c = opDelete then releaseConn E ident w
             else (case descs w ident of None \<Rightarrow> None | Some d \<Rightarrow> start_op E ident d r w)
         | None \<Rightarrow>
             let ((dupfd, err), world) = e_dupconn E (cb_conn c) (os w); w1 = w\<lparr>os := world\<rparr>
             in case err of
                  Some e \<Rightarrow> deliver E r (set_err r e w1)
                | None \<Rightarrow>
                    let (werr, world2) = e_Watch E dupfd (os w1); w2 = w1\<lparr>os := world2\<rparr>
                    in case werr of
                         Some e \<Rightarrow> deliver E r (set_err r e (w2\<lparr>os := e_closeFd E dupfd (os w2)\<rparr>))
                       | None \<Rightarrow> (case register E dupfd r w2 of (d, w3) \<Rightarrow> start_op E dupfd d r w3))"

fun handlePending :: "'w env \<Rightarrow> aref list \<Rightarrow> 'w watcher \<Rightarrow> 'w watcher option" where
  "handlePending E [] w = Some w"
| "handlePending E (r # rs) w = do { w1 \<leftarrow> handle_request E r w; handlePending E rs w1 }"

section \<open>Readiness events\<close>

text \<open>
  The Go loops take the next element before the body runs and nothing else changes the list
  meanwhile, so they visit the elements that were there at the start.
\<close>

definition dequeue :: "qside \<Rightarrow> dref \<Rightarrow> eref \<Rightarrow> 'w watcher \<Rightarrow> 'w watcher" where
  "dequeue s d e w = set_desc d (with_queue s (list_Remove e) (fdDescs w d)) w"

fun retry_reads :: "'w env \<Rightarrow> fd \<Rightarrow> dref \<Rightarrow> element list \<Rightarrow> 'w watcher \<Rightarrow> 'w watcher option" where
  "retry_reads E ident d [] w = Some w"
| "retry_reads E ident d (x # xs) w =
     do {
       (fin, w1) \<leftarrow> tryRead E ident (el_Value x) w;
       if fin
       then do { w2 \<leftarrow> deliver E (el_Value x) (dequeue Reader d (el_id x) w1); retry_reads E ident d xs w2 }
       else Some w1
     }"

fun retry_writes :: "'w env \<Rightarrow> fd \<Rightarrow> dref \<Rightarrow> element list \<Rightarrow> 'w watcher \<Rightarrow> 'w watcher option" where
  "retry_writes E ident d [] w = Some w"
| "retry_writes E ident d (x # xs) w =
     do {
       (fin, w1) \<leftarrow> tryWrite E ident (el_Value x) w;
       if fin
       then do { w2 \<leftarrow> deliver E (el_Value x) (dequeue Writer d (el_id x) w1); retry_writes E ident d xs w2 }
       else Some w1
     }"

definition handle_event :: "'w env \<Rightarrow> event \<Rightarrow> 'w watcher \<Rightarrow> 'w watcher option" where
  "handle_event E e w =
     (case descs w (ev_ident e) of
        None \<Rightarrow> Some w
      | Some d \<Rightarrow>
          do {
            w1 \<leftarrow> (if and (ev_ev e) EV_READ \<noteq> 0 \<and> fd_readers (fdDescs w d) \<noteq> []
                   then retry_reads E (ev_ident e) d (fd_readers (fdDescs w d)) w else Some w);
            (if and (ev_ev e) EV_WRITE \<noteq> 0 \<and> fd_writers (fdDescs w1 d) \<noteq> []
             then retry_writes E (ev_ident e) d (fd_writers (fdDescs w1 d)) w1 else Some w1)
          })"

fun handleEvents :: "'w env \<Rightarrow> pollerEvents \<Rightarrow> 'w watcher \<Rightarrow> 'w watcher option" where
  "handleEvents E [] w = Some w"
| "handleEvents E (e # es) w = do { w1 \<leftarrow> handle_event E e w; handleEvents E es w1 }"

section \<open>Deadlines\<close>

text \<open>One iteration of the timer loop; the flag says whether the loop goes on.\<close>

definition expire_once :: "'w env \<Rightarrow> gtime \<Rightarrow> 'w watcher \<Rightarrow> (bool \<times> 'w watcher) option" where
  "expire_once E now w =
     (case timeouts w of
        [] \<Rightarrow> Some (False, w)
      | r # _ \<Rightarrow>
          let c = aiocbs w r
          in if cb_idx c = -1 then
               (case timeouts_Pop (aiocbs w, timeouts w) of
                  None \<Rightarrow> None
                | Some (_, (s, h)) \<Rightarrow> Some (True, w\<lparr>aiocbs := s, timeouts := h\<rparr>))
             else if cb_deadline c < now then
               let w1 = set_err r ErrDeadline w;
                   w2 = (case (cb_l c, cb_elem c) of
                           (Some (d, s), Some e) \<Rightarrow> dequeue s d e w1
                         | _ \<Rightarrow> w1)
               in (case timeouts_Pop (aiocbs w2, timeouts w2) of
                     None \<Rightarrow> None
                   | Some (_, (s, h)) \<Rightarrow>
                       do { w3 \<leftarrow> deliver E r (w2\<lparr>aiocbs := set_idx s r (-1), timeouts := h\<rparr>); Some (True, w3) })
             else Some (False, timer_Reset now (time_Sub (cb_deadline c) now) w))"

definition expire_loop :: "'w env \<Rightarrow> gtime \<Rightarrow> 'w watcher \<Rightarrow> 'w watcher option" where
  "expire_loop E now =
     go_loop (\<lambda>w. map_option (\<lambda>(more, w1). if more then Inl w1 else Inr w1) (expire_once E now w))"

definition handleTimer :: "'w env \<Rightarrow> 'w watcher \<Rightarrow> 'w watcher option" where
  "handleTimer E w = (let (now, world) = e_Now E (os w) in expire_loop E now (w\<lparr>os := world\<rparr>))"

section \<open>Finalized connections\<close>

fun release_conns :: "'w env \<Rightarrow> uintptr list \<Rightarrow> 'w watcher \<Rightarrow> 'w watcher option" where
  "release_conns E [] w = Some w"
| "release_conns E (c # cs) w =
     do {
       w1 \<leftarrow> (case connIdents w c of Some ident \<Rightarrow> releaseConn E ident w | None \<Rightarrow> Some w);
       release_conns E cs w1
     }"

definition handleGC :: "'w env \<Rightarrow> 'w watcher \<Rightarrow> 'w watcher option" where
  "handleGC E w =
     do {
       w1 \<leftarrow> release_conns E (gc w) (w\<lparr>gcLocked := True\<rparr>);
       Some (w1\<lparr>gcClosed := gcClosed w1 + of_nat (length (gc w1)), gc := [], gcLocked := False\<rparr>)
     }"

section \<open>The loop\<close>

definition loop_pending :: "'w env \<Rightarrow> 'w watcher \<Rightarrow> 'w watcher option" where
  "loop_pending E w =
     do {
       w1 \<leftarrow> handlePending E (pendingCreate w) (w\<lparr>pendingCreate := [], pendingProcessing := pendingCreate w\<rparr>);
       Some (w1\<lparr>pendingProcessing := []\<rparr>)
     }"

fun release_all :: "'w env \<Rightarrow> fd list \<Rightarrow> 'w watcher \<Rightarrow> 'w watcher option" where
  "release_all E [] w = Some w"
| "release_all E (i # is) w = do { w1 \<leftarrow> releaseConn E i w; release_all E is w1 }"

text \<open>
  One iteration of the deferred drain of the result channel: the next request is cleared, with the array
  inside it, or the channel is empty and the drain is over.
\<close>

definition drain_once :: "'w env \<Rightarrow> 'w watcher \<Rightarrow> 'w watcher + 'w watcher" where
  "drain_once E w =
     (let w1 = yield E w
      in case chResults w1 of
           [] \<Rightarrow> Inr w1
         | r # rest \<Rightarrow> Inl ((set_cb r zero_aiocb w1)
             \<lparr>mem := (mem w1)(Back r := replicate backBufferSize 0), chResults := rest\<rparr>))"

definition drain_loop :: "'w env \<Rightarrow> 'w watcher \<Rightarrow> 'w watcher option" where
  "drain_loop E = go_loop (\<lambda>w. Some (drain_once E w))"

text \<open>
  The deferred function. Go visits a map in no fixed order: \<open>order\<close> lists the keys as they come.
\<close>

definition loop_exit :: "'w env \<Rightarrow> fd list \<Rightarrow> 'w watcher \<Rightarrow> 'w watcher option" where
  "loop_exit E order w =
     do {
       w1 \<leftarrow> release_all E order w;
       w2 \<leftarrow> drain_loop E w1;
       Some (w2\<lparr>pendingCreate := [], pendingProcessing := [], loopDone := True\<rparr>)
     }"

text \<open>
  One step of the system: other goroutines run, or one turn of the loop with the case of its
  \<open>select\<close> that was ready. After the events of a signal the loop acknowledges it to the poller or,
  when the watcher is closed, may end. A poller error and a closed watcher end the loop.
\<close>

inductive loop_step :: "'w env \<Rightarrow> 'w watcher \<Rightarrow> 'w watcher \<Rightarrow> bool" for E where
  other: "loop_step E w (yield E w)"
| pending: "\<not> loopDone w \<Longrightarrow> chPendingNotify w \<Longrightarrow>
    loop_pending E (w\<lparr>chPendingNotify := False\<rparr>) = Some w' \<Longrightarrow> loop_step E w w'"
| signal: "\<not> loopDone w \<Longrightarrow> chSignal w = Some s \<Longrightarrow> sig_err s = None \<Longrightarrow>
    handleEvents E (sig_events s) (w\<lparr>chSignal := None\<rparr>) = Some w' \<Longrightarrow> loop_step E w (w'\<lparr>sigDone := True\<rparr>)"
| signal_closed: "\<not> loopDone w \<Longrightarrow> chSignal w = Some s \<Longrightarrow> sig_err s = None \<Longrightarrow>
    handleEvents E (sig_events s) (w\<lparr>chSignal := None\<rparr>) = Some w1 \<Longrightarrow> die w1 \<Longrightarrow>
    set order = dom (descs w1) \<Longrightarrow> distinct order \<Longrightarrow> loop_exit E order w1 = Some w' \<Longrightarrow> loop_step E w w'"
| signal_error: "\<not> loopDone w \<Longrightarrow> chSignal w = Some s \<Longrightarrow> sig_err s = Some e \<Longrightarrow>
    snd (stop E (w\<lparr>chSignal := None, pollerErr := Some e\<rparr>)) = w1 \<Longrightarrow> set order = dom (descs w1) \<Longrightarrow> distinct order \<Longrightarrow>
    loop_exit E order w1 = Some w' \<Longrightarrow> loop_step E w w'"
| timeout: "\<not> loopDone w \<Longrightarrow> timerC w \<Longrightarrow>
    handleTimer E (w\<lparr>timerC := False\<rparr>) = Some w' \<Longrightarrow> loop_step E w w'"
| collect: "\<not> loopDone w \<Longrightarrow> gcNotify w \<Longrightarrow> handleGC E (w\<lparr>gcNotify := False\<rparr>) = Some w' \<Longrightarrow> loop_step E w w'"
| affinity: "\<not> loopDone w \<Longrightarrow> loop_step E w (w\<lparr>os := e_setAffinity E cpuid (os w)\<rparr>)"
| closed: "\<not> loopDone w \<Longrightarrow> die w \<Longrightarrow> set order = dom (descs w) \<Longrightarrow> distinct order \<Longrightarrow>
    loop_exit E order w = Some w' \<Longrightarrow> loop_step E w w'"

text \<open>The states of a watcher from its construction on.\<close>

inductive reachable :: "'w env \<Rightarrow> 'w watcher \<Rightarrow> bool" for E where
  new: "NewWatcherSize E n m world = Inr w \<Longrightarrow> reachable E w"
| step: "reachable E w \<Longrightarrow> loop_step E w w' \<Longrightarrow> reachable E w'"

end
