(* ===== verification/Ownership.thy ===== *)
theory Ownership
  imports Watcher_Loop
begin

text \<open>
  Where a request is. Every request handed out by the pool is at one place: in the submission slice,
  in the hands of the loop, in one queue of one registered descriptor, in \<open>chResults\<close>, among the
  results of the current batch, or back in the pool. The predicate \<open>own\<close> states this together with
  what ties the registration maps, the queues' back pointers and the deadline heap to it; this
  theory shows that the elementary operations of the watcher keep it.

  \<open>own H Q w\<close> is relative to the requests \<open>H\<close> the loop holds and to the queues \<open>Q\<close> as they
  count for ownership: while \<open>releaseConn\<close> delivers the requests of a queue one by one, they are
  still linked in the list although they have been handed over.
\<close>

section \<open>The predicate\<close>

type_synonym queues = "dref \<Rightarrow> qside \<Rightarrow> element list"

definition qs :: "'w watcher \<Rightarrow> queues" where
  "qs w = (\<lambda>d s. queue_of s (fdDescs w d))"

definition qset :: "queues \<Rightarrow> aref set" where
  "qset Q = {r. \<exists>d s x. x \<in> set (Q d s) \<and> el_Value x = r}"

definition side_op :: "qside \<Rightarrow> OpType" where
  "side_op s = (case s of Reader \<Rightarrow> OpRead | Writer \<Rightarrow> OpWrite)"

definition locs :: "'w watcher \<Rightarrow> aref list" where
  "locs w = pendingCreate w @ chResults w @ recycles w @ aiocbPool w"

definition own_locs :: "aref list \<Rightarrow> queues \<Rightarrow> 'w watcher \<Rightarrow> bool" where
  "own_locs H Q w \<longleftrightarrow> distinct (H @ locs w) \<and> set (H @ locs w) \<inter> qset Q = {}
     \<and> (\<forall>r \<in> set (H @ locs w) \<union> qset Q. r < next_cb w)
     \<and> (\<not> die w \<longrightarrow> (\<forall>r < next_cb w. r \<in> set (H @ locs w) \<union> qset Q \<or> cb_op (aiocbs w r) = opDelete))"

definition own_queue :: "queues \<Rightarrow> 'w watcher \<Rightarrow> bool" where
  "own_queue Q w \<longleftrightarrow>
     (\<forall>d s x. x \<in> set (Q d s) \<longrightarrow> d \<in> ran (descs w) \<and> el_id x < next_elem w
        \<and> cb_l (aiocbs w (el_Value x)) = Some (d, s) \<and> cb_elem (aiocbs w (el_Value x)) = Some (el_id x)
        \<and> cb_op (aiocbs w (el_Value x)) = side_op s
        \<and> cb_ptr (aiocbs w (el_Value x)) = fd_ptr (fdDescs w d))
     \<and> (\<forall>d s. distinct (map el_id (Q d s)))"

definition own_regs :: "('w \<Rightarrow> fd set) \<Rightarrow> 'w watcher \<Rightarrow> bool" where
  "own_regs owned w \<longleftrightarrow>
     (\<forall>f d. descs w f = Some d \<longrightarrow> connIdents w (fd_ptr (fdDescs w d)) = Some f
        \<and> d < next_desc w \<and> d \<notin> set (fdDescPool w) \<and> f \<in> owned (os w))
     \<and> (\<forall>p f. connIdents w p = Some f \<longrightarrow> (\<exists>d. descs w f = Some d \<and> fd_ptr (fdDescs w d) = p))
     \<and> distinct (fdDescPool w) \<and> (\<forall>d \<in> set (fdDescPool w). d < next_desc w)"

definition own_heap :: "aref list \<Rightarrow> queues \<Rightarrow> 'w watcher \<Rightarrow> bool" where
  "own_heap H Q w \<longleftrightarrow> timed_ok (aiocbs w, timeouts w) \<and> set (timeouts w) \<subseteq> set H \<union> qset Q
     \<and> (\<forall>r \<in> set H \<union> set (pendingCreate w) \<union> qset Q. r \<in> set (timeouts w) \<longleftrightarrow> cb_idx (aiocbs w r) \<noteq> -1)
     \<and> (\<forall>r \<in> qset Q. cb_idx (aiocbs w r) \<noteq> -1 \<longleftrightarrow> \<not> IsZero (cb_deadline (aiocbs w r)))
     \<and> (\<forall>r \<in> set H \<union> set (pendingCreate w). cb_op (aiocbs w r) = opDelete \<longrightarrow> IsZero (cb_deadline (aiocbs w r)))"

definition own :: "('w \<Rightarrow> fd set) \<Rightarrow> aref list \<Rightarrow> queues \<Rightarrow> 'w watcher \<Rightarrow> bool" where
  "own owned H Q w \<longleftrightarrow> own_locs H Q w \<and> own_queue Q w \<and> own_regs owned w \<and> own_heap H Q w"

lemmas own_defs = own_def own_locs_def own_queue_def own_regs_def own_heap_def

section \<open>What the operating system promises\<close>

text \<open>
  \<open>owned\<close> is the set of descriptors that \<open>dupconn\<close> returned and \<open>closeFd\<close> has not closed. A
  duplicate is a descriptor that is not open; only \<open>closeFd\<close> closes one.
\<close>

definition os_ok :: "'w env \<Rightarrow> ('w \<Rightarrow> fd set) \<Rightarrow> bool" where
  "os_ok E owned \<longleftrightarrow>
     (\<forall>c w f w'. e_dupconn E c w = ((f, None), w') \<longrightarrow> f \<notin> owned w \<and> owned w' = insert f (owned w))
     \<and> (\<forall>c w f e w'. e_dupconn E c w = ((f, Some e), w') \<longrightarrow> owned w' = owned w)
     \<and> (\<forall>f w. owned (e_closeFd E f w) \<subseteq> owned w \<and> (f \<in> owned w \<longrightarrow> owned (e_closeFd E f w) = owned w - {f}))
     \<and> (\<forall>c w. owned (e_conn_Close E c w) = owned w)
     \<and> (\<forall>f n w x w'. e_rawRead E f n w = (x, w') \<longrightarrow> owned w' = owned w)
     \<and> (\<forall>f bs w x w'. e_rawWrite E f bs w = (x, w') \<longrightarrow> owned w' = owned w)
     \<and> (\<forall>f w x w'. e_Watch E f w = (x, w') \<longrightarrow> owned w' = owned w)
     \<and> (\<forall>w x w'. e_pfd_Close E w = (x, w') \<longrightarrow> owned w' = owned w)
     \<and> (\<forall>c w. owned (e_setAffinity E c w) = owned w)
     \<and> (\<forall>w x w'. e_Now E w = (x, w') \<longrightarrow> owned w' = owned w)
     \<and> (\<forall>w x w'. e_sched E w = (x, w') \<longrightarrow> owned w' = owned w)
     \<and> (\<forall>w x w'. e_select E w = (x, w') \<longrightarrow> owned w' = owned w)
     \<and> (\<forall>w x w'. e_pool E w = (x, w') \<longrightarrow> owned w' = owned w)"

lemma os_okD:
  assumes "os_ok E owned"
  shows "e_dupconn E c w = ((f, None), w') \<Longrightarrow> f \<notin> owned w"
    "e_dupconn E c w = ((f, None), w') \<Longrightarrow> owned w' = insert f (owned w)"
    "e_dupconn E c w = ((f, Some e), w') \<Longrightarrow> owned w' = owned w"
    "f \<in> owned w \<Longrightarrow> owned (e_closeFd E f w) = owned w - {f}"
    "owned (e_conn_Close E c w) = owned w"
    "e_rawRead E f n w = (x, w') \<Longrightarrow> owned w' = owned w"
    "e_rawWrite E f bs w = (y, w') \<Longrightarrow> owned w' = owned w"
    "e_Watch E f w = (z, w') \<Longrightarrow> owned w' = owned w"
    "e_pfd_Close E w = (z, w') \<Longrightarrow> owned w' = owned w"
    "owned (e_setAffinity E i w) = owned w"
    "e_Now E w = (t, w') \<Longrightarrow> owned w' = owned w"
    "e_sched E w = (acts, w') \<Longrightarrow> owned w' = owned w"
    "e_select E w = (b, w') \<Longrightarrow> owned w' = owned w"
    "e_pool E w = (k, w') \<Longrightarrow> owned w' = owned w"
    "owned (e_closeFd E f w) \<subseteq> owned w - {f}"
proof -
  show "e_dupconn E c w = ((f, None), w') \<Longrightarrow> f \<notin> owned w"
    by (use assms [unfolded os_ok_def, THEN conjunct1] in blast)
  show "e_dupconn E c w = ((f, None), w') \<Longrightarrow> owned w' = insert f (owned w)"
    by (use assms [unfolded os_ok_def, THEN conjunct1] in blast)
  show "e_dupconn E c w = ((f, Some e), w') \<Longrightarrow> owned w' = owned w"
    by (use assms [unfolded os_ok_def, THEN conjunct2, THEN conjunct1] in blast)
  note cl = assms [unfolded os_ok_def, THEN conjunct2, THEN conjunct2, THEN conjunct1, THEN spec, THEN spec, of f w]
  show "f \<in> owned w \<Longrightarrow> owned (e_closeFd E f w) = owned w - {f}" using cl by simp
  show "owned (e_closeFd E f w) \<subseteq> owned w - {f}" using cl by auto
  show "owned (e_conn_Close E c w) = owned w"
    by (use assms [unfolded os_ok_def, THEN conjunct2, THEN conjunct2, THEN conjunct2, THEN conjunct1] in simp)
  show "e_rawRead E f n w = (x, w') \<Longrightarrow> owned w' = owned w"
    by (use assms [unfolded os_ok_def, THEN conjunct2, THEN conjunct2, THEN conjunct2, THEN conjunct2, THEN conjunct1] in blast)
  show "e_rawWrite E f bs w = (y, w') \<Longrightarrow> owned w' = owned w"
    by (use assms [unfolded os_ok_def, THEN conjunct2, THEN conjunct2, THEN conjunct2, THEN conjunct2, THEN conjunct2, THEN conjunct1] in blast)
  show "e_Watch E f w = (z, w') \<Longrightarrow> owned w' = owned w"
    by (use assms [unfolded os_ok_def, THEN conjunct2, THEN conjunct2, THEN conjunct2, THEN conjunct2, THEN conjunct2, THEN conjunct2, THEN conjunct1] in blast)
  show "e_pfd_Close E w = (z, w') \<Longrightarrow> owned w' = owned w"
    by (use assms [unfolded os_ok_def, THEN conjunct2, THEN conjunct2, THEN conjunct2, THEN conjunct2, THEN conjunct2, THEN conjunct2, THEN conjunct2, THEN conjunct1] in blast)
  show "owned (e_setAffinity E i w) = owned w"
    by (use assms [unfolded os_ok_def, THEN conjunct2, THEN conjunct2, THEN conjunct2, THEN conjunct2, THEN conjunct2, THEN conjunct2, THEN conjunct2, THEN conjunct2, THEN conjunct1] in simp)
  show "e_Now E w = (t, w') \<Longrightarrow> owned w' = owned w"
    by (use assms [unfolded os_ok_def, THEN conjunct2, THEN conjunct2, THEN conjunct2, THEN conjunct2, THEN conjunct2, THEN conjunct2, THEN conjunct2, THEN conjunct2, THEN conjunct2, THEN conjunct1] in blast)
  show "e_sched E w = (acts, w') \<Longrightarrow> owned w' = owned w"
    by (use assms [unfolded os_ok_def, THEN conjunct2, THEN conjunct2, THEN conjunct2, THEN conjunct2, THEN conjunct2, THEN conjunct2, THEN conjunct2, THEN conjunct2, THEN conjunct2, THEN conjunct2, THEN conjunct1] in blast)
  show "e_select E w = (b, w') \<Longrightarrow> owned w' = owned w"
    by (use assms [unfolded os_ok_def, THEN conjunct2, THEN conjunct2, THEN conjunct2, THEN conjunct2, THEN conjunct2, THEN conjunct2, THEN conjunct2, THEN conjunct2, THEN conjunct2, THEN conjunct2, THEN conjunct2, THEN conjunct1] in blast)
  show "e_pool E w = (k, w') \<Longrightarrow> owned w' = owned w"
    by (use assms [unfolded os_ok_def, THEN conjunct2, THEN conjunct2, THEN conjunct2, THEN conjunct2, THEN conjunct2, THEN conjunct2, THEN conjunct2, THEN conjunct2, THEN conjunct2, THEN conjunct2, THEN conjunct2, THEN conjunct2] in blast)
qed

section \<open>Changing a request\<close>

text \<open>The fields ownership depends on.\<close>

definition same_meta :: "aiocb \<Rightarrow> aiocb \<Rightarrow> bool" where
  "same_meta a b \<longleftrightarrow> cb_l a = cb_l b \<and> cb_elem a = cb_elem b \<and> cb_op a = cb_op b \<and> cb_ptr a = cb_ptr b
     \<and> cb_idx a = cb_idx b \<and> cb_deadline a = cb_deadline b"

lemma timed_ok_cong:
  assumes "\<And>r. r \<in> set h \<Longrightarrow> cb_idx (s' r) = cb_idx (s r) \<and> cb_deadline (s' r) = cb_deadline (s r)"
  shows "timed_ok (s', h) = timed_ok (s, h)"
proof -
  have "cb_idx (s' (h ! i)) = cb_idx (s (h ! i)) \<and> deadline_of (s', h) (h ! i) = deadline_of (s, h) (h ! i)"
    if "i < length h" for i
    using assms that by (simp add: deadline_of_def)
  moreover from this have "edge (deadline_of (s', h)) h c = edge (deadline_of (s, h)) h c"
    if "0 < c" "c < length h" for c
    using that par_less [of c] by (simp add: edge_def)
  ultimately show ?thesis
    by (auto simp: timed_ok_def idx_ok_def heap_ordered_def ordered_upto_def)
qed

lemma own_set_cb:
  assumes "own owned H Q w" and "same_meta c (aiocbs w r)"
  shows "own owned H Q (set_cb r c w)"
proof -
  have m: "same_meta (((aiocbs w)(r := c)) q) (aiocbs w q)" for q
    using assms(2) by (simp add: same_meta_def)
  have "timed_ok ((aiocbs w)(r := c), timeouts w) = timed_ok (aiocbs w, timeouts w)"
    by (rule timed_ok_cong) (use m in \<open>simp add: same_meta_def\<close>)
  with assms m show ?thesis
    unfolding own_defs set_cb_def locs_def same_meta_def by (simp del: fun_upd_apply)
qed

text \<open>A request at none of the loop's places can be overwritten freely.\<close>

lemma own_set_cb_out:
  assumes "own owned H Q w" and "r \<in> set (chResults w @ recycles w @ aiocbPool w)"
  shows "own owned H Q (set_cb r c w)"
proof -
  have out: "r \<notin> set H \<union> set (pendingCreate w) \<union> qset Q"
    using assms by (auto simp: own_def own_locs_def locs_def)
  have h: "set (timeouts w) \<subseteq> set H \<union> qset Q" using assms(1) by (simp add: own_defs)
  have t: "timed_ok ((aiocbs w)(r := c), timeouts w) = timed_ok (aiocbs w, timeouts w)"
    by (rule timed_ok_cong) (use out h in auto)
  have q: "el_Value x \<noteq> r" if "x \<in> set (Q d s)" for d s x
    using that out by (auto simp: qset_def)
  have "own_locs H Q (set_cb r c w)"
    using assms by (auto simp: own_def own_locs_def set_cb_def locs_def)
  moreover have "own_queue Q (set_cb r c w)"
    using assms(1) q by (simp add: own_def own_queue_def set_cb_def)
  moreover have "own_regs owned (set_cb r c w)"
    using assms(1) by (simp add: own_def own_regs_def set_cb_def)
  moreover have "own_heap H Q (set_cb r c w)"
    using assms(1) out t by (simp add: own_def own_heap_def set_cb_def)
  ultimately show ?thesis by (simp add: own_def)
qed

text \<open>Fields that do not matter.\<close>

lemma own_irrelevant [simp]:
  "own owned H Q (w\<lparr>mem := m\<rparr>) = own owned H Q w"
  "own owned H Q (w\<lparr>chSignal := x1\<rparr>) = own owned H Q w"
  "own owned H Q (w\<lparr>sigDone := x2\<rparr>) = own owned H Q w"
  "own owned H Q (w\<lparr>chPendingNotify := x3\<rparr>) = own owned H Q w"
  "own owned H Q (w\<lparr>pendingProcessing := x4\<rparr>) = own owned H Q w"
  "own owned H Q (w\<lparr>bufferOffset := x5\<rparr>) = own owned H Q w"
  "own owned H Q (w\<lparr>shouldSwap := x6\<rparr>) = own owned H Q w"
  "own owned H Q (w\<lparr>results := x7\<rparr>) = own owned H Q w"
  "own owned H Q (w\<lparr>timer := x8\<rparr>) = own owned H Q w"
  "own owned H Q (w\<lparr>timerC := x9\<rparr>) = own owned H Q w"
  "own owned H Q (w\<lparr>gc := y1\<rparr>) = own owned H Q w"
  "own owned H Q (w\<lparr>gcLocked := y2\<rparr>) = own owned H Q w"
  "own owned H Q (w\<lparr>gcNotify := y3\<rparr>) = own owned H Q w"
  "own owned H Q (w\<lparr>gcFound := y4\<rparr>) = own owned H Q w"
  "own owned H Q (w\<lparr>gcClosed := y5\<rparr>) = own owned H Q w"
  "own owned H Q (w\<lparr>loopDone := y6\<rparr>) = own owned H Q w"
  "own owned H Q (w\<lparr>pollerErr := y7\<rparr>) = own owned H Q w"
  "own owned H Q (w\<lparr>wphase := y8\<rparr>) = own owned H Q w"
  "own owned H Q (w\<lparr>swapBufferFront := z1\<rparr>) = own owned H Q w"
  "own owned H Q (w\<lparr>swapBufferMiddle := z2\<rparr>) = own owned H Q w"
  "own owned H Q (w\<lparr>swapBufferBack := z3\<rparr>) = own owned H Q w"
  by (simp_all add: own_defs locs_def)

lemma own_os: "own owned H Q w \<Longrightarrow> owned (os w) \<subseteq> owned world \<Longrightarrow> own owned H Q (w\<lparr>os := world\<rparr>)"
  using subsetD [of "owned (os w)" "owned world"]
  unfolding own_def own_locs_def own_queue_def own_regs_def own_heap_def locs_def by simp

lemma own_set_desc:
  assumes "own owned H Q w" and "fd_ptr x = fd_ptr (fdDescs w d)"
  shows "own owned H Q (set_desc d x w)"
proof -
  have "fd_ptr (((fdDescs w)(d := x)) e) = fd_ptr (fdDescs w e)" for e
    using assms(2) by simp
  with assms(1) show ?thesis
    by (simp add: own_defs locs_def set_desc_def del: fun_upd_apply)
qed

lemma own_die: "own owned H Q w \<Longrightarrow> own owned H Q (w\<lparr>die := True\<rparr>)"
  by (simp add: own_defs locs_def)

section \<open>Actions of other goroutines\<close>

text \<open>Filling a request from the pool and putting it into the submission slice.\<close>

lemma own_create:
  assumes own: "own owned H Q w" and new: "cb_idx c = -1" "cb_op c = opDelete \<longrightarrow> IsZero (cb_deadline c)"
    and src: "r \<in> set (aiocbPool w) \<or> r = next_cb w"
  shows "own owned H Q (w\<lparr>aiocbs := (aiocbs w)(r := c), next_cb := max (next_cb w) (Suc r),
            aiocbPool := remove1 r (aiocbPool w), pendingCreate := pendingCreate w @ [r]\<rparr>)"
    and "own owned H Q (w\<lparr>aiocbs := (aiocbs w)(r := c), next_cb := max (next_cb w) (Suc r),
            aiocbPool := r # remove1 r (aiocbPool w)\<rparr>)"
proof -
  have lt: "\<forall>q \<in> set (H @ locs w) \<union> qset Q. q < next_cb w" and d: "distinct (H @ locs w)"
    and dis: "set (H @ locs w) \<inter> qset Q = {}"
    using own by (auto simp: own_def own_locs_def)
  have out: "r \<notin> set H \<union> set (pendingCreate w) \<union> set (chResults w) \<union> set (recycles w) \<union> qset Q"
    using src lt d dis by (auto simp: locs_def)
  have le: "r \<le> next_cb w" using src lt by (auto simp: locs_def less_imp_le)
  have h: "set (timeouts w) \<subseteq> set H \<union> qset Q" using own by (simp add: own_defs)
  have t: "timed_ok ((aiocbs w)(r := c), timeouts w) = timed_ok (aiocbs w, timeouts w)"
    by (rule timed_ok_cong) (use out h in auto)
  have q: "el_Value x \<noteq> r" if "x \<in> set (Q e s)" for e s x
    using that out by (auto simp: qset_def)
  have rt: "r \<notin> set (timeouts w)" using out h by auto
  have dp: "distinct (aiocbPool w)" using d by (simp add: locs_def)
  have rest: "own_queue Q (w\<lparr>aiocbs := (aiocbs w)(r := c), next_cb := n, aiocbPool := p, pendingCreate := pc\<rparr>)"
    "own_regs owned (w\<lparr>aiocbs := (aiocbs w)(r := c), next_cb := n, aiocbPool := p, pendingCreate := pc\<rparr>)" for n p pc
    using own q by (simp_all add: own_def own_queue_def own_regs_def)
  have heap: "own_heap H Q (w\<lparr>aiocbs := (aiocbs w)(r := c), next_cb := n, aiocbPool := p, pendingCreate := pc\<rparr>)"
    if "set pc \<subseteq> insert r (set (pendingCreate w))" for n p pc
    using own out t rt new that by (auto simp: own_def own_heap_def)
  have lost: "\<not> die w \<Longrightarrow> q < max (next_cb w) (Suc r) \<Longrightarrow> q \<noteq> r \<Longrightarrow>
      q \<in> set (H @ locs w) \<union> qset Q \<or> cb_op (aiocbs w q) = opDelete" for q
    using own le by (simp add: own_def own_locs_def less_max_iff_disj less_Suc_eq) (metis le_neq_implies_less less_trans)
  have locs1: "own_locs H Q (w\<lparr>aiocbs := (aiocbs w)(r := c), next_cb := max (next_cb w) (Suc r),
            aiocbPool := p, pendingCreate := pc\<rparr>)"
    if "distinct (H @ pc @ chResults w @ recycles w @ p)"
      and set: "set (H @ pc @ chResults w @ recycles w @ p) = insert r (set (H @ locs w))" for p pc
  proof -
    have "\<forall>q \<in> insert r (set (H @ locs w)) \<union> qset Q. q < max (next_cb w) (Suc r)"
      using lt by (auto simp: less_max_iff_disj)
    moreover have "insert r (set (H @ locs w)) \<inter> qset Q = {}" using dis out by auto
    ultimately show ?thesis
      using that(1) lost unfolding own_locs_def locs_def [of "w\<lparr>aiocbs := _, next_cb := _, aiocbPool := _, pendingCreate := _\<rparr>"]
      by (simp add: set [simplified])
  qed
  have d1: "distinct (H @ (pendingCreate w @ [r]) @ chResults w @ recycles w @ remove1 r (aiocbPool w))"
    and d2: "distinct (H @ pendingCreate w @ chResults w @ recycles w @ r # remove1 r (aiocbPool w))"
    using d out dp by (auto simp: locs_def set_remove1_eq)
  have s1: "set (H @ (pendingCreate w @ [r]) @ chResults w @ recycles w @ remove1 r (aiocbPool w)) = insert r (set (H @ locs w))"
    and s2: "set (H @ pendingCreate w @ chResults w @ recycles w @ r # remove1 r (aiocbPool w)) = insert r (set (H @ locs w))"
    using dp by (auto simp: locs_def set_remove1_eq)
  show "own owned H Q (w\<lparr>aiocbs := (aiocbs w)(r := c), next_cb := max (next_cb w) (Suc r),
            aiocbPool := remove1 r (aiocbPool w), pendingCreate := pendingCreate w @ [r]\<rparr>)"
    using locs1 [OF d1 s1] rest heap by (simp add: own_def)
  have "own owned H Q (w\<lparr>aiocbs := (aiocbs w)(r := c), next_cb := max (next_cb w) (Suc r),
            aiocbPool := r # remove1 r (aiocbPool w), pendingCreate := pendingCreate w\<rparr>)"
    using locs1 [OF d2 s2] rest heap [of "pendingCreate w"] unfolding own_def by blast
  then show "own owned H Q (w\<lparr>aiocbs := (aiocbs w)(r := c), next_cb := max (next_cb w) (Suc r),
            aiocbPool := r # remove1 r (aiocbPool w)\<rparr>)"
    by simp
qed

lemma own_aioCreate:
  assumes "own owned H Q w" and "os_ok E owned" and "oper = opDelete \<longrightarrow> IsZero dl"
  shows "own owned H Q (snd (aioCreate E cx oper conn buf dl full w))"
proof (cases "conn = None \<or> conn = Some 0")
  case False
  then obtain ptr where p: "conn = Some ptr" "ptr \<noteq> 0" by auto
  obtain k world where k: "e_pool E (os w) = (k, world)" by fastforce
  let ?c = "new_aiocb cx oper ptr buf dl full"
  let ?r = "if k < length (aiocbPool w) then aiocbPool w ! k else next_cb w"
  let ?w1 = "w\<lparr>os := world, mem := (mem w)(Back ?r := replicate backBufferSize 0)\<rparr>"
  have d: "distinct (aiocbPool w)" and lt: "\<forall>q \<in> set (aiocbPool w). q < next_cb w"
    using assms(1) by (auto simp: own_def own_locs_def locs_def)
  have own1: "own owned H Q ?w1"
    using own_os [OF assms(1)] os_okD(14) [OF assms(2) k] by simp
  have c: "cb_idx ?c = -1" "cb_op ?c = opDelete \<longrightarrow> IsZero (cb_deadline ?c)"
    using assms(3) by (simp_all add: new_aiocb_def zero_aiocb_def)
  have src: "?r \<in> set (aiocbPool ?w1) \<or> ?r = next_cb ?w1" by simp
  have nx: "max (next_cb w) (Suc ?r) = (if k < length (aiocbPool w) then next_cb w else Suc (next_cb w))"
    using lt by (simp add: Suc_leI max_absorb1)
  have pool: "remove1 ?r (aiocbPool w) =
      (if k < length (aiocbPool w) then take k (aiocbPool w) @ drop (Suc k) (aiocbPool w) else aiocbPool w)"
    using d lt by (auto simp: remove1_nth_take_drop remove1_idem)
  have "snd (aioCreate E cx oper conn buf dl full w) =
      (let w2 = ?w1\<lparr>aiocbs := (aiocbs ?w1)(?r := ?c), next_cb := max (next_cb ?w1) (Suc ?r)\<rparr>
       in if die w then w2\<lparr>aiocbPool := ?r # remove1 ?r (aiocbPool ?w1)\<rparr>
          else notifyPending (w2\<lparr>aiocbPool := remove1 ?r (aiocbPool ?w1), pendingCreate := pendingCreate ?w1 @ [?r]\<rparr>))"
    using p k nx pool
    by (auto simp: aioCreate_def aiocbPool_Get_def aiocbPool_Put_def set_cb_def Let_def notifyPending_def)
  with own_create [OF own1 c src] show ?thesis
    by (simp add: Let_def notifyPending_def)
qed (auto simp: aioCreate_def assms)

lemma fold_Put: "fold aiocbPool_Put rs w = w\<lparr>aiocbPool := rev rs @ aiocbPool w\<rparr>"
  by (induction rs arbitrary: w) (simp_all add: aiocbPool_Put_def)

lemma own_WaitIO_enter: "own owned H Q w \<Longrightarrow> own owned H Q (WaitIO_enter w)"
  unfolding WaitIO_enter_def fold_Put own_defs locs_def by auto

lemma own_WaitIO_recv:
  assumes "own owned H Q w"
  shows "own owned H Q (WaitIO_recv w)"
proof (cases "chResults w")
  case (Cons r rest)
  let ?c = "(aiocbs w r)\<lparr>cb_ctx := None, cb_conn := None\<rparr>"
  have "own owned H Q (set_cb r ?c w)"
    by (rule own_set_cb) (simp_all add: assms same_meta_def)
  then have "own owned H Q ((set_cb r ?c w)\<lparr>chResults := rest, recycles := recycles w @ [r]\<rparr>)"
    unfolding own_defs locs_def set_cb_def by (auto simp: Cons)
  then show ?thesis by (simp add: WaitIO_recv_def Cons own_defs locs_def)
qed (simp add: WaitIO_recv_def assms)

lemma own_stop: "own owned H Q w \<Longrightarrow> os_ok E owned \<Longrightarrow> own owned H Q (snd (stop E w))"
  by (auto simp: stop_def split: prod.splits dest: os_okD(9) intro!: own_os own_die)

lemma own_exec_act [inv_intros]:
  assumes "own owned H Q w" and "os_ok E owned"
  shows "own owned H Q (exec_act E a w)"
  by (cases a)
    (use assms in \<open>auto simp: Read_def ReadTimeout_def ReadFull_def Write_def WriteTimeout_def Free_def
      own_aioCreate own_WaitIO_enter own_WaitIO_recv own_stop WaitIO_more_def WaitIO_drained_def WaitIO_notify_def
      notifyShouldSwap_def conn_finalizer_def\<close>)

lemma own_run_acts:
  "own owned H Q w \<Longrightarrow> os_ok E owned \<Longrightarrow> own owned H Q (run_acts E acts w)"
  unfolding run_acts_def by (induction acts arbitrary: w) (simp_all add: own_exec_act)

lemma own_yield [inv_intros]:
  assumes "own owned H Q w" and "os_ok E owned"
  shows "own owned H Q (yield E w)"
proof -
  obtain acts world where s: "e_sched E (os w) = (acts, world)" by fastforce
  with assms own_run_acts [OF own_os [OF assms(1)] assms(2)] os_okD(12) [OF assms(2) s] show ?thesis
    by (simp add: yield_def)
qed

section \<open>What other goroutines leave alone\<close>

text \<open>The part of the state that only the loop writes.\<close>

definition loop_view :: "'w watcher \<Rightarrow> (dref \<Rightarrow> fdDesc) \<times> (fd \<Rightarrow> dref option) \<times> (uintptr \<Rightarrow> fd option)
    \<times> aref list \<times> dref \<times> dref list \<times> eref \<times> slice \<times> slice \<times> slice \<times> int \<times> nat \<times> bool" where
  "loop_view w = (fdDescs w, descs w, connIdents w, timeouts w, next_desc w, fdDescPool w, next_elem w,
     swapBufferFront w, swapBufferMiddle w, swapBufferBack w, bufferOffset w, swapSize w, gcLocked w)"

lemma loop_view_exec_act: "loop_view (exec_act E a w) = loop_view w"
  by (cases a)
    (auto simp: loop_view_def Read_def ReadTimeout_def ReadFull_def Write_def WriteTimeout_def Free_def
      aioCreate_def aiocbPool_Get_def aiocbPool_Put_def set_cb_def notifyPending_def Let_def
      WaitIO_enter_def fold_Put WaitIO_recv_def WaitIO_more_def WaitIO_drained_def WaitIO_notify_def notifyShouldSwap_def
      stop_def conn_finalizer_def split: option.splits prod.splits list.splits)

lemma loop_view_yield: "loop_view (yield E w) = loop_view w"
proof -
  have "loop_view (run_acts E acts w) = loop_view w" for acts and w :: "'a watcher"
    unfolding run_acts_def by (induction acts arbitrary: w) (simp_all add: loop_view_exec_act)
  then show ?thesis by (simp add: yield_def loop_view_def split: prod.splits)
qed

lemma loop_viewD:
  assumes "loop_view w' = loop_view w"
  shows "fdDescs w' = fdDescs w" "descs w' = descs w" "connIdents w' = connIdents w"
    "timeouts w' = timeouts w" "next_desc w' = next_desc w" "fdDescPool w' = fdDescPool w"
    "next_elem w' = next_elem w" "swapBufferFront w' = swapBufferFront w"
    "swapBufferMiddle w' = swapBufferMiddle w" "swapBufferBack w' = swapBufferBack w"
    "bufferOffset w' = bufferOffset w" "swapSize w' = swapSize w" "gcLocked w' = gcLocked w"
  using assms by (simp_all add: loop_view_def)

lemmas yield_frame [simp] = loop_viewD [OF loop_view_yield]

text \<open>A closed watcher stays closed.\<close>

lemma exec_act_die: "die w \<Longrightarrow> die (exec_act E a w)"
  by (cases a)
    (auto simp: Read_def ReadTimeout_def ReadFull_def Write_def WriteTimeout_def Free_def
      aioCreate_def aiocbPool_Get_def aiocbPool_Put_def set_cb_def notifyPending_def Let_def
      WaitIO_enter_def fold_Put WaitIO_recv_def WaitIO_more_def WaitIO_drained_def WaitIO_notify_def notifyShouldSwap_def
      stop_def conn_finalizer_def split: option.splits prod.splits list.splits)

lemma yield_die: "die w \<Longrightarrow> die (yield E w)"
proof -
  have "die w \<Longrightarrow> die (run_acts E acts w)" for acts and w :: "'a watcher"
    unfolding run_acts_def by (induction acts arbitrary: w) (simp_all add: exec_act_die)
  then show "die w \<Longrightarrow> die (yield E w)" by (simp add: yield_def split: prod.splits)
qed

text \<open>Nor do they write the requests that the loop holds or has queued.\<close>

lemma aioCreate_keeps:
  assumes "own owned H Q w" and "r \<in> set H \<union> set (pendingCreate w) \<union> qset Q"
  shows "aiocbs (snd (aioCreate E cx oper conn buf dl full w)) r = aiocbs w r"
proof -
  have "r \<notin> set (aiocbPool w)" "r \<noteq> next_cb w"
    using assms by (auto simp: own_def own_locs_def locs_def)
  then have "aiocbPool w ! k \<noteq> r" if "k < length (aiocbPool w)" for k
    using that nth_mem by blast
  with \<open>r \<noteq> next_cb w\<close> show ?thesis
    by (auto simp: aioCreate_def aiocbPool_Get_def aiocbPool_Put_def set_cb_def notifyPending_def Let_def
        split: option.splits prod.splits)
qed

lemma exec_act_keeps:
  assumes "own owned H Q w" and "r \<in> set H \<union> qset Q"
  shows "aiocbs (exec_act E a w) r = aiocbs w r"
proof -
  have "r \<notin> set (chResults w)" using assms by (auto simp: own_def own_locs_def locs_def)
  then have "aiocbs (WaitIO_recv w) r = aiocbs w r"
    by (auto simp: WaitIO_recv_def set_cb_def split: list.splits)
  with aioCreate_keeps [OF assms(1), of r] assms(2) show ?thesis
    by (cases a) (auto simp: Read_def ReadTimeout_def ReadFull_def Write_def WriteTimeout_def Free_def
      WaitIO_enter_def fold_Put WaitIO_more_def WaitIO_drained_def WaitIO_notify_def notifyShouldSwap_def
      stop_def conn_finalizer_def split: prod.splits)
qed

lemma yield_keeps:
  assumes "own owned H Q w" and "os_ok E owned" and "r \<in> set H \<union> qset Q"
  shows "aiocbs (yield E w) r = aiocbs w r"
proof -
  have run: "aiocbs (run_acts E acts w) r = aiocbs w r" if "own owned H Q w" for acts w
    using that unfolding run_acts_def
  proof (induction acts arbitrary: w)
    case (Cons a acts)
    with exec_act_keeps [OF Cons.prems assms(3)] own_exec_act [OF Cons.prems assms(2)] show ?case by simp
  qed simp
  obtain acts world where s: "e_sched E (os w) = (acts, world)" by fastforce
  then have "own owned H Q (w\<lparr>os := world\<rparr>)"
    using assms(1,2) by (auto intro: own_os dest: os_okD(12))
  from run [OF this] s show ?thesis by (simp add: yield_def)
qed

end
