(* ===== verification/Ownership_Ops.thy ===== *)
theory Ownership_Ops
  imports Ownership
begin

text \<open>
  The operations of the loop and ownership: each moves a request from one place to another and keeps
  \<open>own\<close>. The loop's handlers are composed of these moves.
\<close>

section \<open>Attempts\<close>

lemma select_buffer_state:
  "select_buffer r w = Some (buf, us, bb, w1) \<Longrightarrow> w1 = w \<or> w1 = rotate_buffers w"
  by (auto simp: select_buffer_def Let_def split: option.splits if_splits)

lemma select_buffer_own:
  assumes "select_buffer r w = Some (buf, us, bb, w1)"
  shows "own owned H Q w1 = own owned H Q w" and "aiocbs w1 = aiocbs w" and "os w1 = os w"
    and "fdDescs w1 = fdDescs w" and "descs w1 = descs w" and "connIdents w1 = connIdents w"
    and "gcLocked w1 = gcLocked w" and "die w1 = die w"
  using select_buffer_state [OF assms] by (auto simp: rotate_buffers_def)

text \<open>What an attempt may change: fields of the request that ownership does not use, memory, the
  world, and the state of the shared buffers.\<close>

definition attempt_frame :: "aref \<Rightarrow> 'w watcher \<Rightarrow> 'w watcher \<Rightarrow> bool" where
  "attempt_frame r w w' \<longleftrightarrow> (\<forall>q. q \<noteq> r \<longrightarrow> aiocbs w' q = aiocbs w q) \<and> same_meta (aiocbs w' r) (aiocbs w r)
     \<and> fdDescs w' = fdDescs w \<and> descs w' = descs w \<and> connIdents w' = connIdents w \<and> timeouts w' = timeouts w
     \<and> next_elem w' = next_elem w \<and> gcLocked w' = gcLocked w \<and> gc w' = gc w \<and> die w' = die w"

lemma attempt_frame_refl [simp]: "attempt_frame r w w"
  by (simp add: attempt_frame_def same_meta_def)

lemma attempt_frame_trans:
  "attempt_frame r u v \<Longrightarrow> attempt_frame r v w \<Longrightarrow> attempt_frame r u w"
  by (simp add: attempt_frame_def same_meta_def)

lemma read_once_own:
  assumes "read_once E f buf r w = Some (a, w1)" and "own owned H Q w" and "os_ok E owned"
  shows "own owned H Q w1" and "attempt_frame r w w1"
proof -
  obtain p where p: "slice_from buf (cb_size (aiocbs w r)) = Some p"
    using assms(1) by (auto simp: read_once_def split: option.splits)
  obtain nr er bs world where rr: "e_rawRead E f (s_len p) (os w) = ((nr, er, bs), world)"
    by (metis prod.exhaust)
  let ?w0 = "w\<lparr>os := world, mem := mem_write (mem w) p bs\<rparr>"
  let ?c = "(aiocbs w r)\<lparr>cb_size := (if er = None then cb_size (aiocbs w r) + nr else cb_size (aiocbs w r)),
     cb_err := (if nr = 0 \<and> er = None then Some EOF else map_option ErrSys er)\<rparr>"
  have w1: "w1 = ?w0 \<or> w1 = set_cb r ?c ?w0"
    using assms(1) p rr by (auto simp: read_once_def Let_def split: if_splits)
  have o: "own owned H Q ?w0"
    using own_os [OF assms(2)] os_okD(6) [OF assms(3) rr] by simp
  have m: "same_meta ?c (aiocbs ?w0 r)" by (simp add: same_meta_def)
  show "own owned H Q w1" using w1 o own_set_cb [OF o m] by blast
  show "attempt_frame r w w1" using w1 by (auto simp: attempt_frame_def same_meta_def set_cb_def)
qed

lemma retry_unless_cases:
  "retry_unless x = Some (Inl w) \<longleftrightarrow> x = Some (Retry, w)"
  "retry_unless x = Some (Inr (a, w)) \<longleftrightarrow> x = Some (a, w) \<and> a \<noteq> Retry"
  by (auto simp: retry_unless_def split: if_splits)

lemma retry_loop_inv:
  assumes ret: "go_loop (\<lambda>w. retry_unless (body w)) w = Some (a, w')" and "I w"
    and keep: "\<And>w a w1. body w = Some (a, w1) \<Longrightarrow> I w \<Longrightarrow> I w1"
  shows "I w'"
proof -
  have "I (snd (a, w'))"
    by (rule go_loop_inv [where I = I and P = "\<lambda>x. I (snd x)", OF ret])
      (use assms(2) keep in \<open>auto simp: retry_unless_cases\<close>)
  then show ?thesis by simp
qed

lemma read_loop_own:
  assumes "read_loop E f buf r w = Some (a, w')" and "own owned H Q w" and "os_ok E owned"
  shows "own owned H Q w' \<and> attempt_frame r w w'"
proof (rule retry_loop_inv [where body = "read_once E f buf r" and I = "\<lambda>v. own owned H Q v \<and> attempt_frame r w v"])
  show "go_loop (\<lambda>w. retry_unless (read_once E f buf r w)) w = Some (a, w')"
    using assms(1) by (simp add: read_loop_def)
  show "own owned H Q w \<and> attempt_frame r w w" using assms(2) by simp
next
  fix v a w1 assume "read_once E f buf r v = Some (a, w1)" "own owned H Q v \<and> attempt_frame r w v"
  then show "own owned H Q w1 \<and> attempt_frame r w w1"
    using read_once_own [of E f buf r v a w1] assms(3) attempt_frame_trans by blast
qed

lemma write_once_own:
  assumes "write_once E f buf r w = Some (a, w1)" and "own owned H Q w" and "os_ok E owned"
  shows "own owned H Q w1" and "attempt_frame r w w1"
proof -
  obtain p where p: "slice_from buf (cb_size (aiocbs w r)) = Some p"
    using assms(1) by (auto simp: write_once_def split: option.splits)
  obtain nw ew world where rr: "e_rawWrite E f (mem_read (mem w) p) (os w) = ((nw, ew), world)"
    by (metis prod.exhaust)
  let ?c = "(aiocbs w r)\<lparr>cb_err := map_option ErrSys ew\<rparr>"
  let ?w0 = "(set_cb r ?c w)\<lparr>os := world\<rparr>"
  let ?c1 = "?c\<lparr>cb_size := cb_size ?c + nw\<rparr>"
  have w1: "w1 = ?w0 \<or> w1 = set_cb r ?c1 ?w0"
    using assms(1) p rr by (auto simp: write_once_def Let_def split: if_splits)
  have m: "same_meta ?c (aiocbs w r)" "same_meta ?c1 (aiocbs ?w0 r)" by (simp_all add: same_meta_def)
  have o: "own owned H Q ?w0"
    using own_os [OF own_set_cb [OF assms(2) m(1)]] os_okD(7) [OF assms(3) rr] by (simp add: set_cb_def)
  show "own owned H Q w1" using w1 o own_set_cb [OF o m(2)] by blast
  show "attempt_frame r w w1" using w1 by (auto simp: attempt_frame_def same_meta_def set_cb_def)
qed

lemma write_loop_own:
  assumes "write_loop E f buf r w = Some (a, w')" and "own owned H Q w" and "os_ok E owned"
  shows "own owned H Q w' \<and> attempt_frame r w w'"
proof (rule retry_loop_inv [where body = "write_once E f buf r" and I = "\<lambda>v. own owned H Q v \<and> attempt_frame r w v"])
  show "go_loop (\<lambda>w. retry_unless (write_once E f buf r w)) w = Some (a, w')"
    using assms(1) by (simp add: write_loop_def)
  show "own owned H Q w \<and> attempt_frame r w w" using assms(2) by simp
next
  fix v a w1 assume "write_once E f buf r v = Some (a, w1)" "own owned H Q v \<and> attempt_frame r w v"
  then show "own owned H Q w1 \<and> attempt_frame r w w1"
    using write_once_own [of E f buf r v a w1] assms(3) attempt_frame_trans by blast
qed

text \<open>
  A request that the loop holds or has queued stays what it is through an attempt, up to the fields
  ownership does not use.
\<close>

definition meta_kept :: "aref set \<Rightarrow> 'w watcher \<Rightarrow> 'w watcher \<Rightarrow> bool" where
  "meta_kept R w w' \<longleftrightarrow> (\<forall>q \<in> R. same_meta (aiocbs w' q) (aiocbs w q))"

definition links_kept :: "'w watcher \<Rightarrow> 'w watcher \<Rightarrow> bool" where
  "links_kept w w' \<longleftrightarrow> fdDescs w' = fdDescs w \<and> descs w' = descs w \<and> connIdents w' = connIdents w
     \<and> gcLocked w' = gcLocked w \<and> (die w \<longrightarrow> die w')"

lemma links_kept_trans: "links_kept u v \<Longrightarrow> links_kept v w \<Longrightarrow> links_kept u w"
  by (simp add: links_kept_def)

lemma meta_kept_trans: "meta_kept R u v \<Longrightarrow> meta_kept R v w \<Longrightarrow> meta_kept R u w"
  by (simp add: meta_kept_def same_meta_def)

lemma attempt_frame_kept: "attempt_frame r w w' \<Longrightarrow> meta_kept R w w' \<and> links_kept w w'"
  by (auto simp: attempt_frame_def meta_kept_def links_kept_def same_meta_def)

lemma yield_kept:
  assumes "own owned H Q w" and "os_ok E owned"
  shows "meta_kept (set H \<union> qset Q) w (yield E w)" and "links_kept w (yield E w)"
  using yield_keeps [OF assms] yield_die by (auto simp: meta_kept_def links_kept_def same_meta_def)

lemma finish_read_own:
  assumes "finish_read buf us bb r w = Some (fin, w')" and "own owned H Q w"
  shows "own owned H Q w'" and "attempt_frame r w w'"
proof -
  obtain c o1 where w': "w' = w \<or> w' = (set_cb r c w)\<lparr>bufferOffset := o1\<rparr> \<or> w' = set_cb r c w"
    and m: "same_meta c (aiocbs w r)"
  proof (cases "us \<and> \<not> cb_readFull (aiocbs w r)")
    case True
    with assms(1) obtain b where "w' = (set_cb r ((aiocbs w r)\<lparr>cb_useSwap := True, cb_buffer := Some b\<rparr>) w)
        \<lparr>bufferOffset := bufferOffset w + cb_size (aiocbs w r)\<rparr>"
      by (auto simp: finish_read_def Let_def split: option.splits)
    then show ?thesis using that by (fastforce simp: same_meta_def)
  next
    case False
    with assms(1) have "w' = w \<or> w' = set_cb r ((aiocbs w r)\<lparr>cb_buffer := Some buf\<rparr>) w"
      by (auto simp: finish_read_def Let_def split: if_splits)
    then show ?thesis using that by (fastforce simp: same_meta_def)
  qed
  show "own owned H Q w'" using w' own_set_cb [OF assms(2) m] assms(2) by auto
  show "attempt_frame r w w'" using w' m by (auto simp: attempt_frame_def set_cb_def same_meta_def)
qed

lemma tryRead_own [inv_intros]:
  assumes "tryRead E f r w = Some (fin, w')" and "own owned H Q w" and "os_ok E owned"
  shows "own owned H Q w'" and "meta_kept (set H \<union> qset Q) w w'" and "links_kept w w'"
proof -
  let ?y = "yield E w"
  from assms(1) obtain buf us bb w1 a w2 where sb: "select_buffer r ?y = Some (buf, us, bb, w1)"
    and rl: "read_loop E f buf r w1 = Some (a, w2)"
    and rest: "(if a = WouldBlock then Some (False, w2) else finish_read buf us bb r w2) = Some (fin, w')"
    by (auto simp: tryRead_def elim!: bind_SomeE)
  have o1: "own owned H Q w1" using select_buffer_own(1) [OF sb] own_yield [OF assms(2,3)] by simp
  from read_loop_own [OF rl o1 assms(3)] have o2: "own owned H Q w2" and f2: "attempt_frame r w1 w2" by simp_all
  have o3: "own owned H Q w'" and f3: "attempt_frame r w2 w'"
    using rest o2 finish_read_own [of buf us bb r w2 fin w'] by (auto split: if_splits)
  have k1: "meta_kept (set H \<union> qset Q) ?y w1" "links_kept ?y w1"
    using select_buffer_own(2,4-8) [OF sb] by (auto simp: meta_kept_def links_kept_def same_meta_def)
  note k2 = attempt_frame_kept [OF attempt_frame_trans [OF f2 f3]]
  show "own owned H Q w'" by (rule o3)
  show "meta_kept (set H \<union> qset Q) w w'"
    using yield_kept(1) [OF assms(2,3)] k1(1) k2 meta_kept_trans by blast
  show "links_kept w w'"
    using yield_kept(2) [OF assms(2,3)] k1(2) k2 links_kept_trans by blast
qed

lemma tryWrite_own [inv_intros]:
  assumes "tryWrite E f r w = Some (fin, w')" and "own owned H Q w" and "os_ok E owned"
  shows "own owned H Q w'" and "meta_kept (set H \<union> qset Q) w w'" and "links_kept w w'"
proof -
  have "own owned H Q w' \<and> attempt_frame r w w'"
  proof (cases "cb_buffer (aiocbs w r)")
    case None
    with assms show ?thesis by (simp add: tryWrite_def)
  next
    case (Some buf)
    with assms(1) obtain a where "write_loop E f buf r w = Some (a, w')"
      by (auto simp: tryWrite_def elim!: bind_SomeE split: if_splits)
    then show ?thesis by (rule write_loop_own) (use assms in auto)
  qed
  then show "own owned H Q w'" "meta_kept (set H \<union> qset Q) w w'" "links_kept w w'"
    using attempt_frame_kept by blast+
qed

section \<open>Delivery\<close>

lemma own_heap_leave:
  assumes ow: "own owned (r # H) Q w" and ok: "timed_ok (s, h)" and fr: "idx_frame (set (timeouts w)) (aiocbs w) s"
    and set: "set h = set (timeouts w) - {r}" and r: "r \<in> set (timeouts w)"
  shows "own owned (r # H) Q (w\<lparr>aiocbs := set_idx s r (-1), timeouts := h\<rparr>)"
proof -
  have nq: "r \<notin> qset Q" "r \<notin> set H" "r \<notin> set (pendingCreate w)"
    using ow by (auto simp: own_def own_locs_def locs_def)
  have t: "timed_ok (set_idx s r (-1), h) = timed_ok (s, h)"
    by (rule timed_ok_cong) (use set in \<open>auto simp: set_idx_def\<close>)
  have f: "cb_l (set_idx s r (-1) q) = cb_l (aiocbs w q)" "cb_elem (set_idx s r (-1) q) = cb_elem (aiocbs w q)"
    "cb_op (set_idx s r (-1) q) = cb_op (aiocbs w q)" "cb_ptr (set_idx s r (-1) q) = cb_ptr (aiocbs w q)"
    "cb_deadline (set_idx s r (-1) q) = cb_deadline (aiocbs w q)" for q
    using no_idx_fields [of "set_idx s r (-1) q" "aiocbs w q"] fr by (simp_all add: idx_frame_def)
  have i: "cb_idx (s q) = -1 \<longleftrightarrow> cb_idx (aiocbs w q) = -1" if "q \<in> set H \<union> set (pendingCreate w) \<union> qset Q" for q
  proof (cases "q \<in> set (timeouts w)")
    case True
    then have "q \<in> set h" using set nq that by auto
    then have "cb_idx (s q) \<noteq> -1"
      using ok by (auto simp: timed_ok_def idx_ok_def in_set_conv_nth)
    moreover have "cb_idx (aiocbs w q) \<noteq> -1" using True ow that by (auto simp: own_def own_heap_def)
    ultimately show ?thesis by simp
  qed (use idx_frame_out [OF fr] in simp)
  have i': "cb_idx (set_idx s r (-1) q) = -1 \<longleftrightarrow> q = r \<or> cb_idx (aiocbs w q) = -1"
    if "q \<in> set (r # H) \<union> set (pendingCreate w) \<union> qset Q" for q
    using i [of q] that by (auto simp: set_idx_def)
  have hp: "set (timeouts w) \<subseteq> set (r # H) \<union> qset Q"
    "q \<in> set (r # H) \<union> set (pendingCreate w) \<union> qset Q \<Longrightarrow> q \<in> set (timeouts w) \<longleftrightarrow> cb_idx (aiocbs w q) \<noteq> -1"
    "q \<in> qset Q \<Longrightarrow> cb_idx (aiocbs w q) \<noteq> -1 \<longleftrightarrow> \<not> IsZero (cb_deadline (aiocbs w q))"
    "q \<in> set (r # H) \<union> set (pendingCreate w) \<Longrightarrow> cb_op (aiocbs w q) = opDelete \<Longrightarrow> IsZero (cb_deadline (aiocbs w q))" for q
    using ow unfolding own_def own_heap_def by blast+
  have "own_heap (r # H) Q (w\<lparr>aiocbs := set_idx s r (-1), timeouts := h\<rparr>)"
    unfolding own_heap_def
  proof (intro conjI ballI)
    show "timed_ok (aiocbs (w\<lparr>aiocbs := set_idx s r (-1), timeouts := h\<rparr>), timeouts (w\<lparr>aiocbs := set_idx s r (-1), timeouts := h\<rparr>))"
      using t ok by simp
    show "set (timeouts (w\<lparr>aiocbs := set_idx s r (-1), timeouts := h\<rparr>)) \<subseteq> set (r # H) \<union> qset Q"
      using set hp(1) by auto
  next
    fix q assume "q \<in> set (r # H) \<union> set (pendingCreate (w\<lparr>aiocbs := set_idx s r (-1), timeouts := h\<rparr>)) \<union> qset Q"
    then have q: "q \<in> set (r # H) \<union> set (pendingCreate w) \<union> qset Q" by simp
    show "q \<in> set (timeouts (w\<lparr>aiocbs := set_idx s r (-1), timeouts := h\<rparr>))
        \<longleftrightarrow> cb_idx (aiocbs (w\<lparr>aiocbs := set_idx s r (-1), timeouts := h\<rparr>) q) \<noteq> -1"
      using i' [OF q] hp(2) [OF q] set by auto
  next
    fix q assume q: "q \<in> qset Q"
    then have "q \<in> set (r # H) \<union> set (pendingCreate w) \<union> qset Q" "q \<noteq> r" using nq by auto
    with i' [of q] hp(3) [OF q] f(5) [of q]
    show "cb_idx (aiocbs (w\<lparr>aiocbs := set_idx s r (-1), timeouts := h\<rparr>) q) \<noteq> -1
        \<longleftrightarrow> \<not> IsZero (cb_deadline (aiocbs (w\<lparr>aiocbs := set_idx s r (-1), timeouts := h\<rparr>) q))" by simp
  qed (use hp(4) f in simp)
  moreover have "own_locs (r # H) Q (w\<lparr>aiocbs := set_idx s r (-1), timeouts := h\<rparr>)"
    using ow by (simp add: own_def own_locs_def locs_def f)
  moreover have "own_queue Q (w\<lparr>aiocbs := set_idx s r (-1), timeouts := h\<rparr>)"
    using ow by (simp add: own_def own_queue_def f)
  ultimately show ?thesis using ow by (simp add: own_def own_regs_def)
qed

lemma leave_heap_own:
  assumes ow: "own owned (r # H) Q w"
  obtains w1 where "leave_heap r w = Some w1" and "own owned (r # H) Q w1"
    and "cb_idx (aiocbs w1 r) = -1" and "\<And>q. no_idx (aiocbs w1 q) = no_idx (aiocbs w q)"
    and "loop_view (w1\<lparr>timeouts := timeouts w\<rparr>) = loop_view w" and "links_kept w w1"
    and "set (timeouts w1) = set (timeouts w) - {r}"
proof (cases "cb_idx (aiocbs w r) = -1")
  case True
  then have "r \<notin> set (timeouts w)" using ow by (auto simp: own_def own_heap_def)
  with that [of w] True ow show ?thesis by (simp add: leave_heap_def links_kept_def loop_view_def)
next
  case False
  have r: "r \<in> set (timeouts w)" and ok: "timed_ok (aiocbs w, timeouts w)"
    using ow False by (auto simp: own_def own_heap_def)
  obtain g where g: "timeouts_Remove (cb_idx (aiocbs w r)) (aiocbs w, timeouts w) = Some (r, g)"
    "timed_ok g" "mset (snd g) = mset (timeouts w) - {#r#}"
    by (rule timeouts_Remove_ok [OF ok, of r]) (simp_all add: r)
  then obtain s h where rm: "timeouts_Remove (cb_idx (aiocbs w r)) (aiocbs w, timeouts w) = Some (r, (s, h))"
    and ok': "timed_ok (s, h)" and ms: "mset h = mset (timeouts w) - {#r#}"
    by (cases g) simp
  have fr: "idx_frame (set (timeouts w)) (aiocbs w) s" using timeouts_Remove_frame [OF rm] by simp
  have set: "set h = set (timeouts w) - {r}" using timed_ok_set [OF ok ok'] ms by simp
  let ?w1 = "w\<lparr>aiocbs := set_idx s r (-1), timeouts := h\<rparr>"
  have "leave_heap r w = Some ?w1" using False rm by (simp add: leave_heap_def)
  moreover have "no_idx (aiocbs ?w1 q) = no_idx (aiocbs w q)" for q
    using fr by (simp add: idx_frame_def)
  ultimately show ?thesis
    using that [of ?w1] own_heap_leave [OF ow ok' fr set r] set by (simp add: links_kept_def loop_view_def)
qed

text \<open>A completed request leaves the hands of the loop; nothing else the loop owns changes.\<close>

lemma own_send:
  assumes "own owned (r # H) Q w" and "cb_idx (aiocbs w r) = -1"
  shows "own owned H Q (w\<lparr>chResults := chResults w @ [r]\<rparr>)" and "die w \<Longrightarrow> own owned H Q w"
proof -
  have "r \<notin> set (timeouts w)" using assms by (auto simp: own_def own_heap_def)
  then have h: "own_heap H Q w" using assms(1) by (auto simp: own_def own_heap_def)
  have "own_locs H Q (w\<lparr>chResults := chResults w @ [r]\<rparr>)"
    using assms(1) by (auto simp: own_def own_locs_def locs_def)
  with h assms(1) show "own owned H Q (w\<lparr>chResults := chResults w @ [r]\<rparr>)"
    by (simp add: own_def own_heap_def own_queue_def own_regs_def)
  assume "die w"
  then have "own_locs H Q w" using assms(1) by (auto simp: own_def own_locs_def)
  with h assms(1) show "own owned H Q w" by (simp add: own_def)
qed

definition kept :: "aref set \<Rightarrow> 'w watcher \<Rightarrow> 'w watcher \<Rightarrow> bool" where
  "kept R w w' \<longleftrightarrow> (\<forall>q \<in> R. aiocbs w' q = aiocbs w q) \<and> loop_view w' = loop_view w \<and> (die w \<longrightarrow> die w')"

lemma kept_trans: "kept R u v \<Longrightarrow> kept R v w \<Longrightarrow> kept R u w"
  by (simp add: kept_def)

lemma send_once_own:
  assumes "send_once E r w = (b, w1)" and ow: "own owned (r # H) Q w" and "cb_idx (aiocbs w r) = -1"
    and os: "os_ok E owned"
  shows "if b then own owned H Q w1 else own owned (r # H) Q w1" and "kept (set (r # H) \<union> qset Q) w w1"
proof -
  let ?y = "yield E w"
  have y: "own owned (r # H) Q ?y" using ow os by (rule own_yield)
  have k: "kept (set (r # H) \<union> qset Q) w ?y"
    using yield_keeps [OF ow os] by (simp add: kept_def loop_view_yield yield_die)
  then have i: "cb_idx (aiocbs ?y r) = -1" using assms(3) by (simp add: kept_def)
  obtain b' world where sel: "e_select E (os ?y) = (b', world)" by fastforce
  have ow': "owned world = owned (os ?y)" using os_okD(13) [OF os sel] .
  note s = own_send [OF y i]
  show "if b then own owned H Q w1 else own owned (r # H) Q w1"
    using assms(1) s y sel own_os [OF s(1)] own_os [OF s(2)] ow'
    by (auto simp: send_once_def Let_def split: if_splits)
  show "kept (set (r # H) \<union> qset Q) w w1"
    using assms(1) k sel by (auto simp: send_once_def Let_def kept_def loop_view_def split: if_splits)
qed

lemma send_loop_own:
  assumes ret: "send_loop E r w = Some w'" and ow: "own owned (r # H) Q w" and i: "cb_idx (aiocbs w r) = -1"
    and os: "os_ok E owned"
  shows "own owned H Q w' \<and> kept (set (r # H) \<union> qset Q) w w'"
proof (rule go_loop_inv [OF ret [unfolded send_loop_def],
      where I = "\<lambda>v. own owned (r # H) Q v \<and> kept (set (r # H) \<union> qset Q) w v"])
  show "own owned (r # H) Q w \<and> kept (set (r # H) \<union> qset Q) w w" using ow by (simp add: kept_def)
next
  fix v w1 assume I: "own owned (r # H) Q v \<and> kept (set (r # H) \<union> qset Q) w v"
    and "(case send_once E r v of (taken, w1) \<Rightarrow> Some (if taken then Inr w1 else Inl w1)) = Some (Inl w1)"
  then have "send_once E r v = (False, w1)" by (auto split: prod.splits if_splits)
  with I show "own owned (r # H) Q w1 \<and> kept (set (r # H) \<union> qset Q) w w1"
    using send_once_own [of E r v False w1 owned H Q] os i kept_trans by (auto simp: kept_def)
next
  fix v w1 assume I: "own owned (r # H) Q v \<and> kept (set (r # H) \<union> qset Q) w v"
    and "(case send_once E r v of (taken, w1) \<Rightarrow> Some (if taken then Inr w1 else Inl w1)) = Some (Inr w1)"
  then have "send_once E r v = (True, w1)" by (auto split: prod.splits if_splits)
  with I show "own owned H Q w1 \<and> kept (set (r # H) \<union> qset Q) w w1"
    using send_once_own [of E r v True w1 owned H Q] os i kept_trans by (auto simp: kept_def)
qed

lemma deliver_own [inv_intros]:
  assumes "deliver E r w = Some w'" and ow: "own owned (r # H) Q w" and os: "os_ok E owned"
  shows "own owned H Q w'" and "\<And>q. q \<in> set H \<union> qset Q \<Longrightarrow> no_idx (aiocbs w' q) = no_idx (aiocbs w q)"
    and "links_kept w w'" and "set (timeouts w') = set (timeouts w) - {r}"
proof -
  obtain w1 where l: "leave_heap r w = Some w1" "own owned (r # H) Q w1" "cb_idx (aiocbs w1 r) = -1"
    "\<And>q. no_idx (aiocbs w1 q) = no_idx (aiocbs w q)" "links_kept w w1"
    "set (timeouts w1) = set (timeouts w) - {r}"
    by (rule leave_heap_own [OF ow]) blast
  with assms(1) have "send_loop E r w1 = Some w'" by (simp add: deliver_def)
  from send_loop_own [OF this l(2,3) os] have s: "own owned H Q w'" "kept (set (r # H) \<union> qset Q) w1 w'" by auto
  then show "own owned H Q w'" by simp
  show "no_idx (aiocbs w' q) = no_idx (aiocbs w q)" if "q \<in> set H \<union> qset Q" for q
    using s(2) l(4) that by (simp add: kept_def)
  show "links_kept w w'"
    using s(2) l(5) loop_viewD [of w' w1] by (simp add: kept_def links_kept_def)
  show "set (timeouts w') = set (timeouts w) - {r}"
    using s(2) l(6) loop_viewD [of w' w1] by (simp add: kept_def)
qed

section \<open>Moves between the queues and the loop\<close>

definition qdrop :: "dref \<Rightarrow> qside \<Rightarrow> eref \<Rightarrow> queues \<Rightarrow> queues" where
  "qdrop d s e Q = Q(d := (Q d)(s := list_Remove e (Q d s)))"

definition qpush :: "dref \<Rightarrow> qside \<Rightarrow> element \<Rightarrow> queues \<Rightarrow> queues" where
  "qpush d s x Q = Q(d := (Q d)(s := Q d s @ [x]))"

lemma set_qdrop: "set (qdrop d s e Q d' s') = {x \<in> set (Q d' s'). d' = d \<and> s' = s \<longrightarrow> el_id x \<noteq> e}"
  by (auto simp: qdrop_def list_Remove_def)

lemma set_qpush: "set (qpush d s x Q d' s') = set (Q d' s') \<union> {y. y = x \<and> d' = d \<and> s' = s}"
  by (auto simp: qpush_def)

lemma qset_qpush: "qset (qpush d s x Q) = insert (el_Value x) (qset Q)"
  by (auto simp: qset_def set_qpush)

lemma own_queueD:
  assumes "own owned H Q w" and "x \<in> set (Q d s)"
  shows "d \<in> ran (descs w)" "el_id x < next_elem w" "cb_l (aiocbs w (el_Value x)) = Some (d, s)"
    "cb_elem (aiocbs w (el_Value x)) = Some (el_id x)" "cb_op (aiocbs w (el_Value x)) = side_op s"
    "cb_ptr (aiocbs w (el_Value x)) = fd_ptr (fdDescs w d)" "el_Value x \<in> qset Q" "distinct (map el_id (Q d s))"
  using assms by (auto simp: own_def own_queue_def qset_def)

lemma qset_qdrop:
  assumes ow: "own owned H Q w" and x: "x \<in> set (Q d s)"
  shows "qset (qdrop d s (el_id x) Q) = qset Q - {el_Value x}"
proof -
  have "el_Value y = el_Value x \<longleftrightarrow> d' = d \<and> s' = s \<and> el_id y = el_id x" if y: "y \<in> set (Q d' s')" for y d' s'
  proof
    assume "el_Value y = el_Value x"
    then show "d' = d \<and> s' = s \<and> el_id y = el_id x"
      using own_queueD(3,4) [OF ow y] own_queueD(3,4) [OF ow x] by simp
  next
    assume "d' = d \<and> s' = s \<and> el_id y = el_id x"
    with own_queueD(8) [OF ow x] x y show "el_Value y = el_Value x"
      by (auto simp: distinct_map dest: inj_onD)
  qed
  then show ?thesis by (auto simp: qset_def set_qdrop) blast+
qed

lemma own_take [inv_intros]:
  assumes ow: "own owned H Q w" and x: "x \<in> set (Q d s)"
  shows "own owned (el_Value x # H) (qdrop d s (el_id x) Q) w"
proof -
  let ?r = "el_Value x" and ?Q = "qdrop d s (el_id x) Q"
  note qd = qset_qdrop [OF ow x]
  have r: "?r \<in> qset Q" using own_queueD(7) [OF ow x] .
  have "own_locs (?r # H) ?Q w" using ow r by (auto simp: own_def own_locs_def qd)
  moreover have "own_queue ?Q w"
    using ow by (auto simp: own_def own_queue_def set_qdrop) (auto simp: qdrop_def list_Remove_def distinct_map_filter)
  moreover have "own_heap (?r # H) ?Q w"
    using ow r own_queueD(5) [OF ow x] by (auto simp: own_def own_heap_def qd side_op_def split: qside.splits)
  ultimately show ?thesis using ow by (simp add: own_def)
qed

lemma qs_dequeue: "qs (dequeue s d e w) = qdrop d s e (qs w)"
  by (auto simp: qs_def dequeue_def qdrop_def queue_of_with_queue fun_eq_iff)

lemma own_dequeue: "own owned H Q w \<Longrightarrow> own owned H Q (dequeue s d e w)"
  by (simp add: dequeue_def own_set_desc)

lemma own_set_err [inv_intros]: "own owned H Q w \<Longrightarrow> own owned H Q (set_err r e w)"
  unfolding set_err_def by (rule own_set_cb) (simp_all add: same_meta_def)

text \<open>
  A request that waits for readiness is appended to a queue and, when it has a deadline, put into
  the heap.
\<close>

lemma enqueue_frame:
  "locs (enqueue s d r w) = locs w" "next_cb (enqueue s d r w) = next_cb w" "die (enqueue s d r w) = die w"
  "descs (enqueue s d r w) = descs w" "timeouts (enqueue s d r w) = timeouts w"
  "pendingCreate (enqueue s d r w) = pendingCreate w" "connIdents (enqueue s d r w) = connIdents w"
  "fdDescPool (enqueue s d r w) = fdDescPool w" "next_desc (enqueue s d r w) = next_desc w"
  "os (enqueue s d r w) = os w" "next_elem (enqueue s d r w) = Suc (next_elem w)"
  "gcLocked (enqueue s d r w) = gcLocked w"
  "fd_ptr (fdDescs (enqueue s d r w) e) = fd_ptr (fdDescs w e)"
  by (simp_all add: enqueue_def locs_def set_cb_def set_desc_def)

lemma enqueue_cb:
  "q \<noteq> r \<Longrightarrow> aiocbs (enqueue s d r w) q = aiocbs w q"
  "aiocbs (enqueue s d r w) r = (aiocbs w r)\<lparr>cb_l := Some (d, s), cb_elem := Some (next_elem w)\<rparr>"
  "cb_idx (aiocbs (enqueue s d r w) p) = cb_idx (aiocbs w p)"
  "cb_op (aiocbs (enqueue s d r w) p) = cb_op (aiocbs w p)"
  "cb_ptr (aiocbs (enqueue s d r w) p) = cb_ptr (aiocbs w p)"
  "cb_deadline (aiocbs (enqueue s d r w) p) = cb_deadline (aiocbs w p)"
  by (simp_all add: enqueue_def set_desc_def)

lemma qs_enqueue: "qs (enqueue s d r w) = qpush d s \<lparr>el_id = next_elem w, el_Value = r\<rparr> (qs w)"
  by (auto simp: qs_def enqueue_def set_cb_def set_desc_def qpush_def queue_of_with_queue list_PushBack_def fun_eq_iff)

lemma own_enqueue_rest:
  assumes ow: "own owned (r # H) Q w" and d: "descs w f = Some d" and p: "fd_ptr (fdDescs w d) = cb_ptr (aiocbs w r)"
    and o: "cb_op (aiocbs w r) = side_op s"
    and S: "\<And>q. no_idx (S q) = no_idx (aiocbs (enqueue s d r w) q)"
  shows "own_locs H (qpush d s \<lparr>el_id = next_elem w, el_Value = r\<rparr> Q) ((enqueue s d r w)\<lparr>aiocbs := S, timeouts := T\<rparr>)"
    and "own_queue (qpush d s \<lparr>el_id = next_elem w, el_Value = r\<rparr> Q) ((enqueue s d r w)\<lparr>aiocbs := S, timeouts := T\<rparr>)"
    and "own_regs owned ((enqueue s d r w)\<lparr>aiocbs := S, timeouts := T\<rparr>)"
proof -
  let ?x = "\<lparr>el_id = next_elem w, el_Value = r\<rparr>"
  let ?Q = "qpush d s ?x Q"
  have rq: "r \<notin> qset Q" "r \<notin> set H" using ow by (auto simp: own_def own_locs_def)
  note f = no_idx_fields [OF S]
  have nr: "cb_op (S q) = cb_op (aiocbs w q)" "cb_ptr (S q) = cb_ptr (aiocbs w q)" for q
    by (simp_all add: f enqueue_cb)
  show "own_locs H ?Q ((enqueue s d r w)\<lparr>aiocbs := S, timeouts := T\<rparr>)"
    using ow enqueue_frame(1) [of s d r w] by (auto simp: own_def own_locs_def qset_qpush enqueue_frame nr locs_def)
  show "own_queue ?Q ((enqueue s d r w)\<lparr>aiocbs := S, timeouts := T\<rparr>)"
  proof -
    have "d' \<in> ran (descs w) \<and> el_id y < Suc (next_elem w) \<and> cb_l (S (el_Value y)) = Some (d', s')
        \<and> cb_elem (S (el_Value y)) = Some (el_id y) \<and> cb_op (S (el_Value y)) = side_op s'
        \<and> cb_ptr (S (el_Value y)) = fd_ptr (fdDescs w d')" if y: "y \<in> set (?Q d' s')" for d' s' y
    proof (cases "y \<in> set (Q d' s')")
      case True
      then have "el_Value y \<noteq> r" using own_queueD(7) [OF ow True] rq by auto
      with own_queueD [OF ow True] show ?thesis by (auto simp: f enqueue_cb)
    next
      case False
      with y have "y = ?x" "d' = d" "s' = s" by (auto simp: set_qpush)
      with d p o show ?thesis by (auto simp: f enqueue_cb intro: ranI)
    qed
    moreover have "distinct (map el_id (?Q d' s'))" for d' s'
      using ow own_queueD(2) [OF ow, of _ d s] by (fastforce simp: qpush_def own_def own_queue_def)
    ultimately show ?thesis by (simp add: own_queue_def enqueue_frame)
  qed
  show "own_regs owned ((enqueue s d r w)\<lparr>aiocbs := S, timeouts := T\<rparr>)"
    using ow by (simp add: own_def own_regs_def enqueue_frame)
qed

lemma own_wait [inv_intros]:
  assumes ow: "own owned (r # H) Q w" and d: "descs w f = Some d" and p: "fd_ptr (fdDescs w d) = cb_ptr (aiocbs w r)"
    and o: "cb_op (aiocbs w r) = side_op s" and new: "r \<notin> set (timeouts w)" and os: "os_ok E owned"
  shows "own owned H (qpush d s \<lparr>el_id = next_elem w, el_Value = r\<rparr> Q) (track_deadline E r (enqueue s d r w))"
proof (cases "IsZero (cb_deadline (aiocbs w r))")
  case True
  let ?w = "enqueue s d r w"
  have "own_heap H (qpush d s \<lparr>el_id = next_elem w, el_Value = r\<rparr> Q) ?w"
  proof -
    have "timed_ok (aiocbs ?w, timeouts w) = timed_ok (aiocbs w, timeouts w)"
      by (rule timed_ok_cong) (simp add: enqueue_cb)
    then show ?thesis
      using ow new True by (auto simp: own_def own_heap_def enqueue_frame enqueue_cb(3-6) qset_qpush)
  qed
  with own_enqueue_rest [OF ow d p o, of "aiocbs ?w" "timeouts ?w"] True show ?thesis
    by (simp add: own_def track_deadline_def enqueue_cb)
next
  case False
  let ?w = "enqueue s d r w" and ?Q = "qpush d s \<lparr>el_id = next_elem w, el_Value = r\<rparr> Q"
  obtain S T where push: "timeouts_Push r (aiocbs ?w, timeouts ?w) = (S, T)" by fastforce
  have t: "timed_ok (aiocbs ?w, timeouts w) = timed_ok (aiocbs w, timeouts w)"
    by (rule timed_ok_cong) (simp add: enqueue_cb)
  have ok: "timed_ok (S, T)" and ms: "mset T = add_mset r (mset (timeouts w))"
    using timeouts_Push_ok [of "(aiocbs ?w, timeouts w)" r] ow new push t
    by (simp_all add: own_def own_heap_def enqueue_frame)
  have fr: "idx_frame (insert r (set (timeouts w))) (aiocbs ?w) S"
    using timeouts_Push_frame [of r "(aiocbs ?w, timeouts w)"] push by (simp add: enqueue_frame)
  have T: "set T = insert r (set (timeouts w))" using ms by (metis set_mset_add_mset_insert set_mset_mset)
  have S: "no_idx (S q) = no_idx (aiocbs ?w q)" for q using fr by (simp add: idx_frame_def)
  have i: "cb_idx (S q) \<noteq> -1 \<longleftrightarrow> q \<in> set T" if "q \<in> set (r # H) \<union> set (pendingCreate w) \<union> qset Q" for q
  proof (cases "q \<in> set T")
    case True
    then show ?thesis using ok by (auto simp: timed_ok_def idx_ok_def in_set_conv_nth)
  next
    case False
    then have "S q = aiocbs ?w q" using idx_frame_out [OF fr, of q] T by simp
    with False T that ow show ?thesis by (auto simp: own_def own_heap_def enqueue_cb)
  qed
  have iq: "cb_idx (S q) \<noteq> -1 \<longleftrightarrow> \<not> IsZero (cb_deadline (aiocbs w q))" if "q \<in> insert r (qset Q)" for q
    using i [of q] T that False ow unfolding own_def own_heap_def by auto
  have "own_heap H ?Q (?w\<lparr>aiocbs := S, timeouts := T\<rparr>)"
    using ow ok T i iq False unfolding own_def own_heap_def
    by (simp add: enqueue_frame enqueue_cb(3-6) qset_qpush no_idx_fields [OF S])
  with own_enqueue_rest [OF ow d p o S, of T] have "own owned H ?Q (?w\<lparr>aiocbs := S, timeouts := T\<rparr>)"
    by (simp add: own_def)
  moreover obtain now world where n: "e_Now E (os ?w) = (now, world)" by fastforce
  moreover note own_os [OF calculation(1), of world] os_okD(11) [OF os n]
  ultimately show ?thesis using False push
    by (simp add: track_deadline_def Let_def enqueue_cb timer_Reset_def)
qed

section \<open>Registration\<close>

lemma fdDescPool_Get_fresh:
  assumes get: "fdDescPool_Get E w = (d, w1)" and ow: "own owned H Q w" and os: "os_ok E owned"
  obtains world p n where "w1 = w\<lparr>os := world, fdDescPool := p, next_desc := n\<rparr>" and "owned world = owned (os w)"
    and "d \<notin> ran (descs w)" and "d < n" and "next_desc w \<le> n" and "d \<notin> set p" and "distinct p" and "set p \<subseteq> set (fdDescPool w)"
proof -
  obtain k world where k: "e_pool E (os w) = (k, world)" by fastforce
  let ?p = "fdDescPool w"
  have rg: "distinct ?p" "\<And>d. d \<in> set ?p \<Longrightarrow> d < next_desc w"
    "\<And>d. d \<in> ran (descs w) \<Longrightarrow> d < next_desc w \<and> d \<notin> set ?p"
    using ow by (auto simp: own_def own_regs_def ran_def)
  note ow' = os_okD(14) [OF os k]
  show ?thesis
  proof (cases "k < length ?p")
    case True
    let ?q = "take k ?p @ drop (Suc k) ?p"
    have d: "d = ?p ! k" and w1: "w1 = w\<lparr>os := world, fdDescPool := ?q, next_desc := next_desc w\<rparr>"
      using True get k by (auto simp: fdDescPool_Get_def Let_def)
    have r: "?q = remove1 d ?p" using remove1_nth_take_drop [OF rg(1) True] d by simp
    have "d \<in> set ?p" using True d by simp
    then show ?thesis
      using that [OF w1 ow'] rg unfolding r by (auto simp: set_remove1_eq)
  next
    case False
    then have d: "d = next_desc w" and w1: "w1 = w\<lparr>os := world, fdDescPool := ?p, next_desc := Suc (next_desc w)\<rparr>"
      using get k by (auto simp: fdDescPool_Get_def Let_def)
    show ?thesis using that [OF w1 ow'] rg d by auto
  qed
qed

lemma own_regsD:
  assumes "own owned H Q w"
  shows "descs w f = Some d \<Longrightarrow> connIdents w (fd_ptr (fdDescs w d)) = Some f"
    "descs w f = Some d \<Longrightarrow> f \<in> owned (os w)"
    "connIdents w p = Some f \<Longrightarrow> \<exists>d. descs w f = Some d \<and> fd_ptr (fdDescs w d) = p"
  using assms by (simp_all add: own_def own_regs_def)

lemma own_register [inv_intros]:
  assumes reg: "register E f r w = (d, w')" and ow: "own owned H Q w" and os: "os_ok E owned"
    and new: "connIdents w (cb_ptr (aiocbs w r)) = None" "descs w f = None" "f \<in> owned (os w)"
  shows "own owned H Q w'" and "descs w' = (descs w)(f \<mapsto> d)" and "connIdents w' = (connIdents w)(cb_ptr (aiocbs w r) \<mapsto> f)"
    and "fdDescs w' = (fdDescs w)(d := \<lparr>fd_readers = [], fd_writers = [], fd_ptr = cb_ptr (aiocbs w r)\<rparr>)"
    and "d \<notin> ran (descs w)" and "aiocbs w' = aiocbs w" and "timeouts w' = timeouts w" and "gcLocked w' = gcLocked w"
proof -
  let ?p = "cb_ptr (aiocbs w r)" and ?w0 = "w\<lparr>os := e_conn_Close E (cb_conn (aiocbs w r)) (os w)\<rparr>"
  have ow0: "own owned H Q ?w0" using own_os [OF ow] os_okD(5) [OF os] by simp
  obtain w1 where g: "fdDescPool_Get E ?w0 = (d, w1)"
    and w': "w' = (set_desc d \<lparr>fd_readers = [], fd_writers = [], fd_ptr = ?p\<rparr> w1)
               \<lparr>descs := (descs w1)(f \<mapsto> d), connIdents := (connIdents w1)(?p \<mapsto> f)\<rparr>"
    using reg by (auto simp: register_def Let_def split: prod.splits)
  obtain world p n where w1: "w1 = ?w0\<lparr>os := world, fdDescPool := p, next_desc := n\<rparr>"
    and ow1: "owned world = owned (os ?w0)" and dn: "d \<notin> ran (descs ?w0)"
    and rest: "d < n" "next_desc ?w0 \<le> n" "d \<notin> set p" "distinct p" "set p \<subseteq> set (fdDescPool ?w0)"
    by (rule fdDescPool_Get_fresh [OF g ow0 os])
  have ow2: "owned (os w') = owned (os w)" using ow1 os_okD(5) [OF os] by (simp add: w' w1 set_desc_def)
  show D: "descs w' = (descs w)(f \<mapsto> d)" and C: "connIdents w' = (connIdents w)(?p \<mapsto> f)"
    and F: "fdDescs w' = (fdDescs w)(d := \<lparr>fd_readers = [], fd_writers = [], fd_ptr = ?p\<rparr>)"
    and N: "d \<notin> ran (descs w)" and A: "aiocbs w' = aiocbs w" "timeouts w' = timeouts w" "gcLocked w' = gcLocked w"
    using dn by (simp_all add: w' w1 set_desc_def)
  have P: "fdDescPool w' = p" "next_desc w' = n" by (simp_all add: w' w1 set_desc_def)
  have same: "locs w' = locs w" "next_cb w' = next_cb w" "die w' = die w" "next_elem w' = next_elem w"
    "pendingCreate w' = pendingCreate w" by (simp_all add: w' w1 set_desc_def locs_def)
  have ran: "ran (descs w') = insert d (ran (descs w))" using new(2) by (simp add: D ran_map_upd)
  have nd: "g \<noteq> f" if "descs w g = Some e" for g e using that new(2) by auto
  have "own_queue Q w'"
  proof -
    have "e \<noteq> d" if "y \<in> set (Q e s)" for e s y using own_queueD(1) [OF ow that] N by auto
    then show ?thesis using ow unfolding own_def own_queue_def by (auto simp: ran A same F)
  qed
  moreover have "own_regs owned w'"
  proof -
    have R: "connIdents w (fd_ptr (fdDescs w e)) = Some g \<and> e < next_desc w \<and> e \<notin> set (fdDescPool w) \<and> g \<in> owned (os w) \<and> e \<noteq> d"
      if "descs w g = Some e" for g e
      using ow N that by (auto simp: own_def own_regs_def ran_def)
    have "connIdents w' (fd_ptr (fdDescs w' e)) = Some g \<and> e < n \<and> e \<notin> set p \<and> g \<in> owned (os w)"
      if "descs w' g = Some e" for g e
    proof (cases "g = f")
      case False
      with that R [of g e] new(1) rest show ?thesis by (auto simp: D C F)
    qed (use that rest new(3) in \<open>simp add: D C F\<close>)
    moreover have "\<exists>e. descs w' g = Some e \<and> fd_ptr (fdDescs w' e) = q" if "connIdents w' q = Some g" for q g
    proof (cases "q = ?p")
      case False
      with that obtain e where e: "descs w g = Some e" "fd_ptr (fdDescs w e) = q"
        using own_regsD(3) [OF ow, of q g] by (auto simp: C)
      with R [of g e] nd [of g e] show ?thesis by (auto simp: D F)
    qed (use that in \<open>simp add: C D F\<close>)
    moreover have "\<forall>e \<in> set p. e < n" using ow rest by (fastforce simp: own_def own_regs_def)
    ultimately show ?thesis using rest unfolding own_regs_def P ow2 by simp
  qed
  ultimately show "own owned H Q w'"
    using ow by (simp add: own_def own_locs_def own_heap_def same A)
qed

lemma own_unregister [inv_intros]:
  assumes ow: "own owned H Q w" and d: "descs w f = Some d" and em: "\<And>s. Q d s = []" and os: "os_ok E owned"
  shows "own owned H Q (unregister E f d w)"
proof -
  let ?w = "unregister E f d w"
  have R: "connIdents w (fd_ptr (fdDescs w e)) = Some g \<and> e < next_desc w \<and> e \<notin> set (fdDescPool w) \<and> g \<in> owned (os w)"
    if "descs w g = Some e" for g e
    using ow that by (auto simp: own_def own_regs_def)
  have ne: "e \<noteq> d" if "descs w g = Some e" "g \<noteq> f" for g e
    using R [OF that(1)] R [OF d] that(2) by auto
  have ran: "e \<in> ran (descs ?w) \<longleftrightarrow> e \<in> ran (descs w) \<and> e \<noteq> d" for e
    using ne d by (auto simp: ran_def unregister_def) (metis option.inject)
  have ptr: "fd_ptr (fdDescs ?w e) = fd_ptr (fdDescs w e)" if "e \<noteq> d" for e
    using that by (simp add: unregister_def set_desc_def)
  have same: "locs ?w = locs w" "next_cb ?w = next_cb w" "die ?w = die w" "next_elem ?w = next_elem w"
    "pendingCreate ?w = pendingCreate w" "aiocbs ?w = aiocbs w" "timeouts ?w = timeouts w"
    by (simp_all add: unregister_def set_desc_def locs_def)
  have "own_queue Q ?w"
  proof -
    have "e \<noteq> d" if "y \<in> set (Q e s)" for e s y using em that by auto
    then show ?thesis using ow ptr unfolding own_def own_queue_def by (simp add: ran same)
  qed
  moreover have "own_regs owned ?w"
  proof -
    have "connIdents ?w (fd_ptr (fdDescs ?w e)) = Some g \<and> e < next_desc w \<and> e \<notin> set (d # fdDescPool w)
        \<and> g \<in> owned (os w) - {f}" if "descs ?w g = Some e" for g e
    proof -
      have g: "descs w g = Some e" "g \<noteq> f" using that by (auto simp: unregister_def split: if_splits)
      with ne have "e \<noteq> d" by blast
      with R [OF g(1)] R [OF d] g(2) ptr show ?thesis by (auto simp: unregister_def)
    qed
    moreover have "\<exists>e. descs ?w g = Some e \<and> fd_ptr (fdDescs ?w e) = q" if "connIdents ?w q = Some g" for q g
    proof -
      have q: "connIdents w q = Some g" "q \<noteq> fd_ptr (fdDescs w d)"
        using that by (auto simp: unregister_def split: if_splits)
      then obtain e where e: "descs w g = Some e" "fd_ptr (fdDescs w e) = q"
        using own_regsD(3) [OF ow, of q g] by auto
      then have "e \<noteq> d" "g \<noteq> f" using q(2) d by auto
      with e ptr show ?thesis by (auto simp: unregister_def)
    qed
    moreover have "owned (os ?w) = owned (os w) - {f}" using os_okD(4) [OF os] R [OF d] by (simp add: unregister_def)
    moreover have "fdDescPool ?w = d # fdDescPool w" "next_desc ?w = next_desc w"
      by (simp_all add: unregister_def set_desc_def)
    ultimately show ?thesis using ow R [OF d] by (simp add: own_regs_def own_def)
  qed
  ultimately show ?thesis using ow by (simp add: own_def own_locs_def own_heap_def same)
qed

text \<open>The request of a \<open>Free\<close> is dropped once it has been carried out.\<close>

lemma own_drop [inv_intros]:
  assumes "own owned (r # H) Q w" and "cb_op (aiocbs w r) = opDelete" and "r \<notin> set (timeouts w)"
  shows "own owned H Q w"
proof -
  have "own_locs H Q w" using assms(1,2) by (auto simp: own_def own_locs_def)
  moreover have "own_heap H Q w" using assms(1,3) by (auto simp: own_def own_heap_def)
  ultimately show ?thesis using assms(1) by (simp add: own_def)
qed

lemma own_Pop [inv_intros]:
  assumes ow: "own owned (r # H) Q w" and top: "timeouts w = r # rest"
    and pop: "timeouts_Pop (aiocbs w, timeouts w) = Some (x, (s, h))"
  shows "own owned (r # H) Q (w\<lparr>aiocbs := set_idx s r (-1), timeouts := h\<rparr>)" and "x = r"
    and "set h = set (timeouts w) - {r}"
proof -
  have ok: "timed_ok (aiocbs w, timeouts w)" using ow by (simp add: own_def own_heap_def)
  obtain g where g: "timeouts_Pop (aiocbs w, timeouts w) = Some (timeouts w ! 0, g)" "timed_ok g"
    "mset (snd g) = mset (timeouts w) - {#timeouts w ! 0#}"
    by (rule timeouts_Pop_ok [OF ok]) (use top in simp_all)
  with pop top show "x = r" by simp
  have h: "timed_ok (s, h)" "mset h = mset (timeouts w) - {#r#}" using g pop top by auto
  show set: "set h = set (timeouts w) - {r}" using timed_ok_set [OF ok h(1)] h(2) by simp
  have fr: "idx_frame (set (timeouts w)) (aiocbs w) s" using timeouts_Pop_frame [OF pop] by simp
  show "own owned (r # H) Q (w\<lparr>aiocbs := set_idx s r (-1), timeouts := h\<rparr>)"
    by (rule own_heap_leave [OF ow h(1) fr set]) (simp add: top)
qed

section \<open>What the loop's operations leave alone\<close>

definition core :: "aiocb \<Rightarrow> (dref \<times> qside) option \<times> eref option \<times> OpType \<times> uintptr \<times> gtime" where
  "core c = (cb_l c, cb_elem c, cb_op c, cb_ptr c, cb_deadline c)"

definition loop_frame :: "aref set \<Rightarrow> 'w watcher \<Rightarrow> 'w watcher \<Rightarrow> bool" where
  "loop_frame R w w' \<longleftrightarrow> (\<forall>q \<in> R. core (aiocbs w' q) = core (aiocbs w q)) \<and> links_kept w w'
     \<and> set (timeouts w') \<subseteq> set (timeouts w)"

lemma loop_frame_trans: "loop_frame R u v \<Longrightarrow> loop_frame R v w \<Longrightarrow> loop_frame R u w"
  by (auto simp: loop_frame_def dest: links_kept_trans)

lemma loop_frame_mono: "loop_frame R u v \<Longrightarrow> S \<subseteq> R \<Longrightarrow> loop_frame S u v"
  by (auto simp: loop_frame_def)

lemma loop_frame_refl [simp]: "loop_frame R w w"
  by (simp add: loop_frame_def links_kept_def)

lemma loop_frameD:
  assumes "loop_frame R w w'"
  shows "qs w' = qs w" "fdDescs w' = fdDescs w" "descs w' = descs w" "connIdents w' = connIdents w"
    "gcLocked w' = gcLocked w" "set (timeouts w') \<subseteq> set (timeouts w)" "die w \<Longrightarrow> die w'"
    "q \<in> R \<Longrightarrow> cb_op (aiocbs w' q) = cb_op (aiocbs w q)" "q \<in> R \<Longrightarrow> cb_ptr (aiocbs w' q) = cb_ptr (aiocbs w q)"
  using assms by (auto simp: loop_frame_def links_kept_def core_def qs_def)

lemma tryRead_timeouts:
  assumes "tryRead E f r w = Some (fin, w')" and "own owned H Q w" and "os_ok E owned"
  shows "timeouts w' = timeouts w"
proof -
  let ?y = "yield E w"
  from assms(1) obtain buf us bb w1 a w2 where sb: "select_buffer r ?y = Some (buf, us, bb, w1)"
    and rl: "read_loop E f buf r w1 = Some (a, w2)"
    and rest: "(if a = WouldBlock then Some (False, w2) else finish_read buf us bb r w2) = Some (fin, w')"
    by (auto simp: tryRead_def elim!: bind_SomeE)
  have o1: "own owned H Q w1" using select_buffer_own(1) [OF sb] own_yield [OF assms(2,3)] by simp
  have "timeouts w1 = timeouts w" using select_buffer_state [OF sb] by (auto simp: rotate_buffers_def)
  moreover have "timeouts w2 = timeouts w1" using read_loop_own [OF rl o1 assms(3)] by (simp add: attempt_frame_def)
  moreover have "timeouts w' = timeouts w2"
    using rest by (auto simp: finish_read_def Let_def set_cb_def split: if_splits option.splits)
  ultimately show ?thesis by simp
qed

lemma tryWrite_timeouts:
  assumes "tryWrite E f r w = Some (fin, w')" and "own owned H Q w" and "os_ok E owned"
  shows "timeouts w' = timeouts w"
proof (cases "cb_buffer (aiocbs w r)")
  case None
  with assms(1) show ?thesis by (simp add: tryWrite_def)
next
  case (Some buf)
  with assms(1) obtain a where "write_loop E f buf r w = Some (a, w')"
    by (auto simp: tryWrite_def elim!: bind_SomeE split: if_splits)
  from write_loop_own [OF this assms(2,3)] show ?thesis by (simp add: attempt_frame_def)
qed

lemma tryRead_frame:
  assumes "tryRead E f r w = Some (fin, w')" and "own owned H Q w" and "os_ok E owned"
  shows "loop_frame (set H \<union> qset Q) w w'"
  using tryRead_own(2,3) [OF assms] tryRead_timeouts [OF assms]
  by (auto simp: loop_frame_def meta_kept_def same_meta_def core_def)

lemma tryWrite_frame:
  assumes "tryWrite E f r w = Some (fin, w')" and "own owned H Q w" and "os_ok E owned"
  shows "loop_frame (set H \<union> qset Q) w w'"
  using tryWrite_own(2,3) [OF assms] tryWrite_timeouts [OF assms]
  by (auto simp: loop_frame_def meta_kept_def same_meta_def core_def)

lemma no_idx_core: "no_idx a = no_idx b \<Longrightarrow> core a = core b"
  by (simp add: core_def no_idx_fields [of a b])

lemma deliver_frame:
  assumes "deliver E r w = Some w'" and "own owned (r # H) Q w" and "os_ok E owned"
  shows "loop_frame (set H \<union> qset Q) w w'" and "r \<notin> set (timeouts w')"
  using deliver_own(2-4) [OF assms] by (auto simp: loop_frame_def intro!: no_idx_core)

end
