(* ===== verification/Loop_Invariant.thy ===== *)
theory Loop_Invariant
  imports Ownership_Ops
begin

text \<open>
  The contract between the loop's handlers and an invariant of the watcher. The locale
  \<open>loop_moves\<close> names the moves a request can make (an attempt, a delivery, leaving a queue,
  entering one, \<dots>) and what they keep; the handlers of the loop are composed of these moves, so an
  invariant with these laws is kept by every handler. The locale \<open>loop_invariant\<close> adds the timer
  handler and gives the invariant for all reachable states; \<open>timer_blind\<close> covers the invariants
  that do not mention the timer.

  \<open>I H Q w\<close> is the invariant with the requests \<open>H\<close> in the hands of the loop and the queues
  \<open>Q\<close>; \<open>F r H Q w\<close> is the same while \<open>r\<close> is completed and waits for its delivery.
\<close>

locale loop_moves =
  fixes E :: "'w env" and owned :: "'w \<Rightarrow> fd set"
    and I :: "aref list \<Rightarrow> queues \<Rightarrow> 'w watcher \<Rightarrow> bool"
    and F :: "aref \<Rightarrow> aref list \<Rightarrow> queues \<Rightarrow> 'w watcher \<Rightarrow> bool"
  assumes I_os: "I H Q w \<Longrightarrow> os_ok E owned"
    and I_own: "I H Q w \<Longrightarrow> own owned H Q w"
    and F_os: "F r H Q w \<Longrightarrow> os_ok E owned"
    and F_own: "F r H Q w \<Longrightarrow> own owned H Q w"
    and I_F: "I (r # H) Q w \<Longrightarrow> F r (r # H) Q w"
    and read_wait: "I H Q w \<Longrightarrow> r \<in> set H \<union> qset Q \<Longrightarrow> tryRead E f r w = Some (False, w') \<Longrightarrow> I H Q w'"
    and read_done: "I H Q w \<Longrightarrow> r \<in> set H \<union> qset Q \<Longrightarrow> tryRead E f r w = Some (True, w') \<Longrightarrow> F r H Q w'"
    and write_wait: "I H Q w \<Longrightarrow> r \<in> set H \<union> qset Q \<Longrightarrow> tryWrite E f r w = Some (False, w') \<Longrightarrow> I H Q w'"
    and write_done: "I H Q w \<Longrightarrow> r \<in> set H \<union> qset Q \<Longrightarrow> tryWrite E f r w = Some (True, w') \<Longrightarrow> F r H Q w'"
    and send: "F r (r # H) Q w \<Longrightarrow> deliver E r w = Some w' \<Longrightarrow> I H Q w'"
    and take: "I H Q w \<Longrightarrow> x \<in> set (Q d s) \<Longrightarrow> I (el_Value x # H) (qdrop d s (el_id x) Q) w"
    and take_done: "F (el_Value x) H Q w \<Longrightarrow> x \<in> set (Q d s) \<Longrightarrow>
       F (el_Value x) (el_Value x # H) (qdrop d s (el_id x) Q) (dequeue s d (el_id x) w)"
    and unlink: "I H Q w \<Longrightarrow> I H Q (dequeue s d e w)"
    and fail: "I (r # H) Q w \<Longrightarrow> I (r # H) Q (set_err r err w)"
    and wait: "I (r # H) Q w \<Longrightarrow> descs w f = Some d \<Longrightarrow> fd_ptr (fdDescs w d) = cb_ptr (aiocbs w r) \<Longrightarrow>
       cb_op (aiocbs w r) = side_op s \<Longrightarrow> r \<notin> set (timeouts w) \<Longrightarrow>
       I H (qpush d s \<lparr>el_id = next_elem w, el_Value = r\<rparr> Q) (track_deadline E r (enqueue s d r w))"
    and drop: "I (r # H) Q w \<Longrightarrow> cb_op (aiocbs w r) = opDelete \<Longrightarrow> r \<notin> set (timeouts w) \<Longrightarrow> I H Q w"
    and enlist: "I H Q w \<Longrightarrow> register E f r w = (d, w') \<Longrightarrow> connIdents w (cb_ptr (aiocbs w r)) = None \<Longrightarrow>
       descs w f = None \<Longrightarrow> f \<in> owned (os w) \<Longrightarrow> I H Q w'"
    and delist: "I H Q w \<Longrightarrow> descs w f = Some d \<Longrightarrow> (\<And>s. Q d s = []) \<Longrightarrow> I H Q (unregister E f d w)"
    and world: "I H Q w \<Longrightarrow> owned (os w) \<subseteq> owned world \<Longrightarrow> I H Q (w\<lparr>os := world\<rparr>)"
    and others: "I H Q w \<Longrightarrow> I H Q (yield E w)"
    and accept: "I [] Q w \<Longrightarrow>
       I (pendingCreate w) Q (w\<lparr>chPendingNotify := False, pendingCreate := [], pendingProcessing := pendingCreate w\<rparr>)"
    and accepted: "I [] Q w \<Longrightarrow> I [] Q (w\<lparr>pendingProcessing := []\<rparr>)"
    and signalled: "I [] Q w \<Longrightarrow> I [] Q (w\<lparr>chSignal := None\<rparr>)"
    and answered: "I [] Q w \<Longrightarrow> I [] Q (w\<lparr>sigDone := True\<rparr>)"
    and failed: "I [] Q w \<Longrightarrow> I [] Q (snd (stop E (w\<lparr>chSignal := None, pollerErr := Some err\<rparr>)))"
    and collecting: "I [] Q w \<Longrightarrow> I [] Q (w\<lparr>gcNotify := False, gcLocked := True\<rparr>)"
    and collected: "I [] Q w \<Longrightarrow>
       I [] Q (w\<lparr>gcClosed := gcClosed w + of_nat (length (gc w)), gc := [], gcLocked := False\<rparr>)"
    and drained: "I [] Q w \<Longrightarrow> die w \<Longrightarrow> chResults w = r # rest \<Longrightarrow>
       I [] Q ((set_cb r zero_aiocb w)\<lparr>mem := (mem w)(Back r := replicate backBufferSize 0), chResults := rest\<rparr>)"
    and loop_ended: "I [] Q w \<Longrightarrow> die w \<Longrightarrow> I [] Q (w\<lparr>pendingCreate := [], pendingProcessing := [], loopDone := True\<rparr>)"
begin

section \<open>Releasing a connection\<close>

lemma fail_all_inv:
  assumes "fail_all E es w = Some w'" and "I H Q w" and "Q d s = es"
  shows "I H (Q(d := (Q d)(s := []))) w' \<and> loop_frame (set H) w w'"
  using assms
proof (induction es arbitrary: w Q)
  case Nil
  then show ?case by (simp add: fun_upd_idem)
next
  case (Cons x xs)
  let ?r = "el_Value x" and ?Q = "qdrop d s (el_id x) Q"
  let ?e = "set_err ?r ErrClosedPipe w"
  from Cons.prems(1) obtain w1 where w1: "deliver E ?r ?e = Some w1" and rest: "fail_all E xs w1 = Some w'"
    by (auto elim: bind_SomeE)
  have x: "x \<in> set (Q d s)" using Cons.prems(3) by simp
  have dis: "distinct (map el_id (x # xs))" using own_queueD(8) [OF I_own [OF Cons.prems(2)] x] Cons.prems(3) by simp
  have tail: "?Q d s = xs" using list_Remove_head [OF dis] Cons.prems(3) by (simp add: qdrop_def)
  have I1: "I (?r # H) ?Q ?e" by (rule fail [OF take [where x = x]]) (use Cons.prems x in simp_all)
  have "loop_frame (set H) w ?e" by (simp add: loop_frame_def set_err_def core_def links_kept_def set_cb_def)
  moreover have "loop_frame (set H) ?e w1"
    by (rule loop_frame_mono [OF deliver_frame(1) [OF w1 I_own [OF I1] I_os [OF I1]]]) simp
  moreover have "I H ?Q w1" by (rule send [OF I_F [OF I1] w1])
  from Cons.IH [OF rest this tail] have "I H (?Q(d := (?Q d)(s := []))) w' \<and> loop_frame (set H) w1 w'" .
  moreover have "?Q(d := (?Q d)(s := [])) = Q(d := (Q d)(s := []))" by (simp add: qdrop_def)
  ultimately show ?case using loop_frame_trans by metis
qed

lemma releaseConn_inv:
  assumes "releaseConn E f w = Some w'" and "I H (qs w) w"
  shows "I H (qs w') w'" and "q \<in> set H \<Longrightarrow> core (aiocbs w' q) = core (aiocbs w q)"
    and "set (timeouts w') \<subseteq> set (timeouts w)" and "die w \<Longrightarrow> die w'" and "gcLocked w' = gcLocked w"
proof -
  have "I H (qs w') w' \<and> (\<forall>q \<in> set H. core (aiocbs w' q) = core (aiocbs w q))
      \<and> set (timeouts w') \<subseteq> set (timeouts w) \<and> (die w \<longrightarrow> die w') \<and> gcLocked w' = gcLocked w"
  proof (cases "descs w f")
    case None
    with assms show ?thesis by (simp add: releaseConn_def)
  next
    case (Some d)
    from assms(1) Some obtain w1 w2 where f1: "fail_all E (fd_readers (fdDescs w d)) w = Some w1"
      and f2: "fail_all E (fd_writers (fdDescs w1 d)) w1 = Some w2" and w': "w' = unregister E f d w2"
      by (auto simp: releaseConn_def elim!: bind_SomeE)
    let ?Q1 = "(qs w)(d := (qs w d)(Reader := []))"
    have r1: "I H ?Q1 w1" "loop_frame (set H) w w1"
      using fail_all_inv [OF f1 assms(2), where d = d and s = Reader] by (simp_all add: qs_def queue_of_def)
    let ?Q2 = "?Q1(d := (?Q1 d)(Writer := []))"
    have "?Q1 d Writer = fd_writers (fdDescs w1 d)"
      using loop_frameD(2) [OF r1(2)] by (simp add: qs_def queue_of_def)
    from fail_all_inv [OF f2 r1(1) this] have r2: "I H ?Q2 w2" "loop_frame (set H) w1 w2" by blast+
    have fr: "loop_frame (set H) w w2" using r1(2) r2(2) by (rule loop_frame_trans)
    have em: "?Q2 d s = []" for s by (cases s) simp_all
    have "descs w2 f = Some d" using Some loop_frameD(3) [OF fr] by simp
    then have "I H ?Q2 w'" unfolding w' by (rule delist [OF r2(1) _ em])
    moreover have "qs w' = ?Q2"
      using loop_frameD(2) [OF fr]
      by (auto simp: qs_def w' unregister_def set_desc_def zero_fdDesc_def queue_of_def fun_eq_iff split: qside.splits)
    ultimately show ?thesis
      using fr by (auto simp: w' unregister_def set_desc_def loop_frame_def links_kept_def)
  qed
  then show "I H (qs w') w'" "q \<in> set H \<Longrightarrow> core (aiocbs w' q) = core (aiocbs w q)"
    "set (timeouts w') \<subseteq> set (timeouts w)" "die w \<Longrightarrow> die w'" "gcLocked w' = gcLocked w"
    by blast+
qed

section \<open>Requests\<close>

lemma track_frame:
  "fdDescs (track_deadline E r w) = fdDescs w" "die (track_deadline E r w) = die w"
  "IsZero (cb_deadline (aiocbs w r)) \<Longrightarrow> track_deadline E r w = w"
  by (simp_all add: track_deadline_def timer_Reset_def Let_def split: prod.splits)

lemma track_timeouts: "set (timeouts (track_deadline E r w)) \<subseteq> insert r (set (timeouts w))"
  if "timed_ok (aiocbs w, timeouts w)" and "r \<notin> set (timeouts w)"
proof -
  obtain S T where p: "timeouts_Push r (aiocbs w, timeouts w) = (S, T)" by fastforce
  with timeouts_Push_ok(2) [of "(aiocbs w, timeouts w)" r] that have "mset T = add_mset r (mset (timeouts w))" by simp
  then have "set T = insert r (set (timeouts w))" by (metis set_mset_add_mset_insert set_mset_mset)
  with p show ?thesis by (auto simp: track_deadline_def timer_Reset_def Let_def split: prod.splits if_splits)
qed

lemma wait_inv:
  assumes "I (r # H) (qs w) w" and "descs w f = Some d" and "fd_ptr (fdDescs w d) = cb_ptr (aiocbs w r)"
    and "cb_op (aiocbs w r) = side_op s" and "r \<notin> set (timeouts w)" and "w' = track_deadline E r (enqueue s d r w)"
  shows "I H (qs w') w'" and "set (timeouts w') \<subseteq> insert r (set (timeouts w))" and "die w \<Longrightarrow> die w'"
proof -
  have "qs w' = qpush d s \<lparr>el_id = next_elem w, el_Value = r\<rparr> (qs w)"
    using qs_enqueue [of s d r w] by (simp add: assms(6) qs_def track_frame)
  with wait [OF assms(1-5)] show "I H (qs w') w'" by (simp add: assms(6))
  have "timed_ok (aiocbs (enqueue s d r w), timeouts w) = timed_ok (aiocbs w, timeouts w)"
    by (rule timed_ok_cong) (simp add: enqueue_cb)
  with track_timeouts [of "enqueue s d r w" r] I_own [OF assms(1)] assms(5)
  show "set (timeouts w') \<subseteq> insert r (set (timeouts w))"
    by (simp add: assms(6) enqueue_frame own_def own_heap_def)
  show "die w \<Longrightarrow> die w'" by (simp add: assms(6) track_frame enqueue_frame)
qed

text \<open>After an attempt the request is delivered or queued.\<close>

lemma attempted_inv:
  assumes fr: "loop_frame (set (r # H) \<union> qset (qs w)) w w1" and op: "cb_op (aiocbs w r) = side_op s"
    and cont: "(if fin then deliver E r w1 else Some (track_deadline E r (enqueue s d r w1))) = Some w'"
    and w1: "fin \<Longrightarrow> F r (r # H) (qs w) w1" "\<not> fin \<Longrightarrow> I (r # H) (qs w) w1"
    and d: "descs w f = Some d" and p: "fd_ptr (fdDescs w d) = cb_ptr (aiocbs w r)" and new: "r \<notin> set (timeouts w)"
  shows "I H (qs w') w' \<and> set (timeouts w') \<subseteq> insert r (set (timeouts w)) \<and> (die w \<longrightarrow> die w')"
proof (cases fin)
  case True
  then have dl: "deliver E r w1 = Some w'" and F1: "F r (r # H) (qs w) w1" using cont w1 by simp_all
  have fr': "loop_frame (set H \<union> qset (qs w)) w1 w'" by (rule deliver_frame(1) [OF dl F_own [OF F1] F_os [OF F1]])
  have "qs w' = qs w" using loop_frameD(1) [OF fr] loop_frameD(1) [OF fr'] by simp
  with send [OF F1 dl] loop_frameD(6,7) [OF fr] loop_frameD(6,7) [OF fr'] show ?thesis by auto
next
  case False
  then have I1: "I (r # H) (qs w1) w1" and w': "w' = track_deadline E r (enqueue s d r w1)"
    using cont w1 loop_frameD(1) [OF fr] by simp_all
  have "descs w1 f = Some d" "fd_ptr (fdDescs w1 d) = cb_ptr (aiocbs w1 r)" "cb_op (aiocbs w1 r) = side_op s"
    "r \<notin> set (timeouts w1)"
    using loop_frameD(2,3,6,8,9) [OF fr] d p op new by auto
  from wait_inv [OF I1 this w'] loop_frameD(6,7) [OF fr] show ?thesis by auto
qed

lemma start_op_inv:
  assumes ret: "start_op E f d r w = Some w'" and I: "I (r # H) (qs w) w" and d: "descs w f = Some d"
    and p: "fd_ptr (fdDescs w d) = cb_ptr (aiocbs w r)" and new: "r \<notin> set (timeouts w)"
  shows "I H (qs w') w' \<and> set (timeouts w') \<subseteq> insert r (set (timeouts w)) \<and> (die w \<longrightarrow> die w')"
proof (cases "cb_op (aiocbs w r)")
  case OpRead
  show ?thesis
  proof (cases "fd_readers (fdDescs w d) = []")
    case True
    with ret OpRead obtain fin w1 where t: "tryRead E f r w = Some (fin, w1)"
      and c: "(if fin then deliver E r w1 else Some (track_deadline E r (enqueue Reader d r w1))) = Some w'"
      by (auto simp: start_op_def elim!: bind_SomeE)
    show ?thesis
      by (rule attempted_inv [OF tryRead_frame [OF t I_own [OF I] I_os [OF I]] _ c _ _ d p new])
        (use OpRead t read_done [OF I, of r f w1] read_wait [OF I, of r f w1] in \<open>auto simp: side_op_def\<close>)
  next
    case False
    with ret OpRead have w': "w' = track_deadline E r (enqueue Reader d r w)" by (simp add: start_op_def)
    show ?thesis using wait_inv [OF I d p _ new w'] OpRead by (simp add: side_op_def)
  qed
next
  case OpWrite
  show ?thesis
  proof (cases "fd_writers (fdDescs w d) = []")
    case True
    with ret OpWrite obtain fin w1 where t: "tryWrite E f r w = Some (fin, w1)"
      and c: "(if fin then deliver E r w1 else Some (track_deadline E r (enqueue Writer d r w1))) = Some w'"
      by (auto simp: start_op_def elim!: bind_SomeE)
    show ?thesis
      by (rule attempted_inv [OF tryWrite_frame [OF t I_own [OF I] I_os [OF I]] _ c _ _ d p new])
        (use OpWrite t write_done [OF I, of r f w1] write_wait [OF I, of r f w1] in \<open>auto simp: side_op_def\<close>)
  next
    case False
    with ret OpWrite have w': "w' = track_deadline E r (enqueue Writer d r w)" by (simp add: start_op_def)
    show ?thesis using wait_inv [OF I d p _ new w'] OpWrite by (simp add: side_op_def)
  qed
next
  case opDelete
  then have "IsZero (cb_deadline (aiocbs w r))" using I_own [OF I] by (simp add: own_def own_heap_def)
  with ret opDelete have "w' = w" by (simp add: start_op_def track_frame)
  with drop [OF I opDelete new] show ?thesis by auto
qed

text \<open>
  How a request is handled: its connection is released, or it is started on a registered descriptor (which
  may have been registered just now), or registering failed and it is delivered with the error.
\<close>

lemma registered_now:
  assumes I: "I (r # H) (qs w) w" and none: "connIdents w (cb_ptr (aiocbs w r)) = None" and fresh: "f \<notin> owned (os w)"
    and ow: "owned v = insert f (owned (os w))" and reg: "register E f r (w\<lparr>os := v\<rparr>) = (d, w3)"
  shows "I (r # H) (qs w3) w3" "descs w3 f = Some d" "fd_ptr (fdDescs w3 d) = cb_ptr (aiocbs w3 r)"
    "timeouts w3 = timeouts w" "die w \<longrightarrow> die w3"
proof -
  let ?w2 = "w\<lparr>os := v\<rparr>"
  have I2: "I (r # H) (qs w) ?w2" by (rule world [OF I]) (use ow in auto)
  have pre: "connIdents ?w2 (cb_ptr (aiocbs ?w2 r)) = None" "descs ?w2 f = None" "f \<in> owned (os ?w2)"
    using none fresh own_regsD(2) [OF I_own [OF I], of f] ow by (cases "descs w f"; auto)+
  note rg = own_register [OF reg I_own [OF I2] I_os [OF I2] pre]
  have "qs w d s = []" for s using own_queueD(1) [OF I_own [OF I], of _ d s] rg(5) by (cases "qs w d s") auto
  then have "qs w3 = qs w" using rg(4) by (auto simp: qs_def queue_of_def fun_eq_iff split: qside.splits)
  with enlist [OF I2 reg pre] show "I (r # H) (qs w3) w3" by simp
  show "descs w3 f = Some d" "fd_ptr (fdDescs w3 d) = cb_ptr (aiocbs w3 r)" "timeouts w3 = timeouts w"
    using rg(2,4,6,7) by simp_all
  show "die w \<longrightarrow> die w3"
    using reg by (auto simp: register_def fdDescPool_Get_def set_desc_def Let_def split: prod.splits if_splits)
qed

lemma handle_request_cases:
  assumes I: "I (r # H) (qs w) w"
  obtains (release) f where "cb_op (aiocbs w r) = opDelete" and "handle_request E r w = releaseConn E f w"
  | (start) f d v where "I (r # H) (qs v) v" and "descs v f = Some d" and "fd_ptr (fdDescs v d) = cb_ptr (aiocbs v r)"
      and "timeouts v = timeouts w" and "die w \<longrightarrow> die v" and "handle_request E r w = start_op E f d r v"
  | (refuse) v where "I (r # H) (qs v) v" and "timeouts v = timeouts w" and "die v = die w" and "handle_request E r w = deliver E r v"
proof (cases "connIdents w (cb_ptr (aiocbs w r))")
  case (Some f)
  obtain d where d: "descs w f = Some d" "fd_ptr (fdDescs w d) = cb_ptr (aiocbs w r)"
    using own_regsD(3) [OF I_own [OF I] Some] by blast
  show ?thesis
  proof (cases "cb_op (aiocbs w r) = opDelete")
    case True
    with Some show ?thesis by (intro release [of f]) (simp_all add: handle_request_def)
  next
    case False
    with Some d I show ?thesis by (intro start [of w f d]) (simp_all add: handle_request_def)
  qed
next
  case None
  obtain f err u where dup: "e_dupconn E (cb_conn (aiocbs w r)) (os w) = ((f, err), u)" by (metis prod.exhaust)
  have err: thesis if "owned (os w) \<subseteq> owned v" "handle_request E r w = deliver E r (set_err r e (w\<lparr>os := v\<rparr>))" for e v
  proof (rule refuse [OF _ _ _ that(2)])
    show "I (r # H) (qs (set_err r e (w\<lparr>os := v\<rparr>))) (set_err r e (w\<lparr>os := v\<rparr>))"
      using fail [OF world [OF I that(1)], of e] by (simp add: qs_def set_err_def set_cb_def)
  qed (simp_all add: set_err_def set_cb_def)
  show ?thesis
  proof (cases err)
    case (Some e)
    with dup None os_okD(3) [OF I_os [OF I]] show ?thesis by (intro err [of u e]) (auto simp: handle_request_def)
  next
    case noerr: None
    obtain werr v where wa: "e_Watch E f u = (werr, v)" by fastforce
    have new: "f \<notin> owned (os w)" "owned v = insert f (owned (os w))"
      using os_okD(1,2) [OF I_os [OF I]] dup noerr os_okD(8) [OF I_os [OF I] wa] by auto
    show ?thesis
    proof (cases werr)
      case (Some e)
      have "owned (os w) \<subseteq> owned (e_closeFd E f v)" using os_okD(4) [OF I_os [OF I], of f v] new by auto
      then show ?thesis by (rule err [of _ e]) (use None dup noerr wa Some in \<open>simp add: handle_request_def\<close>)
    next
      case nowerr: None
      obtain d w3 where reg: "register E f r (w\<lparr>os := v\<rparr>) = (d, w3)" by fastforce
      show ?thesis
        by (rule start [OF registered_now [OF I None new reg]])
          (use None dup noerr wa nowerr reg in \<open>simp add: handle_request_def\<close>)
    qed
  qed
qed

lemma handle_request_inv:
  assumes ret: "handle_request E r w = Some w'" and I: "I (r # H) (qs w) w" and new: "r \<notin> set (timeouts w)"
  shows "I H (qs w') w' \<and> set (timeouts w') \<subseteq> insert r (set (timeouts w)) \<and> (die w \<longrightarrow> die w')"
  using I
proof (cases rule: handle_request_cases)
  case (release f)
  with ret have rel: "releaseConn E f w = Some w'" by simp
  note r = releaseConn_inv [OF rel I]
  have "cb_op (aiocbs w' r) = opDelete" using r(2) [of r] release(1) by (simp add: core_def)
  with drop [OF r(1)] r(3,4) new show ?thesis by auto
next
  case (start f d v)
  with start_op_inv [of f d r v w' H] ret new show ?thesis by auto
next
  case (refuse v)
  with ret have dl: "deliver E r v = Some w'" by simp
  note fr = deliver_frame(1) [OF dl I_own [OF refuse(1)] I_os [OF refuse(1)]]
  from send [OF I_F [OF refuse(1)] dl] loop_frameD(1,6,7) [OF fr] refuse(2,3) show ?thesis by auto
qed

lemma handlePending_inv:
  assumes "handlePending E rs w = Some w'" and "I rs (qs w) w" and "set rs \<inter> set (timeouts w) = {}"
  shows "I [] (qs w') w' \<and> (die w \<longrightarrow> die w')"
  using assms
proof (induction rs arbitrary: w)
  case (Cons r rs)
  then obtain w1 where w1: "handle_request E r w = Some w1" and rest: "handlePending E rs w1 = Some w'"
    by (auto elim: bind_SomeE)
  have "r \<notin> set rs" using I_own [OF Cons.prems(2)] by (simp add: own_def own_locs_def)
  with handle_request_inv [OF w1 Cons.prems(2)] Cons.prems(3) Cons.IH [OF rest] show ?case by auto
qed simp

section \<open>Readiness events\<close>

text \<open>The retry loops serve the queue from its front: what remains is a suffix.\<close>

lemma serve_inv:
  assumes F1: "F (el_Value x) [] (qs w) w1" and fr: "loop_frame R w w1" and q: "qs w d s = x # xs"
    and dl: "deliver E (el_Value x) (dequeue s d (el_id x) w1) = Some w2"
  shows "I [] (qs w2) w2 \<and> qs w2 d s = xs \<and> qs w2 = (qs w)(d := (qs w d)(s := xs)) \<and> descs w2 = descs w
    \<and> (die w \<longrightarrow> die w2)"
proof -
  let ?Q = "qdrop d s (el_id x) (qs w)"
  have x: "x \<in> set (qs w d s)" using q by simp
  have F2: "F (el_Value x) [el_Value x] ?Q (dequeue s d (el_id x) w1)" by (rule take_done [OF F1 x])
  note fr2 = deliver_frame(1) [OF dl F_own [OF F2] F_os [OF F2]]
  have "distinct (map el_id (x # xs))" using own_queueD(8) [OF F_own [OF F1] x] q by simp
  from list_Remove_head [OF this] have Q: "?Q = (qs w)(d := (qs w d)(s := xs))" by (simp add: qdrop_def q)
  have "qs w2 = ?Q" using loop_frameD(1) [OF fr2] loop_frameD(1) [OF fr] by (simp add: qs_dequeue)
  moreover have "descs w2 = descs w" "die w \<longrightarrow> die w2"
    using loop_frameD(3,7) [OF fr2] loop_frameD(3,7) [OF fr] by (auto simp: dequeue_def set_desc_def)
  ultimately show ?thesis using send [OF F2 dl] Q by simp
qed

lemma retry_reads_inv:
  assumes "retry_reads E f d xs w = Some w'" and "I [] (qs w) w" and "qs w d Reader = xs"
  shows "I [] (qs w') w' \<and> descs w' = descs w \<and> (die w \<longrightarrow> die w')
    \<and> (\<exists>k. qs w' = (qs w)(d := (qs w d)(Reader := drop k xs)))"
  using assms
proof (induction xs arbitrary: w)
  case Nil
  then show ?case by (auto simp: fun_upd_idem)
next
  case (Cons x xs)
  let ?r = "el_Value x"
  from Cons.prems(1) obtain fin w1 where t: "tryRead E f ?r w = Some (fin, w1)"
    and c: "(if fin then do { w2 \<leftarrow> deliver E ?r (dequeue Reader d (el_id x) w1); retry_reads E f d xs w2 }
       else Some w1) = Some w'"
    by (auto elim: bind_SomeE)
  have r: "?r \<in> set [] \<union> qset (qs w)" using own_queueD(7) [OF I_own [OF Cons.prems(2)], of x d Reader] Cons.prems(3) by simp
  have fr: "loop_frame (set [] \<union> qset (qs w)) w w1" by (rule tryRead_frame [OF t I_own [OF Cons.prems(2)] I_os [OF Cons.prems(2)]])
  show ?case
  proof (cases fin)
    case True
    with c obtain w2 where dl: "deliver E ?r (dequeue Reader d (el_id x) w1) = Some w2"
      and rest: "retry_reads E f d xs w2 = Some w'" by (auto elim: bind_SomeE)
    have F1: "F ?r [] (qs w) w1" using read_done [OF Cons.prems(2) r] t True by simp
    from serve_inv [OF F1 fr Cons.prems(3) dl] have s: "I [] (qs w2) w2" "qs w2 d Reader = xs"
      "qs w2 = (qs w)(d := (qs w d)(Reader := xs))" "descs w2 = descs w" "die w \<longrightarrow> die w2" by blast+
    from Cons.IH [OF rest s(1,2)] obtain k where ih: "I [] (qs w') w'" "descs w' = descs w2" "die w2 \<longrightarrow> die w'"
      and k: "qs w' = (qs w2)(d := (qs w2 d)(Reader := drop k xs))"
      by blast
    have "qs w' = (qs w)(d := (qs w d)(Reader := drop (Suc k) (x # xs)))" unfolding k s(3) by simp
    with ih s(4,5) show ?thesis by metis
  next
    case False
    with c t read_wait [OF Cons.prems(2) r, of f w1] loop_frameD [OF fr] Cons.prems(3)
    have "I [] (qs w') w'" "descs w' = descs w" "die w \<longrightarrow> die w'" "qs w' = (qs w)(d := (qs w d)(Reader := drop 0 (x # xs)))"
      by (simp_all add: fun_upd_idem)
    then show ?thesis by blast
  qed
qed

lemma retry_writes_inv:
  assumes "retry_writes E f d xs w = Some w'" and "I [] (qs w) w" and "qs w d Writer = xs"
  shows "I [] (qs w') w' \<and> descs w' = descs w \<and> (die w \<longrightarrow> die w')
    \<and> (\<exists>k. qs w' = (qs w)(d := (qs w d)(Writer := drop k xs)))"
  using assms
proof (induction xs arbitrary: w)
  case Nil
  then show ?case by (auto simp: fun_upd_idem)
next
  case (Cons x xs)
  let ?r = "el_Value x"
  from Cons.prems(1) obtain fin w1 where t: "tryWrite E f ?r w = Some (fin, w1)"
    and c: "(if fin then do { w2 \<leftarrow> deliver E ?r (dequeue Writer d (el_id x) w1); retry_writes E f d xs w2 }
       else Some w1) = Some w'"
    by (auto elim: bind_SomeE)
  have r: "?r \<in> set [] \<union> qset (qs w)" using own_queueD(7) [OF I_own [OF Cons.prems(2)], of x d Writer] Cons.prems(3) by simp
  have fr: "loop_frame (set [] \<union> qset (qs w)) w w1" by (rule tryWrite_frame [OF t I_own [OF Cons.prems(2)] I_os [OF Cons.prems(2)]])
  show ?case
  proof (cases fin)
    case True
    with c obtain w2 where dl: "deliver E ?r (dequeue Writer d (el_id x) w1) = Some w2"
      and rest: "retry_writes E f d xs w2 = Some w'" by (auto elim: bind_SomeE)
    have F1: "F ?r [] (qs w) w1" using write_done [OF Cons.prems(2) r] t True by simp
    from serve_inv [OF F1 fr Cons.prems(3) dl] have s: "I [] (qs w2) w2" "qs w2 d Writer = xs"
      "qs w2 = (qs w)(d := (qs w d)(Writer := xs))" "descs w2 = descs w" "die w \<longrightarrow> die w2" by blast+
    from Cons.IH [OF rest s(1,2)] obtain k where ih: "I [] (qs w') w'" "descs w' = descs w2" "die w2 \<longrightarrow> die w'"
      and k: "qs w' = (qs w2)(d := (qs w2 d)(Writer := drop k xs))"
      by blast
    have "qs w' = (qs w)(d := (qs w d)(Writer := drop (Suc k) (x # xs)))" unfolding k s(3) by simp
    with ih s(4,5) show ?thesis by metis
  next
    case False
    with c t write_wait [OF Cons.prems(2) r, of f w1] loop_frameD [OF fr] Cons.prems(3)
    have "I [] (qs w') w'" "descs w' = descs w" "die w \<longrightarrow> die w'" "qs w' = (qs w)(d := (qs w d)(Writer := drop 0 (x # xs)))"
      by (simp_all add: fun_upd_idem)
    then show ?thesis by blast
  qed
qed

lemma handle_event_inv:
  assumes "handle_event E e w = Some w'" and "I [] (qs w) w"
  shows "I [] (qs w') w' \<and> (die w \<longrightarrow> die w')"
proof (cases "descs w (ev_ident e)")
  case None
  with assms show ?thesis by (simp add: handle_event_def)
next
  case (Some d)
  with assms(1) obtain w1 where
    r: "(if and (ev_ev e) EV_READ \<noteq> 0 \<and> fd_readers (fdDescs w d) \<noteq> []
         then retry_reads E (ev_ident e) d (fd_readers (fdDescs w d)) w else Some w) = Some w1"
    and t: "(if and (ev_ev e) EV_WRITE \<noteq> 0 \<and> fd_writers (fdDescs w1 d) \<noteq> []
         then retry_writes E (ev_ident e) d (fd_writers (fdDescs w1 d)) w1 else Some w1) = Some w'"
    by (auto simp: handle_event_def elim!: bind_SomeE)
  have q: "qs v d Reader = fd_readers (fdDescs v d)" "qs v d Writer = fd_writers (fdDescs v d)" for v :: "'w watcher"
    by (simp_all add: qs_def queue_of_def)
  have 1: "I [] (qs w1) w1 \<and> (die w \<longrightarrow> die w1)"
    using r retry_reads_inv [OF _ assms(2) q(1)] assms(2) by (auto split: if_splits)
  then show ?thesis
    using t retry_writes_inv [OF _ conjunct1 [OF 1] q(2)] by (auto split: if_splits)
qed

lemma handleEvents_inv:
  assumes "handleEvents E es w = Some w'" and "I [] (qs w) w"
  shows "I [] (qs w') w' \<and> (die w \<longrightarrow> die w')"
  using assms
proof (induction es arbitrary: w)
  case (Cons e es)
  from Cons.prems(1) obtain w1 where "handle_event E e w = Some w1" "handleEvents E es w1 = Some w'"
    by (auto elim: bind_SomeE)
  with handle_event_inv [of e w w1] Cons.prems(2) Cons.IH [of w1] show ?case by blast
qed simp

section \<open>Finalized connections and the end of the loop\<close>

lemma release_conns_inv:
  assumes "release_conns E cs w = Some w'" and "I [] (qs w) w"
  shows "I [] (qs w') w'"
  using assms
proof (induction cs arbitrary: w)
  case (Cons c cs)
  from Cons.prems(1) obtain w1 where
    r: "(case connIdents w c of Some ident \<Rightarrow> releaseConn E ident w | None \<Rightarrow> Some w) = Some w1"
    and rest: "release_conns E cs w1 = Some w'"
    by (auto elim: bind_SomeE)
  have "I [] (qs w1) w1" using r releaseConn_inv(1) [OF _ Cons.prems(2)] Cons.prems(2) by (auto split: option.splits)
  from Cons.IH [OF rest this] show ?case .
qed simp

lemma handleGC_inv:
  assumes "handleGC E (w\<lparr>gcNotify := False\<rparr>) = Some w'" and "I [] (qs w) w"
  shows "I [] (qs w') w'"
proof -
  let ?w0 = "w\<lparr>gcNotify := False, gcLocked := True\<rparr>"
  from assms(1) obtain w1 where r: "release_conns E (gc w) ?w0 = Some w1"
    and w': "w' = w1\<lparr>gcClosed := gcClosed w1 + of_nat (length (gc w1)), gc := [], gcLocked := False\<rparr>"
    by (auto simp: handleGC_def elim!: bind_SomeE)
  have "I [] (qs ?w0) ?w0" using collecting [OF assms(2)] by (simp add: qs_def)
  from collected [OF release_conns_inv [OF r this]] show ?thesis by (simp add: w' qs_def)
qed

lemma release_all_inv:
  assumes "release_all E fs w = Some w'" and "I [] (qs w) w"
  shows "I [] (qs w') w' \<and> (die w \<longrightarrow> die w')"
  using assms
proof (induction fs arbitrary: w)
  case (Cons f fs)
  from Cons.prems(1) obtain w1 where r: "releaseConn E f w = Some w1" and rest: "release_all E fs w1 = Some w'"
    by (auto elim: bind_SomeE)
  from Cons.IH [OF rest releaseConn_inv(1) [OF r Cons.prems(2)]] releaseConn_inv(4) [OF r Cons.prems(2)]
  show ?case by blast
qed simp

lemma drain_loop_inv:
  assumes "drain_loop E w = Some w'" and "I [] (qs w) w" and "die w"
  shows "I [] (qs w') w' \<and> die w'"
proof (rule go_loop_inv [OF assms(1) [unfolded drain_loop_def], where I = "\<lambda>w. I [] (qs w) w \<and> die w"])
  fix w1 w2 assume w1: "I [] (qs w1) w1 \<and> die w1" and step: "Some (drain_once E w1) = Some (Inl w2)"
  then have y: "I [] (qs (yield E w1)) (yield E w1)" "die (yield E w1)" using others yield_die by (auto simp: qs_def)
  then show "I [] (qs w2) w2 \<and> die w2"
    using step drained [OF y] by (auto simp: drain_once_def Let_def qs_def set_cb_def split: list.splits)
next
  fix w1 w2 assume w1: "I [] (qs w1) w1 \<and> die w1" and step: "Some (drain_once E w1) = Some (Inr w2)"
  then show "I [] (qs w2) w2 \<and> die w2" using others yield_die by (auto simp: drain_once_def Let_def qs_def split: list.splits)
qed (use assms in simp)

lemma loop_exit_inv:
  assumes "loop_exit E order w = Some w'" and "I [] (qs w) w" and "die w"
  shows "I [] (qs w') w'"
proof -
  from assms(1) obtain w1 w2 where r: "release_all E order w = Some w1" and d: "drain_loop E w1 = Some w2"
    and w': "w' = w2\<lparr>pendingCreate := [], pendingProcessing := [], loopDone := True\<rparr>"
    by (auto simp: loop_exit_def elim!: bind_SomeE)
  from release_all_inv [OF r assms(2)] assms(3) have "I [] (qs w1) w1" "die w1" by auto
  from drain_loop_inv [OF d this] loop_ended show ?thesis by (simp add: w' qs_def)
qed

lemma loop_pending_inv:
  assumes "loop_pending E (w\<lparr>chPendingNotify := False\<rparr>) = Some w'" and "I [] (qs w) w"
  shows "I [] (qs w') w'"
proof -
  let ?w0 = "w\<lparr>chPendingNotify := False, pendingCreate := [], pendingProcessing := pendingCreate w\<rparr>"
  from assms(1) obtain w1 where r: "handlePending E (pendingCreate w) ?w0 = Some w1"
    and w': "w' = w1\<lparr>pendingProcessing := []\<rparr>"
    by (auto simp: loop_pending_def elim!: bind_SomeE)
  have "I (pendingCreate w) (qs ?w0) ?w0" using accept [OF assms(2)] by (simp add: qs_def)
  moreover have "set (pendingCreate w) \<inter> set (timeouts ?w0) = {}"
    using I_own [OF assms(2)] by (auto simp: own_def own_heap_def own_locs_def locs_def)
  ultimately have "I [] (qs w1) w1" using handlePending_inv [OF r] by blast
  from accepted [OF this] show ?thesis by (simp add: w' qs_def)
qed

end

section \<open>All reachable states\<close>

locale loop_invariant = loop_moves +
  assumes expiry: "I [] (qs w) w \<Longrightarrow> timerC w \<Longrightarrow> handleTimer E (w\<lparr>timerC := False\<rparr>) = Some w' \<Longrightarrow> I [] (qs w') w'"
begin

lemma loop_step_inv:
  assumes "loop_step E w w'" and "I [] (qs w) w"
  shows "I [] (qs w') w'"
  using assms
proof cases
  case other
  with others [OF assms(2)] show ?thesis by (simp add: qs_def)
next
  case pending
  with loop_pending_inv assms(2) show ?thesis by blast
next
  case (signal s v)
  have "I [] (qs (w\<lparr>chSignal := None\<rparr>)) (w\<lparr>chSignal := None\<rparr>)" using signalled [OF assms(2)] by (simp add: qs_def)
  with handleEvents_inv [OF signal(5)] answered [of "qs v" v] signal(1) show ?thesis by (simp add: qs_def)
next
  case (signal_closed s w1 order)
  have "I [] (qs (w\<lparr>chSignal := None\<rparr>)) (w\<lparr>chSignal := None\<rparr>)" using signalled [OF assms(2)] by (simp add: qs_def)
  with handleEvents_inv [OF signal_closed(4)] loop_exit_inv [OF signal_closed(8)] signal_closed(5) show ?thesis by blast
next
  case (signal_error s e w1 order)
  have "qs w1 = qs w" "die w1" using signal_error(4) by (auto simp: qs_def stop_def split: prod.splits)
  with failed [OF assms(2), of e] signal_error(4) have "I [] (qs w1) w1" by simp
  from loop_exit_inv [OF signal_error(7) this \<open>die w1\<close>] show ?thesis .
next
  case timeout
  with expiry [OF assms(2)] show ?thesis by blast
next
  case collect
  with handleGC_inv assms(2) show ?thesis by blast
next
  case (affinity cpuid)
  with world [OF assms(2), of "e_setAffinity E cpuid (os w)"] os_okD(10) [OF I_os [OF assms(2)]] show ?thesis by (simp add: qs_def)
next
  case (closed order)
  with loop_exit_inv assms(2) show ?thesis by blast
qed

lemma reachable_inv:
  assumes "reachable E w"
    and start: "\<And>n m world w. NewWatcherSize E n m world = Inr w \<Longrightarrow> I [] (qs w) w"
  shows "I [] (qs w) w"
  using assms(1) by induction (auto intro: start loop_step_inv)

end

text \<open>Invariants that do not depend on the timer.\<close>

locale timer_blind = loop_moves +
  assumes popped: "I (r # H) Q w \<Longrightarrow> timeouts w = r # rest \<Longrightarrow>
       timeouts_Pop (aiocbs w, timeouts w) = Some (x, (s, h)) \<Longrightarrow>
       I (r # H) Q (w\<lparr>aiocbs := set_idx s r (-1), timeouts := h\<rparr>)"
    and timer_set: "I H Q w \<Longrightarrow> I H Q (w\<lparr>timer := t\<rparr>)"
    and timer_read: "I H Q w \<Longrightarrow> I H Q (w\<lparr>timerC := False\<rparr>)"
begin

lemma expire_once_inv:
  assumes ret: "expire_once E now w = Some (again, w')" and I: "I [] (qs w) w"
  shows "I [] (qs w') w'"
proof (cases "timeouts w")
  case Nil
  with assms show ?thesis by (simp add: expire_once_def)
next
  case (Cons r rest)
  have ow: "own owned [] (qs w) w" by (rule I_own [OF I])
  have "r \<in> qset (qs w)" and i: "cb_idx (aiocbs w r) \<noteq> -1" using ow Cons by (auto simp: own_def own_heap_def)
  then obtain d s x where x: "x \<in> set (qs w d s)" "el_Value x = r" by (auto simp: qset_def)
  note q = own_queueD [OF ow x(1)]
  show ?thesis
  proof (cases "cb_deadline (aiocbs w r) < now")
    case False
    with ret Cons i have "w' = w\<lparr>timer := Some (now + time_Sub (cb_deadline (aiocbs w r)) now)\<rparr>"
      by (simp add: expire_once_def timer_Reset_def Let_def)
    with timer_set [OF I] show ?thesis by (simp add: qs_def)
  next
    case True
    let ?w2 = "dequeue s d (el_id x) (set_err r ErrDeadline w)"
    obtain y S T where pop: "timeouts_Pop (aiocbs ?w2, timeouts ?w2) = Some (y, (S, T))"
      and dl: "deliver E r (?w2\<lparr>aiocbs := set_idx S r (-1), timeouts := T\<rparr>) = Some w'"
      using ret Cons i True q(3,4) x(2)
      by (auto simp: expire_once_def Let_def split: option.splits elim!: bind_SomeE)
    let ?Q = "qdrop d s (el_id x) (qs w)" and ?w3 = "?w2\<lparr>aiocbs := set_idx S r (-1), timeouts := T\<rparr>"
    have I2: "I [r] ?Q ?w2" by (rule unlink [OF fail]) (use take [OF I x(1)] x(2) in simp)
    have top: "timeouts ?w2 = r # rest" by (simp add: dequeue_def set_desc_def set_err_def set_cb_def Cons)
    have I3: "I [r] ?Q ?w3" by (rule popped [OF I2 top pop])
    note fr = deliver_frame(1) [OF dl I_own [OF I3] I_os [OF I3]]
    have "qs w' = ?Q" using loop_frameD(1) [OF fr] qs_dequeue [of s d "el_id x" "set_err r ErrDeadline w"]
      by (simp add: qs_def set_err_def set_cb_def)
    with send [OF I_F [OF I3] dl] show ?thesis by simp
  qed
qed

lemma handleTimer_inv:
  assumes "handleTimer E (w\<lparr>timerC := False\<rparr>) = Some w'" and "I [] (qs w) w"
  shows "I [] (qs w') w'"
proof -
  obtain now wo where n: "e_Now E (os w) = (now, wo)" by fastforce
  let ?w0 = "w\<lparr>timerC := False, os := wo\<rparr>"
  have "I [] (qs w) ?w0" using world [OF timer_read [OF assms(2)]] os_okD(11) [OF I_os [OF assms(2)] n] by simp
  then have I0: "I [] (qs ?w0) ?w0" by (simp add: qs_def)
  have ret: "go_loop (\<lambda>w. map_option (\<lambda>(more, w1). if more then Inl w1 else Inr w1) (expire_once E now w)) ?w0 = Some w'"
    using assms(1) n by (simp add: handleTimer_def expire_loop_def)
  show ?thesis
    by (rule go_loop_inv [where I = "\<lambda>w. I [] (qs w) w" and P = "\<lambda>w. I [] (qs w) w", OF ret I0])
      (auto split: if_splits dest: expire_once_inv)
qed

end

sublocale timer_blind \<subseteq> loop_invariant
  by unfold_locales (rule handleTimer_inv)

end
