(* ===== verification/Sample_World.thy ===== *)
theory Sample_World
  imports Ownership
begin

text \<open>
  A concrete environment, for evaluating the model: descriptors are numbered upwards, reads follow
  a script, writes accept everything, the clock stands still and the other goroutines act by a
  script, one entry per scheduling point.
\<close>

record world =
  wo_fds :: "fd list"
  wo_next :: fd
  wo_sched :: "act list list"
  wo_reads :: "(int \<times> errno option \<times> byte list) list"
  wo_now :: gtime

definition sample_sched :: "world \<Rightarrow> act list \<times> world" where
  "sample_sched v = (case wo_sched v of [] \<Rightarrow> ([], v) | a # as \<Rightarrow> (a, v\<lparr>wo_sched := as\<rparr>))"

definition sample_read :: "fd \<Rightarrow> nat \<Rightarrow> world \<Rightarrow> (int \<times> errno option \<times> byte list) \<times> world" where
  "sample_read f n v =
     (case wo_reads v of
        [] \<Rightarrow> ((-1, Some EAGAIN, []), v)
      | (k, e, bs) # xs \<Rightarrow> ((if e = None then max 0 (min k (int n)) else -1, e, take n bs), v\<lparr>wo_reads := xs\<rparr>))"

definition sample_env :: "world env" where
  "sample_env =
     \<lparr>e_openPoll = (\<lambda>v. (None, v)),
      e_rawRead = sample_read,
      e_rawWrite = (\<lambda>f bs v. ((int (length bs), None), v)),
      e_dupconn = (\<lambda>c v. ((wo_next v, None), v\<lparr>wo_fds := wo_next v # wo_fds v, wo_next := wo_next v + 1\<rparr>)),
      e_closeFd = (\<lambda>f v. v\<lparr>wo_fds := removeAll f (wo_fds v)\<rparr>),
      e_conn_Close = (\<lambda>c v. v),
      e_Watch = (\<lambda>f v. (None, v)),
      e_pfd_Close = (\<lambda>v. (None, v)),
      e_wakeup = (\<lambda>v. (None, v)),
      e_set_cpuid = (\<lambda>i v. v),
      e_setAffinity = (\<lambda>i v. v),
      e_NumCPU = 8,
      e_Now = (\<lambda>v. (wo_now v, v)),
      e_sched = sample_sched,
      e_select = (\<lambda>v. (True, v)),
      e_pool = (\<lambda>v. (0, v))\<rparr>"

definition sample_owned :: "world \<Rightarrow> fd set" where
  "sample_owned v = {f \<in> set (wo_fds v). f < wo_next v}"

lemma sample_os_ok: "os_ok sample_env sample_owned"
  unfolding os_ok_def
  by (intro conjI)
    (auto simp: sample_env_def sample_owned_def sample_sched_def sample_read_def split: list.splits prod.splits)

definition sample_world :: world where
  "sample_world = \<lparr>wo_fds = [], wo_next = 10, wo_sched = [], wo_reads = [], wo_now = 100\<rparr>"

text \<open>A watcher with shared buffers of \<open>n\<close> bytes, before anything happened.\<close>

definition sample_new :: "nat \<Rightarrow> world \<Rightarrow> world watcher" where
  "sample_new n v = (case NewWatcherSize sample_env n (\<lambda>_. replicate 8 0) v of Inr w \<Rightarrow> w)"

lemma sample_new_reachable: "reachable sample_env (sample_new n v)"
  by (rule reachable.new [of _ n "\<lambda>_. replicate 8 0" v]) (simp add: sample_new_def NewWatcherSize_def sample_env_def)

definition sample_conn :: net_conn where
  "sample_conn = Some 7"

text \<open>
  Two reads are submitted, one of them with a deadline, and wait for readiness: their attempts would
  block.
\<close>

definition queued_world :: world where
  "queued_world = sample_world\<lparr>wo_sched := [[AReadTimeout (Some 1) sample_conn None 250, ARead (Some 2) sample_conn None]]\<rparr>"

definition queued_state :: "world watcher" where
  "queued_state = the (loop_pending sample_env ((yield sample_env (sample_new 8 queued_world))\<lparr>chPendingNotify := False\<rparr>))"

section \<open>Evaluation\<close>

text \<open>A system call loop whose first call is not interrupted, and a send that is possible at once.\<close>

lemma read_loop_done:
  "read_once E f buf r w = Some (a, w1) \<Longrightarrow> a \<noteq> Retry \<Longrightarrow> read_loop E f buf r w = Some (a, w1)"
  by (simp add: read_loop_def go_loop.simps [where s = w] retry_unless_def)

lemma write_loop_done:
  "write_once E f buf r w = Some (a, w1) \<Longrightarrow> a \<noteq> Retry \<Longrightarrow> write_loop E f buf r w = Some (a, w1)"
  by (simp add: write_loop_def go_loop.simps [where s = w] retry_unless_def)

lemma send_loop_done: "send_once E r w = (True, w1) \<Longrightarrow> send_loop E r w = Some w1"
  by (simp add: send_loop_def go_loop.simps [where s = w])

lemmas eval_api =
  NewWatcherSize_def yield_def run_acts_def Read_def ReadTimeout_def ReadFull_def Write_def WriteTimeout_def Free_def
  aioCreate_def aiocbPool_Get_def aiocbPool_Put_def new_aiocb_def set_cb_def notifyPending_def zero_aiocb_def zeroTime_def
  WaitIO_enter_def fold_Put WaitIO_recv_def WaitIO_more_def WaitIO_drained_def WaitIO_notify_def notifyShouldSwap_def result_of_def
  mk_slice_def len_of_def backBufferSize_def Let_def

lemmas eval_loop =
  loop_pending_def handle_request_def register_def fdDescPool_Get_def set_desc_def start_op_def tryRead_def
  select_buffer_def rotate_buffers_def read_loop_done read_once_def finish_read_def tryWrite_def write_loop_done write_once_def
  slice_from_def slice_upto_def mem_write_def mem_read_def deliver_def leave_heap_def send_loop_done send_once_def
  resultsCap_def maxEvents_def enqueue_def with_queue_def list_PushBack_def track_deadline_def

lemma expire_loop_done:
  "expire_once E now w = Some (False, w1) \<Longrightarrow> expire_loop E now w = Some w1"
  by (simp add: expire_loop_def go_loop.simps [where s = w])

lemma expire_loop_again:
  "expire_once E now w = Some (True, w1) \<Longrightarrow> expire_loop E now w = expire_loop E now w1"
  by (simp add: expire_loop_def go_loop.simps [where s = w])

lemma drain_loop_again: "drain_once E w = Inl w1 \<Longrightarrow> drain_loop E w = drain_loop E w1"
  by (simp add: drain_loop_def go_loop.simps [where s = w])

lemma drain_loop_done: "drain_once E w = Inr w1 \<Longrightarrow> drain_loop E w = Some w1"
  by (simp add: drain_loop_def go_loop.simps [where s = w])

lemma time_Sub_exact: "- (2 ^ 63) \<le> t - u \<Longrightarrow> t - u < 2 ^ 63 \<Longrightarrow> time_Sub t u = t - u"
  by (simp add: time_Sub_def)

lemmas eval_heap =
  timeouts_Push_def timeouts_Pop_def timeouts_Remove_def heap_Push_def heap_Pop_def heap_Remove_def
  heap_up.simps [of timedHeap_Less timedHeap_Swap] heap_down.simps [of timedHeap_Less timedHeap_Swap]
  set_idx_def list_swap_def

lemmas eval_timer =
  handleTimer_def expire_loop_again expire_loop_done expire_once_def set_err_def dequeue_def list_Remove_def timer_Reset_def time_Sub_exact

lemmas eval_sample =
  sample_env_def sample_sched_def sample_read_def sample_world_def sample_new_def sample_conn_def

lemma queued_state_some:
  "loop_pending sample_env ((yield sample_env (sample_new 8 queued_world))\<lparr>chPendingNotify := False\<rparr>) \<noteq> None"
  by code_simp

lemma queued_state_ready: "\<not> loopDone (yield sample_env (sample_new 8 queued_world))"
    "chPendingNotify (yield sample_env (sample_new 8 queued_world))"
  by code_simp+

lemma queued_state_reachable: "reachable sample_env queued_state"
proof -
  let ?y = "yield sample_env (sample_new 8 queued_world)"
  have "reachable sample_env ?y" by (rule reachable.step [OF sample_new_reachable loop_step.other])
  moreover have "loop_step sample_env ?y queued_state"
    by (rule loop_step.pending) (use queued_state_ready queued_state_some in \<open>auto simp: queued_state_def\<close>)
  ultimately show ?thesis by (rule reachable.step)
qed

end
