(* ===== verification/Watcher_Safety.thy ===== *)
theory Watcher_Safety
  imports Loop_Invariant Sample_World
begin

text \<open>
  Ownership of requests for all reachable states of the watcher: the interpretation of the loop
  contract with the predicate \<open>own\<close>.
\<close>

definition owns :: "'w env \<Rightarrow> ('w \<Rightarrow> fd set) \<Rightarrow> aref list \<Rightarrow> queues \<Rightarrow> 'w watcher \<Rightarrow> bool" where
  "owns E owned H Q w \<longleftrightarrow> os_ok E owned \<and> own owned H Q w"

lemma own_accept:
  assumes "own owned [] Q w"
  shows "own owned (pendingCreate w) Q (w\<lparr>chPendingNotify := False, pendingCreate := [], pendingProcessing := ps\<rparr>)"
  using assms unfolding own_def own_locs_def own_queue_def own_regs_def own_heap_def locs_def
  by (simp add: Un_assoc) blast

lemma own_drained:
  assumes "own owned [] Q w" and "die w" and "chResults w = r # rest"
  shows "own owned [] Q ((set_cb r zero_aiocb w)\<lparr>mem := m, chResults := rest\<rparr>)"
proof -
  let ?A = "(aiocbs w)(r := zero_aiocb)"
  have q: "r \<notin> qset Q" "r \<notin> set (pendingCreate w)" using assms by (auto simp: own_def own_locs_def locs_def)
  have x: "el_Value x \<noteq> r" if "x \<in> set (Q d s)" for x d s using q that by (auto simp: qset_def)
  have h: "set (timeouts w) \<subseteq> qset Q" using assms(1) by (simp add: own_def own_heap_def)
  have t: "timed_ok (?A, timeouts w) = timed_ok (aiocbs w, timeouts w)"
    by (rule timed_ok_cong) (use h q in auto)
  let ?w = "(set_cb r zero_aiocb w)\<lparr>mem := m, chResults := rest\<rparr>"
  have "own_locs [] Q ?w" using assms by (auto simp: own_def own_locs_def locs_def set_cb_def)
  moreover have "own_queue Q ?w" using assms(1) by (simp add: own_def own_queue_def set_cb_def x)
  moreover have "own_regs owned ?w" using assms(1) by (simp add: own_def own_regs_def set_cb_def)
  moreover have "own_heap [] Q ?w"
  proof -
    have c: "aiocbs ?w p = aiocbs w p" if "p \<in> qset Q \<union> set (pendingCreate w)" for p using that q by (auto simp: set_cb_def)
    have "own_heap [] Q w" using assms(1) by (simp add: own_def)
    then show ?thesis unfolding own_heap_def by (simp add: c t set_cb_def) (metis q)
  qed
  ultimately show ?thesis by (simp add: own_def)
qed

lemma own_ended:
  assumes "own owned [] Q w" and "die w"
  shows "own owned [] Q (w\<lparr>pendingCreate := [], pendingProcessing := [], loopDone := True\<rparr>)"
proof -
  let ?w = "w\<lparr>pendingCreate := [], pendingProcessing := [], loopDone := True\<rparr>"
  have "own_locs [] Q ?w" using assms by (auto simp: own_def own_locs_def locs_def)
  moreover have "own_heap [] Q ?w" using assms(1) by (simp add: own_def own_heap_def)
  ultimately show ?thesis using assms(1) by (simp add: own_def own_queue_def own_regs_def)
qed

lemma queue_of_empty [simp]: "queue_of s zero_fdDesc = []"
  by (cases s) (simp_all add: queue_of_def zero_fdDesc_def)

lemma own_new: "NewWatcherSize E n m world = Inr w \<Longrightarrow> own owned [] (qs w) w"
  by (auto simp: NewWatcherSize_def own_defs locs_def qs_def qset_def
      timed_ok_def idx_ok_def heap_ordered_def ordered_upto_def split: prod.splits option.splits)

interpretation own_loop: timer_blind E owned "owns E owned" "\<lambda>r. owns E owned"
  by unfold_locales
    (auto simp: owns_def own_take own_dequeue own_set_err own_wait own_unregister own_yield own_accept [simplified] own_drained [simplified] own_ended [simplified]
      own_os own_stop intro: deliver_own(1) own_drop own_register(1) own_Pop(1) tryRead_own(1) tryWrite_own(1))

lemma reachable_own:
  assumes "os_ok E owned" and "reachable E w"
  shows "own owned [] (qs w) w"
proof -
  have "owns E owned [] (qs w) w"
    by (rule own_loop.reachable_inv [OF assms(2)]) (simp add: owns_def assms(1) own_new)
  then show ?thesis by (simp add: owns_def)
qed

section \<open>Properties of all reachable states\<close>

text \<open>
  C1. At every moment between two steps of the loop, a request is at no two places: the submission
  slice, the result channel, the batch of \<open>WaitIO\<close> and the pool hold each request at most once, and
  none of those that wait in a queue; a queued request waits at one position of one queue, the one its
  back pointers name. Until the watcher is closed no request is lost: each one ever handed out by the
  pool is at one of these places or was a \<open>Free\<close>.
\<close>

theorem request_one_place:
  assumes "os_ok E owned" and "reachable E w"
  shows "distinct (pendingCreate w @ chResults w @ recycles w @ aiocbPool w)
    \<and> (\<forall>d s x. x \<in> set (queue_of s (fdDescs w d)) \<longrightarrow>
         el_Value x \<notin> set (pendingCreate w @ chResults w @ recycles w @ aiocbPool w)
         \<and> cb_l (aiocbs w (el_Value x)) = Some (d, s) \<and> cb_elem (aiocbs w (el_Value x)) = Some (el_id x))
    \<and> (\<forall>d s. distinct (map el_id (queue_of s (fdDescs w d))))
    \<and> (\<not> die w \<longrightarrow> (\<forall>r < next_cb w. r \<in> set (pendingCreate w @ chResults w @ recycles w @ aiocbPool w)
         \<or> (\<exists>d s. r \<in> el_Value ` set (queue_of s (fdDescs w d))) \<or> cb_op (aiocbs w r) = opDelete))"
proof -
  have ow: "own owned [] (qs w) w" by (rule reachable_own [OF assms])
  have q: "r \<in> qset (qs w) \<longleftrightarrow> (\<exists>d s. r \<in> el_Value ` set (queue_of s (fdDescs w d)))" for r
    by (auto simp: qset_def qs_def)
  have l: "distinct (locs w)" "set (locs w) \<inter> qset (qs w) = {}"
    "\<not> die w \<longrightarrow> (\<forall>r < next_cb w. r \<in> set (locs w) \<or> r \<in> qset (qs w) \<or> cb_op (aiocbs w r) = opDelete)"
    using ow by (auto simp: own_def own_locs_def)
  have x: "el_Value x \<notin> set (locs w) \<and> cb_l (aiocbs w (el_Value x)) = Some (d, s)
      \<and> cb_elem (aiocbs w (el_Value x)) = Some (el_id x)" if "x \<in> set (queue_of s (fdDescs w d))" for d s x
    using own_queueD(3,4,7) [OF ow, of x d s] that l(2) by (auto simp: qs_def)
  have "distinct (map el_id (queue_of s (fdDescs w d)))" for d s
    using ow by (simp add: own_def own_queue_def qs_def)
  with l(1,3) x show ?thesis unfolding q locs_def by blast
qed

theorem request_one_place_witness:
  "distinct (pendingCreate queued_state @ chResults queued_state @ recycles queued_state @ aiocbPool queued_state)
   \<and> map el_Value (fd_readers (fdDescs queued_state 0)) = [0, 1]"
proof -
  have "map el_Value (fd_readers (fdDescs queued_state 0)) = [0, 1]" by code_simp
  with request_one_place [OF sample_os_ok queued_state_reachable] show ?thesis by blast
qed

text \<open>
  C6. The two registration maps are inverse to each other: a registered descriptor is found under
  the connection its record names, a known connection leads to a descriptor that is registered for
  it, no record serves two descriptors or is in the pool while in use, and every registered descriptor
  is one the watcher owns (duplicated and not closed).
\<close>

theorem registration_maps_inverse:
  assumes "os_ok E owned" and "reachable E w"
  shows "(\<forall>f d. descs w f = Some d \<longrightarrow> connIdents w (fd_ptr (fdDescs w d)) = Some f \<and> d \<notin> set (fdDescPool w)
           \<and> f \<in> owned (os w))
    \<and> (\<forall>p f. connIdents w p = Some f \<longrightarrow> (\<exists>d. descs w f = Some d \<and> fd_ptr (fdDescs w d) = p))
    \<and> (\<forall>f g d. descs w f = Some d \<longrightarrow> descs w g = Some d \<longrightarrow> f = g)"
proof -
  have ow: "own owned [] (qs w) w" by (rule reachable_own [OF assms])
  have "\<forall>f g d. descs w f = Some d \<longrightarrow> descs w g = Some d \<longrightarrow> f = g"
    using own_regsD(1) [OF ow] by (metis option.inject)
  with ow show ?thesis by (simp add: own_def own_regs_def)
qed

theorem registration_maps_inverse_witness:
  "descs queued_state 10 = Some 0 \<and> connIdents queued_state 7 = Some 10
   \<and> connIdents queued_state (fd_ptr (fdDescs queued_state 0)) = Some 10"
proof -
  have "descs queued_state 10 = Some 0" "connIdents queued_state 7 = Some 10" by code_simp+
  with registration_maps_inverse [OF sample_os_ok queued_state_reachable] show ?thesis by blast
qed

text \<open>
  C7. The deadline heap holds exactly the queued requests that have a deadline; every request in it
  knows its position, and the heap order holds. So the test for an index of -1 in the timer loop never
  succeeds.
\<close>

theorem heap_tracks_queued_deadlines:
  assumes "os_ok E owned" and "reachable E w"
  shows "timed_ok (aiocbs w, timeouts w)
    \<and> (\<forall>r. r \<in> set (timeouts w) \<longleftrightarrow>
         (\<exists>d s x. x \<in> set (queue_of s (fdDescs w d)) \<and> el_Value x = r) \<and> \<not> IsZero (cb_deadline (aiocbs w r)))
    \<and> (\<forall>r \<in> set (timeouts w). cb_idx (aiocbs w r) \<noteq> -1)"
proof -
  have ow: "own_heap [] (qs w) w" using reachable_own [OF assms] by (simp add: own_def)
  have "r \<in> set (timeouts w) \<longleftrightarrow> r \<in> qset (qs w) \<and> \<not> IsZero (cb_deadline (aiocbs w r))" for r
    using ow by (auto simp: own_heap_def)
  with ow show ?thesis by (auto simp: own_heap_def qset_def qs_def)
qed

theorem heap_tracks_queued_deadlines_witness:
  "timeouts queued_state = [0] \<and> cb_idx (aiocbs queued_state 0) = 0 \<and> timed_ok (aiocbs queued_state, timeouts queued_state)"
proof -
  have "timeouts queued_state = [0]" "cb_idx (aiocbs queued_state 0) = 0" by code_simp+
  with heap_tracks_queued_deadlines [OF sample_os_ok queued_state_reachable] show ?thesis by blast
qed

end
