(* ===== verification/Swap_Buffers.thy ===== *)
theory Swap_Buffers
  imports Watcher_Safety
begin

text \<open>
  The three shared read buffers. A read without a caller's buffer is served from the front buffer;
  \<open>WaitIO\<close> asks for a rotation when it returns a batch, and the next such read rotates. The batch
  that the caller holds must stay intact until the next call of \<open>WaitIO\<close>. The predicate \<open>tb\<close>
  says where the slices of completed requests may lie; it is kept by the loop provided that no
  operation of the loop on shared state falls between \<open>WaitIO\<close>'s test that the channel is empty
  and its notification.
\<close>

section \<open>The predicate\<close>

definition Farr :: "'w watcher \<Rightarrow> array" where "Farr w = s_arr (swapBufferFront w)"
definition Marr :: "'w watcher \<Rightarrow> array" where "Marr w = s_arr (swapBufferMiddle w)"
definition Barr :: "'w watcher \<Rightarrow> array" where "Barr w = s_arr (swapBufferBack w)"

definition swap_rot :: "'w watcher \<Rightarrow> bool" where
  "swap_rot w \<longleftrightarrow> (\<exists>i j k. distinct [i, j, k] \<and> swapBufferFront w = mk_slice (Swap i) (swapSize w)
      \<and> swapBufferMiddle w = mk_slice (Swap j) (swapSize w) \<and> swapBufferBack w = mk_slice (Swap k) (swapSize w)
      \<and> swapSize w \<le> length (mem w (Swap i)) \<and> swapSize w \<le> length (mem w (Swap j))
      \<and> swapSize w \<le> length (mem w (Swap k)))
    \<and> 0 \<le> bufferOffset w \<and> bufferOffset w \<le> int (swapSize w)"

text \<open>A completed request whose data, if in a shared buffer, lies in one of the buffers \<open>A\<close>, and in
  the front buffer before the write position.\<close>

definition item :: "array set \<Rightarrow> 'w watcher \<Rightarrow> aref \<Rightarrow> bool" where
  "item A w r \<longleftrightarrow>
     (cb_useSwap (aiocbs w r) \<longrightarrow> (\<exists>b. cb_buffer (aiocbs w r) = Some b \<and> s_arr b \<in> A
        \<and> (s_arr b = Farr w \<longrightarrow> int (s_off b + s_len b) \<le> bufferOffset w)))
     \<and> (\<not> cb_useSwap (aiocbs w r) \<longrightarrow> (\<forall>b. cb_buffer (aiocbs w r) = Some b \<longrightarrow> s_arr b = Back r \<or> s_arr b \<in> range User))"

text \<open>A request that has not been completed.\<close>

definition fresh :: "aiocb \<Rightarrow> bool" where
  "fresh c \<longleftrightarrow> \<not> cb_useSwap c \<and> (cb_buffer c = None \<longrightarrow> cb_size c = 0 \<and> \<not> cb_readFull c)
     \<and> (\<forall>b. cb_buffer c = Some b \<longrightarrow> s_arr b \<in> range User)"

definition linked :: "'w watcher \<Rightarrow> bool" where
  "linked w \<longleftrightarrow> list_all2 (\<lambda>x r. r_Buffer x = cb_buffer (aiocbs w r)) (results w) (recycles w)"

definition chan_arrays :: "'w watcher \<Rightarrow> array set" where
  "chan_arrays w = (if shouldSwap w then {Farr w} else {Farr w, Barr w})"

definition batch_arrays :: "'w watcher \<Rightarrow> array set" where
  "batch_arrays w =
     (if wphase w = WIdle then if shouldSwap w then {Farr w, Barr w} else {Farr w, Marr w, Barr w}
      else chan_arrays w)"

definition tb :: "aref option \<Rightarrow> aref list \<Rightarrow> queues \<Rightarrow> 'w watcher \<Rightarrow> bool" where
  "tb X H Q w \<longleftrightarrow> swap_rot w \<and> linked w
     \<and> (\<forall>r \<in> set H \<union> qset Q \<union> set (pendingCreate w). X \<noteq> Some r \<longrightarrow> fresh (aiocbs w r))
     \<and> (\<forall>r. X = Some r \<longrightarrow> item {Farr w} w r)
     \<and> (\<forall>r \<in> set (chResults w). item (chan_arrays w) w r)
     \<and> (\<forall>r \<in> set (recycles w). item (batch_arrays w) w r)
     \<and> (wphase w = WNotify \<longrightarrow> chResults w = []) \<and> (wphase w = WSelect \<longrightarrow> recycles w = [])"

text \<open>The batch \<open>fst s\<close>, with its contents in the memory \<open>snd s\<close>, is in the caller's hands.\<close>

definition held :: "(OpResult list \<times> memory) option \<Rightarrow> 'w watcher \<Rightarrow> bool" where
  "held snap w \<longleftrightarrow>
     (case snap of
        None \<Rightarrow> True
      | Some (res, m) \<Rightarrow> wphase w = WIdle \<and> results w = res
          \<and> (\<forall>x \<in> set res. \<forall>b. r_Buffer x = Some b \<longrightarrow> s_arr b \<notin> range User \<longrightarrow> mem_read (mem w) b = mem_read m b))"

section \<open>What the predicate depends on\<close>

definition io :: "aiocb \<Rightarrow> slice option \<times> bool \<times> int \<times> bool" where
  "io c = (cb_buffer c, cb_useSwap c, cb_size c, cb_readFull c)"

lemma io_fields:
  assumes "io c = io c'"
  shows "cb_buffer c = cb_buffer c'" "cb_useSwap c = cb_useSwap c'" "cb_size c = cb_size c'" "cb_readFull c = cb_readFull c'"
  using assms by (simp_all add: io_def)

lemma fresh_cong: "io c = io c' \<Longrightarrow> fresh c = fresh c'"
  by (simp add: fresh_def io_fields [of c c'])

lemma item_cong:
  "io (aiocbs w' r) = io (aiocbs w r) \<Longrightarrow> Farr w' = Farr w \<Longrightarrow> bufferOffset w' = bufferOffset w \<Longrightarrow> item A w' r = item A w r"
  by (simp add: item_def io_fields [of "aiocbs w' r" "aiocbs w r"])

lemma item_mono: "item A w r \<Longrightarrow> A \<subseteq> B \<Longrightarrow> item B w r"
  by (auto simp: item_def)

definition tview :: "'w watcher \<Rightarrow> bool \<times> slice \<times> slice \<times> slice \<times> int \<times> nat" where
  "tview w = (shouldSwap w, swapBufferFront w, swapBufferMiddle w, swapBufferBack w, bufferOffset w, swapSize w)"

definition bview :: "'w watcher \<Rightarrow> aref list \<times> aref list \<times> OpResult list \<times> wphase \<times> memory" where
  "bview w = (chResults w, recycles w, results w, wphase w, mem w)"

lemma tviewD:
  assumes "tview w' = tview w"
  shows "shouldSwap w' = shouldSwap w" "Farr w' = Farr w" "Marr w' = Marr w" "Barr w' = Barr w"
    "bufferOffset w' = bufferOffset w" "swapSize w' = swapSize w" "swapBufferFront w' = swapBufferFront w"
    "swapBufferMiddle w' = swapBufferMiddle w" "swapBufferBack w' = swapBufferBack w"
  using assms by (simp_all add: tview_def Farr_def Marr_def Barr_def)

lemma tviewD':
  assumes "tview w' = tview w"
  shows "chan_arrays w' = chan_arrays w" "wphase w' = wphase w \<Longrightarrow> batch_arrays w' = batch_arrays w"
    "mem w' = mem w \<Longrightarrow> swap_rot w' = swap_rot w"
  using tviewD [OF assms] by (simp_all add: chan_arrays_def batch_arrays_def swap_rot_def)

text \<open>The loop moves requests about without touching their data or the batch.\<close>

lemma tb_move:
  assumes tb: "tb X H Q w" and io: "\<And>r. io (aiocbs w' r) = io (aiocbs w r)" and v: "tview w' = tview w"
    and b: "bview w' = bview w"
    and s: "set H' \<union> qset Q' \<union> set (pendingCreate w') \<subseteq> set H \<union> qset Q \<union> set (pendingCreate w)"
  shows "tb X H' Q' w'"
proof -
  have bs: "chResults w' = chResults w" "recycles w' = recycles w" "results w' = results w" "wphase w' = wphase w"
    "mem w' = mem w" using b by (simp_all add: bview_def)
  have i: "item A w' r = item A w r" for A r
    by (rule item_cong) (simp_all add: io tviewD [OF v])
  have f: "fresh (aiocbs w' r) = fresh (aiocbs w r)" for r by (rule fresh_cong [OF io])
  have l: "linked w' = linked w" using io_fields(1) [OF io] by (simp add: linked_def bs)
  show ?thesis
    using tb s unfolding tb_def i f l bs tviewD'(1) [OF v] tviewD'(2) [OF v bs(4)] tviewD'(3) [OF v bs(5)] tviewD(2) [OF v]
    by blast
qed

section \<open>Actions of other goroutines\<close>

text \<open>Callers pass slices of their own arrays.\<close>

fun caller_slice :: "act \<Rightarrow> slice option" where
  "caller_slice (ARead cx c b) = b"
| "caller_slice (AReadTimeout cx c b t) = b"
| "caller_slice (AReadFull cx c b t) = b"
| "caller_slice (AWrite cx c b) = b"
| "caller_slice (AWriteTimeout cx c b t) = b"
| "caller_slice _ = None"

fun is_User :: "array \<Rightarrow> bool" where
  "is_User (User u) = True"
| "is_User _ = False"

definition caller_act :: "act \<Rightarrow> bool" where
  "caller_act a \<longleftrightarrow> (case caller_slice a of None \<Rightarrow> True | Some b \<Rightarrow> is_User (s_arr b))"

lemma is_User_iff: "is_User x \<longleftrightarrow> x \<in> range User"
  by (cases x) auto

lemma caller_act_iff: "caller_act a \<longleftrightarrow> (\<forall>b. caller_slice a = Some b \<longrightarrow> s_arr b \<in> range User)"
  by (simp add: caller_act_def is_User_iff split: option.splits)

lemma aioCreate_shape:
  obtains (refused) "snd (aioCreate E cx oper conn buf dl full w) = w"
  | (made) r ptr where "r \<in> set (aiocbPool w) \<or> r = next_cb w"
      "aiocbs (snd (aioCreate E cx oper conn buf dl full w)) = (aiocbs w)(r := new_aiocb cx oper ptr buf dl full)"
      "set (pendingCreate (snd (aioCreate E cx oper conn buf dl full w))) \<subseteq> insert r (set (pendingCreate w))"
      "tview (snd (aioCreate E cx oper conn buf dl full w)) = tview w"
      "bview (snd (aioCreate E cx oper conn buf dl full w))
         = (chResults w, recycles w, results w, wphase w, (mem w)(Back r := replicate backBufferSize 0))"
proof (cases "conn = None \<or> conn = Some 0")
  case True
  then show ?thesis by (intro refused) (auto simp: aioCreate_def)
next
  case False
  then obtain ptr where ptr: "conn = Some ptr" "ptr \<noteq> 0" by auto
  obtain k world where k: "e_pool E (os w) = (k, world)" by fastforce
  let ?r = "if k < length (aiocbPool w) then aiocbPool w ! k else next_cb w"
  show ?thesis
    by (rule made [of ?r ptr])
      (use ptr k in \<open>auto simp: aioCreate_def aiocbPool_Get_def aiocbPool_Put_def set_cb_def notifyPending_def Let_def
          tview_def bview_def\<close>)
qed

lemma tb_create:
  assumes tb: "tb X H Q w" and ow: "own owned H Q w" and X: "\<And>r. X = Some r \<Longrightarrow> r \<in> set H \<union> qset Q"
    and src: "r \<in> set (aiocbPool w) \<or> r = next_cb w"
    and a: "aiocbs w' = (aiocbs w)(r := c)" and p: "set (pendingCreate w') \<subseteq> insert r (set (pendingCreate w))"
    and c: "fresh c" and v: "tview w' = tview w"
    and b: "bview w' = (chResults w, recycles w, results w, wphase w, (mem w)(Back r := m))"
  shows "tb X H Q w'"
proof -
  have out: "r \<notin> set H \<union> qset Q \<union> set (pendingCreate w) \<union> set (chResults w) \<union> set (recycles w)"
    using ow src by (auto simp: own_def own_locs_def locs_def)
  have bs: "chResults w' = chResults w" "recycles w' = recycles w" "results w' = results w" "wphase w' = wphase w"
    "mem w' = (mem w)(Back r := m)" using b by (simp_all add: bview_def)
  have i: "item A w' q = item A w q" if "q \<noteq> r" for A q
    by (rule item_cong) (simp_all add: that a tviewD [OF v])
  have rot: "swap_rot w' = swap_rot w" using tviewD [OF v] by (auto simp: swap_rot_def bs)
  have l: "linked w' = linked w"
    unfolding linked_def bs a by (rule list.rel_cong) (use out in auto)
  have ar: "chan_arrays w' = chan_arrays w" "batch_arrays w' = batch_arrays w" "Farr w' = Farr w"
    using tviewD'(1,2) [OF v] tviewD(2) [OF v] bs by auto
  have ne: "q \<noteq> r" if "q \<in> set (chResults w) \<union> set (recycles w) \<union> set H \<union> qset Q" for q using out that by auto
  show ?thesis
    unfolding tb_def rot l bs ar
  proof (intro conjI ballI allI impI)
    fix q assume q: "q \<in> set H \<union> qset Q \<union> set (pendingCreate w')" "X \<noteq> Some q"
    then have "q = r \<or> q \<in> set H \<union> qset Q \<union> set (pendingCreate w)" using p by auto
    then show "fresh (aiocbs w' q)" using tb q(2) c by (auto simp: tb_def a)
  qed (use tb X ne i in \<open>auto simp: tb_def\<close>)
qed

lemma tb_aioCreate:
  assumes tb: "tb X H Q w" and ow: "own owned H Q w" and X: "\<And>r. X = Some r \<Longrightarrow> r \<in> set H \<union> qset Q"
    and buf: "\<And>b. buf = Some b \<Longrightarrow> s_arr b \<in> range User" "buf = None \<Longrightarrow> \<not> full"
  shows "tb X H Q (snd (aioCreate E cx oper conn buf dl full w))"
proof (cases rule: aioCreate_shape [of E cx oper conn buf dl full w])
  case refused
  with tb show ?thesis by simp
next
  case (made r ptr)
  have "fresh (new_aiocb cx oper ptr buf dl full)"
    using buf by (auto simp: fresh_def new_aiocb_def zero_aiocb_def)
  with made tb_create [OF tb ow X] show ?thesis by blast
qed

lemma tb_WaitIO_enter: "tb X H Q w \<Longrightarrow> tb X H Q (WaitIO_enter w)"
  by (auto simp: tb_def WaitIO_enter_def fold_Put swap_rot_def linked_def item_def Farr_def Barr_def chan_arrays_def)

lemma tb_WaitIO_recv:
  assumes tb: "tb X H Q w" and ph: "wphase w = WSelect \<or> wphase w = WRecv" and ow: "own owned H Q w"
  shows "tb X H Q (WaitIO_recv w)"
proof (cases "chResults w")
  case (Cons q rest)
  let ?w = "WaitIO_recv w"
  have io: "io (aiocbs ?w r) = io (aiocbs w r)" for r by (simp add: WaitIO_recv_def Cons io_def)
  have v: "tview ?w = tview w" by (simp add: WaitIO_recv_def Cons tview_def set_cb_def)
  have s: "mem ?w = mem w" "wphase ?w = WDrain" "chResults ?w = rest" "recycles ?w = recycles w @ [q]"
    "results ?w = results w @ [result_of (aiocbs w q)]" "pendingCreate ?w = pendingCreate w"
    by (simp_all add: WaitIO_recv_def Cons set_cb_def)
  have i: "item A ?w r = item A w r" for A r by (rule item_cong) (simp_all add: io tviewD [OF v])
  have f: "fresh (aiocbs ?w r) = fresh (aiocbs w r)" for r by (rule fresh_cong [OF io])
  have l: "linked ?w"
    using tb io_fields(1) [OF io] by (simp add: tb_def linked_def s result_of_def list_all2_appendI)
  have ba: "batch_arrays ?w = chan_arrays w" "batch_arrays w = chan_arrays w"
    using ph by (auto simp: batch_arrays_def s(2) tviewD'(1) [OF v])
  show ?thesis
    unfolding tb_def
  proof (intro conjI)
    show "\<forall>r\<in>set (chResults ?w). item (chan_arrays ?w) ?w r"
      using tb by (simp add: tb_def i s(3) tviewD'(1) [OF v] Cons)
    show "\<forall>r\<in>set (recycles ?w). item (batch_arrays ?w) ?w r"
      using tb by (auto simp: tb_def i s(4) ba Cons)
  qed (use tb l in \<open>simp_all add: tb_def i f s(2,6) tviewD'(3) [OF v s(1)] tviewD(2) [OF v]\<close>)
qed (use tb in \<open>simp add: WaitIO_recv_def\<close>)

lemma tb_WaitIO_notify:
  assumes tb: "tb X H Q w" and ph: "wphase w = WNotify"
  shows "tb X H Q (WaitIO_notify w)"
proof -
  let ?w = "WaitIO_notify w"
  have s: "aiocbs ?w = aiocbs w" "chResults ?w = []" "recycles ?w = recycles w" "wphase ?w = WIdle" "Farr ?w = Farr w"
    "Barr ?w = Barr w" "bufferOffset ?w = bufferOffset w" "pendingCreate ?w = pendingCreate w" "shouldSwap ?w"
    "swap_rot ?w = swap_rot w" "linked ?w = linked w"
    using tb ph by (simp_all add: tb_def WaitIO_notify_def notifyShouldSwap_def Farr_def Barr_def swap_rot_def linked_def)
  have i: "item A ?w r = item A w r" for A r by (rule item_cong) (simp_all add: s)
  have "batch_arrays w \<subseteq> {Farr w, Barr w}" using ph by (simp add: batch_arrays_def chan_arrays_def)
  then have "\<forall>r \<in> set (recycles w). item {Farr w, Barr w} w r" using tb item_mono unfolding tb_def by blast
  moreover have "batch_arrays ?w = {Farr w, Barr w}" by (simp add: batch_arrays_def s)
  ultimately show ?thesis using tb by (simp add: tb_def i s)
qed

lemma tb_exec_act:
  assumes tb: "tb X H Q w" and ow: "own owned H Q w" and X: "\<And>r. X = Some r \<Longrightarrow> r \<in> set H \<union> qset Q"
    and a: "caller_act a"
  shows "tb X H Q (exec_act E a w)"
proof -
  have same: "tb X H Q w'" if "aiocbs w' = aiocbs w" "tview w' = tview w" "bview w' = bview w"
    "pendingCreate w' = pendingCreate w" for w'
    by (rule tb_move [OF tb]) (simp_all add: that)
  note cr = tb_aioCreate [OF tb ow X]
  show ?thesis
  proof (cases a)
    case (AReadFull cx c b t)
    with a show ?thesis using tb by (cases b) (auto simp: ReadFull_def len_of_def caller_act_iff intro: cr)
  next
    case AWaitRecv
    then show ?thesis using tb_WaitIO_recv [OF tb _ ow] tb by simp
  next
    case AWaitMore
    have "tb X H Q (WaitIO_more w)" if "wphase w = WDrain"
      using tb that by (auto simp: WaitIO_more_def tb_def swap_rot_def linked_def item_def Farr_def Barr_def
          chan_arrays_def batch_arrays_def)
    with AWaitMore tb show ?thesis by simp
  next
    case AWaitDrained
    have "tb X H Q (WaitIO_drained w)" if "wphase w = WDrain"
      using tb that by (auto simp: WaitIO_drained_def tb_def swap_rot_def linked_def item_def Farr_def Barr_def
          chan_arrays_def batch_arrays_def)
    with AWaitDrained tb show ?thesis by simp
  next
    case AWaitNotify
    then show ?thesis using tb_WaitIO_notify [OF tb] tb by simp
  next
    case AWaitClosed
    have "tb X H Q (w\<lparr>wphase := WIdle\<rparr>)" if "wphase w = WSelect"
      using tb that by (auto simp: tb_def swap_rot_def linked_def item_def Farr_def Barr_def chan_arrays_def)
    with AWaitClosed tb show ?thesis by simp
  next
    case AStop
    then show ?thesis using tb
      by (auto simp: stop_def tview_def bview_def split: prod.splits intro!: same)
  qed (use a tb in \<open>auto simp: caller_act_iff Read_def ReadTimeout_def Write_def WriteTimeout_def Free_def conn_finalizer_def
      tview_def bview_def intro!: cr same tb_WaitIO_enter\<close>)
qed

section \<open>The batch in the caller's hands\<close>

lemma held_slice:
  assumes tb: "tb X H Q w" and x: "x \<in> set (results w)" "r_Buffer x = Some b" "s_arr b \<notin> range User"
  obtains q where "q \<in> set (recycles w)" and "cb_buffer (aiocbs w q) = Some b"
    and "s_arr b = Back q \<or> s_arr b \<in> {Farr w, Marr w, Barr w}"
    and "s_arr b = Farr w \<longrightarrow> s_arr b \<noteq> Back q \<longrightarrow> int (s_off b + s_len b) \<le> bufferOffset w"
proof -
  have "list_all2 (\<lambda>x r. r_Buffer x = cb_buffer (aiocbs w r)) (results w) (recycles w)" using tb by (simp add: tb_def linked_def)
  then obtain q where q: "q \<in> set (recycles w)" "r_Buffer x = cb_buffer (aiocbs w q)"
    using x(1) by (auto simp: list_all2_conv_all_nth in_set_conv_nth) metis
  have "item (batch_arrays w) w q" using tb q(1) by (simp add: tb_def)
  moreover have "batch_arrays w \<subseteq> {Farr w, Marr w, Barr w}" by (auto simp: batch_arrays_def chan_arrays_def)
  ultimately have i: "item {Farr w, Marr w, Barr w} w q" by (rule item_mono)
  show ?thesis
  proof (rule that [OF q(1)])
    show "cb_buffer (aiocbs w q) = Some b" using q(2) x(2) by simp
    then show "s_arr b = Back q \<or> s_arr b \<in> {Farr w, Marr w, Barr w}"
      "s_arr b = Farr w \<longrightarrow> s_arr b \<noteq> Back q \<longrightarrow> int (s_off b + s_len b) \<le> bufferOffset w"
      using i x(3) by (auto simp: item_def)
  qed
qed

lemma held_keep:
  assumes "held snap w" and "wphase w = WIdle \<Longrightarrow> wphase w' = WIdle" and "results w' = results w"
    and "\<And>x b. x \<in> set (results w) \<Longrightarrow> r_Buffer x = Some b \<Longrightarrow> s_arr b \<notin> range User \<Longrightarrow>
       mem_read (mem w') b = mem_read (mem w) b"
  shows "held snap w'"
  using assms by (auto simp: held_def split: option.splits)

lemma held_cong:
  assumes "wphase w' = wphase w" and "results w' = results w" and "mem w' = mem w"
  shows "held snap w' = held snap w"
  unfolding held_def assms ..

lemma held_aioCreate:
  assumes h: "held snap w" and tb: "tb X H Q w" and ow: "own owned H Q w"
  shows "held snap (snd (aioCreate E cx oper conn buf dl full w))"
proof (cases rule: aioCreate_shape [of E cx oper conn buf dl full w])
  case (made r ptr)
  let ?w = "snd (aioCreate E cx oper conn buf dl full w)"
  have b: "wphase ?w = wphase w" "results ?w = results w" "mem ?w = (mem w)(Back r := replicate backBufferSize 0)"
    using made(5) by (simp_all add: bview_def)
  have out: "r \<notin> set (recycles w)" using ow made(1) by (auto simp: own_def own_locs_def locs_def)
  show ?thesis
  proof (rule held_keep [OF h])
    fix x b assume x: "x \<in> set (results w)" "r_Buffer x = Some b" "s_arr b \<notin> range User"
    obtain q where "q \<in> set (recycles w)" "s_arr b = Back q \<or> s_arr b \<in> {Farr w, Marr w, Barr w}"
      by (rule held_slice [OF tb x])
    moreover have "Back r \<notin> {Farr w, Marr w, Barr w}"
      using tb by (auto simp: tb_def swap_rot_def Farr_def Marr_def Barr_def mk_slice_def)
    ultimately have "s_arr b \<noteq> Back r" using out by auto
    then show "mem_read (mem ?w) b = mem_read (mem w) b" by (simp add: b mem_read_def)
  qed (simp_all add: b)
qed (use h in simp)

lemma held_exec_act:
  assumes h: "held snap w" and tb: "tb X H Q w" and ow: "own owned H Q w"
    and a: "snap \<noteq> None \<Longrightarrow> a \<noteq> AWaitEnter"
  shows "held snap (exec_act E a w)"
proof (cases snap)
  case (Some sm)
  then have ph: "wphase w = WIdle" using h by (simp add: held_def split: prod.splits)
  have keep: "held snap w'" if "wphase w' = wphase w" "results w' = results w" "mem w' = mem w" for w'
    by (rule held_keep [OF h]) (simp_all add: that)
  note cr = held_aioCreate [OF h tb ow]
  show ?thesis
    by (cases a)
      (use h a Some ph in \<open>auto simp: Read_def ReadTimeout_def ReadFull_def Write_def WriteTimeout_def Free_def
        conn_finalizer_def stop_def split: prod.splits intro!: cr [unfolded Some] keep [unfolded Some]\<close>)
qed (simp add: held_def)

section \<open>The scheduler\<close>

text \<open>
  Callers use their own arrays; while a batch is held, no one calls \<open>WaitIO\<close>.
\<close>

definition own_arrays :: "'w env \<Rightarrow> bool" where
  "own_arrays E \<longleftrightarrow> (\<forall>v. \<forall>a \<in> set (fst (e_sched E v)). caller_act a)"

definition no_WaitIO :: "'w env \<Rightarrow> bool" where
  "no_WaitIO E \<longleftrightarrow> (\<forall>v. AWaitEnter \<notin> set (fst (e_sched E v)))"

definition callers :: "'w env \<Rightarrow> (OpResult list \<times> memory) option \<Rightarrow> bool" where
  "callers E snap \<longleftrightarrow> own_arrays E \<and> (snap \<noteq> None \<longrightarrow> no_WaitIO E)"

text \<open>
  The loop does not run between \<open>WaitIO\<close>'s test that the channel is empty and the notification
  that follows it.
\<close>

definition prompt_notify :: "'w env \<Rightarrow> bool" where
  "prompt_notify E \<longleftrightarrow> (\<forall>w. wphase (yield E w) \<noteq> WNotify)"

definition swi :: "'w env \<Rightarrow> ('w \<Rightarrow> fd set) \<Rightarrow> (OpResult list \<times> memory) option \<Rightarrow> aref option \<Rightarrow> aref list \<Rightarrow> queues
    \<Rightarrow> 'w watcher \<Rightarrow> bool" where
  "swi E owned snap X H Q w \<longleftrightarrow> os_ok E owned \<and> callers E snap \<and> prompt_notify E \<and> own owned H Q w \<and> tb X H Q w
     \<and> held snap w \<and> wphase w \<noteq> WNotify \<and> (\<forall>r. X = Some r \<longrightarrow> r \<in> set H \<union> qset Q)"

lemma run_acts_swap:
  assumes "own owned H Q w \<and> tb X H Q w \<and> held snap w" and "os_ok E owned"
    and "\<And>r. X = Some r \<Longrightarrow> r \<in> set H \<union> qset Q"
    and "\<forall>a \<in> set acts. caller_act a \<and> (snap \<noteq> None \<longrightarrow> a \<noteq> AWaitEnter)"
  shows "own owned H Q (run_acts E acts w) \<and> tb X H Q (run_acts E acts w) \<and> held snap (run_acts E acts w)"
  using assms(1,4) unfolding run_acts_def
proof (induction acts arbitrary: w)
  case (Cons a acts)
  then have ow: "own owned H Q w" and tb: "tb X H Q w" and h: "held snap w" by auto
  have "own owned H Q (exec_act E a w) \<and> tb X H Q (exec_act E a w) \<and> held snap (exec_act E a w)"
    using own_exec_act [OF ow assms(2)] tb_exec_act [OF tb ow assms(3)] held_exec_act [OF h tb ow] Cons.prems(2) by auto
  with Cons show ?case by simp
qed simp

lemma swi_world:
  assumes "swi E owned snap X H Q w" and "owned (os w) \<subseteq> owned world"
  shows "swi E owned snap X H Q (w\<lparr>os := world\<rparr>)"
proof -
  have "tb X H Q w" using assms(1) by (simp add: swi_def)
  then have "tb X H Q (w\<lparr>os := world\<rparr>)" by (rule tb_move) (simp_all add: tview_def bview_def)
  moreover have "held snap (w\<lparr>os := world\<rparr>) = held snap w" by (rule held_cong) simp_all
  ultimately show ?thesis using assms by (simp add: swi_def own_os)
qed

lemma swi_yield:
  assumes "swi E owned snap X H Q w"
  shows "swi E owned snap X H Q (yield E w)"
proof -
  obtain acts world where s: "e_sched E (os w) = (acts, world)" by fastforce
  let ?w = "w\<lparr>os := world\<rparr>"
  have os: "os_ok E owned" using assms by (simp add: swi_def)
  have w: "swi E owned snap X H Q ?w" by (rule swi_world [OF assms]) (simp add: os_okD(12) [OF os s])
  have "own owned H Q (run_acts E acts ?w) \<and> tb X H Q (run_acts E acts ?w) \<and> held snap (run_acts E acts ?w)"
  proof (rule run_acts_swap [OF _ os])
    show "\<forall>a \<in> set acts. caller_act a \<and> (snap \<noteq> None \<longrightarrow> a \<noteq> AWaitEnter)"
      using assms s unfolding swi_def callers_def own_arrays_def no_WaitIO_def by (metis fst_conv)
  qed (use w in \<open>auto simp: swi_def\<close>)
  moreover have "wphase (yield E w) \<noteq> WNotify" using assms by (simp add: swi_def prompt_notify_def)
  ultimately show ?thesis using assms s by (simp add: swi_def yield_def)
qed

section \<open>Reading\<close>

lemma tb_rotate:
  assumes tb: "tb None H Q w" and sw: "shouldSwap w" and ph: "wphase w \<noteq> WNotify"
  shows "tb None H Q (rotate_buffers w)"
proof -
  let ?w = "rotate_buffers w"
  have rot: "swap_rot ?w" "Farr w \<noteq> Marr w" "Barr w \<noteq> Marr w"
    using tb by (auto simp: tb_def swap_rot_def rotate_buffers_def Farr_def Marr_def Barr_def mk_slice_def)
  have s: "Farr ?w = Marr w" "Marr ?w = Barr w" "Barr ?w = Farr w" "aiocbs ?w = aiocbs w" "chResults ?w = chResults w"
    "recycles ?w = recycles w" "wphase ?w = wphase w" "pendingCreate ?w = pendingCreate w" "\<not> shouldSwap ?w"
    "linked ?w = linked w"
    by (simp_all add: rotate_buffers_def Farr_def Marr_def Barr_def linked_def)
  have i: "item B ?w r" if "item A w r" "A \<subseteq> B" "Marr w \<notin> A" for A B r
    using that by (auto simp: item_def s)
  have c: "chan_arrays w = {Farr w}" "chan_arrays ?w = {Marr w, Farr w}" using sw s by (auto simp: chan_arrays_def)
  have b: "batch_arrays w \<subseteq> batch_arrays ?w" "Marr w \<notin> batch_arrays w"
    using sw s rot by (auto simp: batch_arrays_def chan_arrays_def)
  have "\<forall>r \<in> set (chResults w). item (chan_arrays ?w) ?w r"
    using tb i [of "chan_arrays w" _ "chan_arrays ?w"] c rot(2) by (auto simp: tb_def)
  moreover have "\<forall>r \<in> set (recycles w). item (batch_arrays ?w) ?w r"
    using tb i [OF _ b] by (auto simp: tb_def)
  ultimately show ?thesis using tb rot(1) by (simp add: tb_def s)
qed

text \<open>Where a read may store: an array of the caller, the request's own buffer, or the front buffer from
  the write position on.\<close>

definition write_target :: "aref \<Rightarrow> 'w watcher \<Rightarrow> slice \<Rightarrow> bool" where
  "write_target r w p \<longleftrightarrow> s_arr p \<in> range User \<or> s_arr p = Back r
     \<or> s_arr p = Farr w \<and> bufferOffset w \<le> int (s_off p) \<and> s_off p \<le> length (mem w (Farr w))"

lemma length_mem_write_ge:
  "s_off p \<le> length (m (s_arr p)) \<or> a \<noteq> s_arr p \<Longrightarrow> length (m a) \<le> length (mem_write m p bs a)"
  by (auto simp: mem_write_def)

lemma tb_mem_write:
  assumes tb: "tb X H Q w" and h: "held snap w" and p: "write_target r w p" and r: "r \<notin> set (recycles w)"
  shows "tb X H Q (w\<lparr>mem := mem_write (mem w) p bs\<rparr>)" and "held snap (w\<lparr>mem := mem_write (mem w) p bs\<rparr>)"
proof -
  let ?w = "w\<lparr>mem := mem_write (mem w) p bs\<rparr>"
  have sw: "Farr w \<in> range Swap" "Marr w \<in> range Swap" "Barr w \<in> range Swap" "Farr w \<noteq> Marr w" "Farr w \<noteq> Barr w"
    using tb by (auto simp: tb_def swap_rot_def Farr_def Marr_def Barr_def mk_slice_def)
  have "length (mem w (Swap k)) \<le> length (mem ?w (Swap k))" for k
    using p sw(1) by (auto simp: write_target_def intro!: length_mem_write_ge)
  then have "n \<le> length (mem w (Swap k)) \<Longrightarrow> n \<le> length (mem ?w (Swap k))" for n k using le_trans by blast
  then have "swap_rot ?w" using tb unfolding tb_def swap_rot_def by simp blast
  moreover have i: "item A ?w q = item A w q" for A q by (rule item_cong) (simp_all add: Farr_def)
  moreover have "Farr ?w = Farr w" "chan_arrays ?w = chan_arrays w" "batch_arrays ?w = batch_arrays w" "linked ?w = linked w"
    by (simp_all add: Farr_def Barr_def Marr_def chan_arrays_def batch_arrays_def linked_def)
  ultimately show "tb X H Q ?w" using tb by (simp add: tb_def)
  show "held snap ?w"
  proof (rule held_keep [OF h])
    fix x b assume x: "x \<in> set (results w)" "r_Buffer x = Some b" "s_arr b \<notin> range User"
    obtain q where q: "q \<in> set (recycles w)" "s_arr b = Back q \<or> s_arr b \<in> {Farr w, Marr w, Barr w}"
      "s_arr b = Farr w \<longrightarrow> s_arr b \<noteq> Back q \<longrightarrow> int (s_off b + s_len b) \<le> bufferOffset w"
      by (rule held_slice [OF tb x])
    show "mem_read (mem ?w) b = mem_read (mem w) b"
    proof (cases "s_arr b = s_arr p")
      case False
      then show ?thesis by (simp add: mem_read_def mem_write_other)
    next
      case True
      then have f: "s_arr p = Farr w" "bufferOffset w \<le> int (s_off p)" "s_off p \<le> length (mem w (Farr w))"
        using p q(1,2) x(3) r sw by (auto simp: write_target_def)
      then have "int (s_off b + s_len b) \<le> bufferOffset w" using q(3) True sw(1) by auto
      with f have "mem_read (mem_write (mem w) p bs) b = mem_read (mem w) b"
        by (intro mem_read_write_disjoint) auto
      then show ?thesis by simp
    qed
  qed simp_all
qed

lemma select_buffer_swi:
  assumes sb: "select_buffer r w = Some (buf, us, bb, w1)" and I: "swi E owned snap None H Q w" and r: "r \<in> set H \<union> qset Q"
  shows "swi E owned snap None H Q w1" and "aiocbs w1 = aiocbs w"
    and "cb_buffer (aiocbs w r) = Some b \<Longrightarrow> buf = b \<and> \<not> us \<and> \<not> bb"
    and "cb_buffer (aiocbs w r) = None \<Longrightarrow> us \<Longrightarrow> slice_from (swapBufferFront w1) (bufferOffset w1) = Some buf \<and> \<not> bb"
    and "cb_buffer (aiocbs w r) = None \<Longrightarrow> \<not> us \<Longrightarrow> buf = mk_slice (Back r) backBufferSize \<and> bb"
    and "slice_from buf n = Some p \<Longrightarrow> write_target r w1 p"
proof -
  have tb: "tb None H Q w" using I by (simp add: swi_def)
  have w1: "w1 = w \<or> shouldSwap w \<and> w1 = rotate_buffers w"
    using sb by (auto simp: select_buffer_def Let_def split: option.splits if_splits)
  show I1: "swi E owned snap None H Q w1"
  proof (cases "w1 = w")
    case False
    then have "w1 = rotate_buffers w" "tb None H Q w1" using w1 I tb_rotate [OF tb] by (auto simp: swi_def)
    moreover have "held snap (rotate_buffers w) = held snap w" by (rule held_cong) (simp_all add: rotate_buffers_def)
    moreover have "wphase (rotate_buffers w) = wphase w" "own owned H Q (rotate_buffers w) = own owned H Q w"
      by (simp_all add: rotate_buffers_def)
    ultimately show ?thesis using I by (simp add: swi_def)
  qed (use I in simp)
  show "aiocbs w1 = aiocbs w" using w1 by (auto simp: rotate_buffers_def)
  show some: "cb_buffer (aiocbs w r) = Some b \<Longrightarrow> buf = b \<and> \<not> us \<and> \<not> bb" for b
    using sb by (simp add: select_buffer_def)
  show front: "cb_buffer (aiocbs w r) = None \<Longrightarrow> us \<Longrightarrow> slice_from (swapBufferFront w1) (bufferOffset w1) = Some buf \<and> \<not> bb"
    using sb by (auto simp: select_buffer_def Let_def split: option.splits if_splits)
  show own_buf: "cb_buffer (aiocbs w r) = None \<Longrightarrow> \<not> us \<Longrightarrow> buf = mk_slice (Back r) backBufferSize \<and> bb"
    using sb by (auto simp: select_buffer_def Let_def split: option.splits if_splits)
  have f: "fresh (aiocbs w r)" using tb r by (auto simp: tb_def)
  show "write_target r w1 p" if p: "slice_from buf n = Some p"
  proof (cases "cb_buffer (aiocbs w r)")
    case (Some b)
    with some [OF Some] f slice_from_Some [OF p] show ?thesis by (simp add: fresh_def write_target_def)
  next
    case None
    show ?thesis
    proof (cases us)
      case True
      have rot: "swap_rot w1" using I1 by (simp add: swi_def tb_def)
      have "slice_from (swapBufferFront w1) (bufferOffset w1) = Some buf" using front [OF None True] by simp
      note b = slice_from_Some [OF this] and n = slice_from_Some [OF p]
      have "s_arr p = Farr w1" "bufferOffset w1 \<le> int (s_off p)" using b n by (auto simp: Farr_def)
      moreover have "s_off p \<le> length (mem w1 (Farr w1))"
        using b n rot by (auto simp: swap_rot_def Farr_def mk_slice_def) linarith
      ultimately show ?thesis by (simp add: write_target_def)
    next
      case False
      with own_buf [OF None] slice_from_Some [OF p] show ?thesis by (simp add: write_target_def mk_slice_def)
    qed
  qed
qed

text \<open>
  How the loop of system calls ends. It leaves the requests alone until a call completes; then the
  request's size and error change.
\<close>

definition outcome :: "aref \<Rightarrow> attempt \<Rightarrow> 'w watcher \<Rightarrow> 'w watcher \<Rightarrow> bool" where
  "outcome r a v w' \<longleftrightarrow>
     (if a = Finished
      then \<exists>c. w' = set_cb r c v \<and> same_meta c (aiocbs v r) \<and> cb_buffer c = cb_buffer (aiocbs v r)
         \<and> cb_useSwap c = cb_useSwap (aiocbs v r) \<and> cb_readFull c = cb_readFull (aiocbs v r)
      else w' = v)"

lemma read_once_swi:
  assumes once: "read_once E f buf r v = Some (a, v')" and I: "swi E owned snap None H Q v" and r: "r \<in> set H \<union> qset Q"
    and tgt: "\<And>n p. slice_from buf n = Some p \<Longrightarrow> write_target r v p"
  shows "\<exists>v1. swi E owned snap None H Q v1 \<and> aiocbs v1 = aiocbs v \<and> tview v1 = tview v
    \<and> length (mem v (Farr v)) \<le> length (mem v1 (Farr v)) \<and> outcome r a v1 v'"
proof -
  obtain p where p: "slice_from buf (cb_size (aiocbs v r)) = Some p"
    using once by (auto simp: read_once_def split: option.splits)
  obtain nr er bs wo where rr: "e_rawRead E f (s_len p) (os v) = ((nr, er, bs), wo)" by (metis prod.exhaust)
  let ?o = "v\<lparr>os := wo\<rparr>"
  let ?v = "?o\<lparr>mem := mem_write (mem ?o) p bs\<rparr>"
  have "os_ok E owned" using I by (simp add: swi_def)
  from os_okD(6) [OF this rr] have o: "swi E owned snap None H Q ?o" by (intro swi_world [OF I]) simp
  then have vs: "tb None H Q ?o" "held snap ?o" "own owned H Q ?o" by (simp_all add: swi_def)
  have wt: "write_target r ?o p" using tgt [OF p] by (simp add: write_target_def Farr_def)
  have nr: "r \<notin> set (recycles ?o)" using vs(3) r by (auto simp: own_def own_locs_def locs_def)
  have w1: "swi E owned snap None H Q ?v"
    using o tb_mem_write [OF vs(1,2) wt nr] by (simp add: swi_def)
  have "length (mem v (Farr v)) \<le> length (mem_write (mem v) p bs (Farr v))"
  proof (rule length_mem_write_ge)
    obtain i where F: "Farr v = Swap i" using vs(1) by (auto simp: tb_def swap_rot_def Farr_def mk_slice_def)
    show "s_off p \<le> length (mem v (s_arr p)) \<or> Farr v \<noteq> s_arr p"
      using tgt [OF p] F by (cases "s_arr p") (simp_all add: write_target_def image_iff)
  qed
  moreover have "outcome r a ?v v'"
  proof -
    let ?c = "(aiocbs v r)\<lparr>cb_size := (if er = None then cb_size (aiocbs v r) + nr else cb_size (aiocbs v r)),
       cb_err := (if nr = 0 \<and> er = None then Some EOF else map_option ErrSys er)\<rparr>"
    have "v' = (if a = Finished then set_cb r ?c ?v else ?v)"
      using once p rr by (auto simp: read_once_def Let_def split: if_splits)
    then show ?thesis unfolding outcome_def by (auto simp: same_meta_def intro!: exI [of _ ?c])
  qed
  ultimately show ?thesis using w1 by (intro exI [of _ ?v]) (simp add: tview_def)
qed

lemma read_loop_swi:
  assumes ret: "read_loop E f buf r w = Some (a, w2)" and I: "swi E owned snap None H Q w" and r: "r \<in> set H \<union> qset Q"
    and tgt: "\<And>n p. slice_from buf n = Some p \<Longrightarrow> write_target r w p"
  obtains v where "swi E owned snap None H Q v" and "aiocbs v = aiocbs w" and "tview v = tview w" and "outcome r a v w2"
proof -
  let ?J = "\<lambda>v. swi E owned snap None H Q v \<and> aiocbs v = aiocbs w \<and> tview v = tview w
      \<and> length (mem w (Farr w)) \<le> length (mem v (Farr w))"
  have step: "\<exists>v1. ?J v1 \<and> outcome r a v1 v'" if J: "?J v" and once: "read_once E f buf r v = Some (a, v')" for v v' a
  proof -
    have F: "Farr v = Farr w" "bufferOffset v = bufferOffset w" using J tviewD(2,5) [of v w] by auto
    have t: "write_target r v p" if "slice_from buf n = Some p" for n p
      using tgt [OF that] J by (auto simp: write_target_def F)
    from read_once_swi [OF once _ r t] J show ?thesis unfolding F by fastforce
  qed
  have "\<exists>v. ?J v \<and> outcome r (fst (a, w2)) v (snd (a, w2))"
  proof (rule go_loop_inv [where I = ?J and P = "\<lambda>x. \<exists>v. ?J v \<and> outcome r (fst x) v (snd x)"])
    show "go_loop (\<lambda>w. retry_unless (read_once E f buf r w)) w = Some (a, w2)"
      using ret by (simp add: read_loop_def)
    show "?J w" using I by simp
  next
    fix v v' assume J: "?J v" and "retry_unless (read_once E f buf r v) = Some (Inl v')"
    then show "?J v'" using step [OF J, of Retry v'] by (auto simp: retry_unless_cases outcome_def)
  next
    fix v x assume J: "?J v" and ret: "retry_unless (read_once E f buf r v) = Some (Inr x)"
    then show "\<exists>v. ?J v \<and> outcome r (fst x) v (snd x)"
      using step [OF J, of "fst x" "snd x"] by (cases x) (auto simp: retry_unless_cases)
  qed
  then show ?thesis using that by auto
qed

text \<open>Changing a request that the loop owns, without completing it, and completing it.\<close>

lemma loop_owned_out:
  assumes "own owned H Q w" and "r \<in> set H \<union> qset Q"
  shows "r \<notin> set (chResults w)" "r \<notin> set (recycles w)" "r \<notin> set (pendingCreate w)"
  using assms by (auto simp: own_def own_locs_def locs_def)

lemma tb_set_cb:
  assumes tb: "tb X H Q w" and ow: "own owned H Q w" and r: "r \<in> set H \<union> qset Q"
    and off: "bufferOffset w \<le> off" "off \<le> int (swapSize w)"
    and X': "\<And>q. X' = Some q \<Longrightarrow> q = r" "\<And>q. X = Some q \<Longrightarrow> q = r"
    and c: "X' = None \<Longrightarrow> fresh c" "X' = Some r \<Longrightarrow> item {Farr w} ((set_cb r c w)\<lparr>bufferOffset := off\<rparr>) r"
  shows "tb X' H Q ((set_cb r c w)\<lparr>bufferOffset := off\<rparr>)"
proof -
  let ?w = "(set_cb r c w)\<lparr>bufferOffset := off\<rparr>"
  note out = loop_owned_out [OF ow r]
  have s: "Farr ?w = Farr w" "chan_arrays ?w = chan_arrays w" "batch_arrays ?w = batch_arrays w" "chResults ?w = chResults w"
    "recycles ?w = recycles w" "wphase ?w = wphase w" "pendingCreate ?w = pendingCreate w" "bufferOffset ?w = off"
    by (simp_all add: set_cb_def Farr_def Barr_def Marr_def chan_arrays_def batch_arrays_def)
  have rot: "swap_rot ?w" using tb off by (simp add: tb_def swap_rot_def set_cb_def)
  have i: "item A ?w q" if "item A w q" "q \<noteq> r" for A q
    using that off(1) by (auto simp: item_def s)
  have l: "linked ?w = linked w"
    unfolding linked_def by (rule list.rel_cong) (use out in \<open>auto simp: set_cb_def\<close>)
  have ne: "q \<noteq> r" if "q \<in> set (chResults w) \<union> set (recycles w) \<union> set (pendingCreate w)" for q using out that by auto
  show ?thesis
    unfolding tb_def s l
  proof (intro conjI rot ballI allI impI)
    fix q assume q: "q \<in> set H \<union> qset Q \<union> set (pendingCreate w)" "X' \<noteq> Some q"
    show "fresh (aiocbs ?w q)"
    proof (cases "q = r")
      case True
      with q(2) X'(1) have "X' = None" by (cases X') auto
      with c(1) True show ?thesis by simp
    next
      case False
      with X'(2) have "X \<noteq> Some q" by auto
      with tb q(1) False show ?thesis by (simp add: tb_def set_cb_def)
    qed
  next
    fix q assume "X' = Some q"
    with X'(1) c(2) show "item {Farr w} ?w q" by auto
  qed (use tb i ne in \<open>auto simp: tb_def\<close>)
qed

lemma swi_set_cb:
  assumes I: "swi E owned snap X H Q w" and r: "r \<in> set H \<union> qset Q" and m: "same_meta c (aiocbs w r)"
    and off: "bufferOffset w \<le> off" "off \<le> int (swapSize w)"
    and X': "\<And>q. X' = Some q \<Longrightarrow> q = r" "\<And>q. X = Some q \<Longrightarrow> q = r"
    and c: "X' = None \<Longrightarrow> fresh c" "X' = Some r \<Longrightarrow> item {Farr w} ((set_cb r c w)\<lparr>bufferOffset := off\<rparr>) r"
  shows "swi E owned snap X' H Q ((set_cb r c w)\<lparr>bufferOffset := off\<rparr>)"
proof -
  have tb: "tb X H Q w" and ow: "own owned H Q w" using I by (simp_all add: swi_def)
  have "tb X' H Q ((set_cb r c w)\<lparr>bufferOffset := off\<rparr>)" by (rule tb_set_cb [OF tb ow r off X' c])
  moreover have "own owned H Q ((set_cb r c w)\<lparr>bufferOffset := off\<rparr>)" using own_set_cb [OF ow m] by simp
  moreover have "held snap ((set_cb r c w)\<lparr>bufferOffset := off\<rparr>) = held snap w"
    by (rule held_cong) (simp_all add: set_cb_def)
  ultimately show ?thesis using I X'(1) r by (auto simp: swi_def set_cb_def)
qed

lemma swi_offset:
  assumes "swi E owned snap X H Q w"
  shows "0 \<le> bufferOffset w" "bufferOffset w \<le> int (swapSize w)" "swapBufferFront w = mk_slice (Farr w) (swapSize w)"
  using assms by (auto simp: swi_def tb_def swap_rot_def Farr_def mk_slice_def)

text \<open>A request whose buffer is the caller's stays unfinished, or is finished, whatever its size is.\<close>

lemma swi_user:
  assumes I: "swi E owned snap None H Q w" and r: "r \<in> set H \<union> qset Q" and m: "same_meta c (aiocbs w r)"
    and c: "cb_buffer c = Some b" "s_arr b \<in> range User" "\<not> cb_useSwap c"
  shows "swi E owned snap None H Q (set_cb r c w)" and "swi E owned snap (Some r) H Q (set_cb r c w)"
proof -
  note off = order_refl swi_offset(2) [OF I]
  have e: "(set_cb r c w)\<lparr>bufferOffset := bufferOffset w\<rparr> = set_cb r c w" by (simp add: set_cb_def)
  have "fresh c" using c by (simp add: fresh_def)
  then show "swi E owned snap None H Q (set_cb r c w)" using swi_set_cb [OF I r m off, of None] unfolding e by simp
  have "item {Farr w} (set_cb r c w) r" using c by (simp add: item_def set_cb_def)
  then show "swi E owned snap (Some r) H Q (set_cb r c w)" using swi_set_cb [OF I r m off, of "Some r"] unfolding e by simp
qed

lemma swi_finish:
  assumes "swi E owned snap None H Q w" and "r \<in> set H \<union> qset Q"
  shows "swi E owned snap (Some r) H Q w"
proof -
  have f: "fresh (aiocbs w r)" using assms by (auto simp: swi_def tb_def)
  then have "item A w r" for A by (auto simp: item_def fresh_def)
  with assms show ?thesis by (auto simp: swi_def tb_def)
qed

lemma finish_read_swi:
  assumes fin: "finish_read buf us bb r (set_cb r c v) = Some (fin, w')"
    and I: "swi E owned snap None H Q v" and r: "r \<in> set H \<union> qset Q" and m: "same_meta c (aiocbs v r)"
    and c: "cb_buffer c = cb_buffer (aiocbs v r)" "cb_useSwap c = cb_useSwap (aiocbs v r)"
      "cb_readFull c = cb_readFull (aiocbs v r)"
    and buf: "us \<Longrightarrow> slice_from (swapBufferFront v) (bufferOffset v) = Some buf"
      "\<not> us \<Longrightarrow> cb_buffer (aiocbs v r) = None \<Longrightarrow> buf = mk_slice (Back r) backBufferSize \<and> bb"
      "us \<Longrightarrow> cb_buffer (aiocbs v r) = None" "bb \<Longrightarrow> cb_buffer (aiocbs v r) = None"
  shows "swi E owned snap (if fin then Some r else None) H Q w'"
proof -
  have f: "fresh (aiocbs v r)" using I r by (auto simp: swi_def tb_def)
  have w2: "aiocbs (set_cb r c v) r = c" by (simp add: set_cb_def)
  show ?thesis
  proof (cases "cb_buffer (aiocbs v r)")
    case (Some b)
    then have "w' = set_cb r c v" using fin buf(3,4) by (auto simp: finish_read_def Let_def w2 split: if_splits)
    with swi_user [OF I r m, of b] Some c f show ?thesis by (auto simp: fresh_def)
  next
    case None
    with f c have rf: "\<not> cb_readFull c" "\<not> cb_useSwap c" by (auto simp: fresh_def)
    show ?thesis
    proof (cases us)
      case True
      let ?off = "bufferOffset v + cb_size c"
      obtain b where b: "slice_upto buf (cb_size c) = Some b" and t: "fin"
        and w': "w' = (set_cb r (c\<lparr>cb_useSwap := True, cb_buffer := Some b\<rparr>) v)\<lparr>bufferOffset := ?off\<rparr>"
        using fin rf True by (auto simp: finish_read_def Let_def w2 set_cb_def split: option.splits)
      have front: "slice_from (mk_slice (Farr v) (swapSize v)) (bufferOffset v) = Some buf"
        using buf(1) [OF True] swi_offset(3) [OF I] by simp
      have off: "bufferOffset v \<le> ?off" "?off \<le> int (swapSize v)"
        and at: "s_arr b = Farr v" "int (s_off b + s_len b) = ?off"
        using b front by (auto simp: slice_upto_def slice_from_def mk_slice_def split: if_splits)
      have "item {Farr v} w' r" using at by (simp add: w' item_def set_cb_def Farr_def)
      with swi_set_cb [OF I r _ off, of "c\<lparr>cb_useSwap := True, cb_buffer := Some b\<rparr>" "Some r"] t m show ?thesis
        by (simp add: w' same_meta_def)
    next
      case False
      with fin rf buf(2) [OF False None] have t: "fin" and w': "w' = set_cb r (c\<lparr>cb_buffer := Some (mk_slice (Back r) backBufferSize)\<rparr>) v"
        by (auto simp: finish_read_def Let_def w2 set_cb_def)
      have "item {Farr v} w' r" using rf by (simp add: w' item_def mk_slice_def)
      with swi_set_cb [OF I r _ order_refl swi_offset(2) [OF I], of "c\<lparr>cb_buffer := Some (mk_slice (Back r) backBufferSize)\<rparr>" "Some r"]
        t m show ?thesis
        by (simp add: w' same_meta_def set_cb_def)
    qed
  qed
qed

lemma tryRead_swi:
  assumes ret: "tryRead E f r w = Some (fin, w')" and I: "swi E owned snap None H Q w" and r: "r \<in> set H \<union> qset Q"
  shows "swi E owned snap (if fin then Some r else None) H Q w'"
proof -
  let ?y = "yield E w"
  from ret obtain buf us bb w1 a w2 where sb: "select_buffer r ?y = Some (buf, us, bb, w1)"
    and rl: "read_loop E f buf r w1 = Some (a, w2)"
    and rest: "(if a = WouldBlock then Some (False, w2) else finish_read buf us bb r w2) = Some (fin, w')"
    by (auto simp: tryRead_def elim!: bind_SomeE)
  have Iy: "swi E owned snap None H Q ?y" by (rule swi_yield [OF I])
  note s = select_buffer_swi [OF sb Iy r]
  obtain v where v: "swi E owned snap None H Q v" "aiocbs v = aiocbs w1" "tview v = tview w1" "outcome r a v w2"
    by (rule read_loop_swi [OF rl s(1) r s(6)])
  show ?thesis
  proof (cases "a = WouldBlock")
    case True
    with rest v(1,4) show ?thesis by (simp add: outcome_def)
  next
    case False
    obtain c where w2: "w2 = set_cb r c v" and m: "same_meta c (aiocbs v r)" and c: "cb_buffer c = cb_buffer (aiocbs v r)"
      "cb_useSwap c = cb_useSwap (aiocbs v r)" "cb_readFull c = cb_readFull (aiocbs v r)"
    proof (cases "a = Finished")
      case True
      with v(4) that show ?thesis by (auto simp: outcome_def)
    next
      case False
      with v(4) have "w2 = set_cb r (aiocbs v r) v" by (simp add: outcome_def set_cb_def)
      with that [of "aiocbs v r"] show ?thesis by (simp add: same_meta_def)
    qed
    have cb: "cb_buffer (aiocbs v r) = cb_buffer (aiocbs ?y r)" using v(2) s(2) by simp
    have nus: "cb_buffer (aiocbs ?y r) = Some b \<Longrightarrow> \<not> us \<and> \<not> bb" for b using s(3) by blast
    show ?thesis
    proof (rule finish_read_swi [OF _ v(1) r m c])
      show "finish_read buf us bb r (set_cb r c v) = Some (fin, w')" using rest False w2 by simp
      show none: "us \<Longrightarrow> cb_buffer (aiocbs v r) = None" "bb \<Longrightarrow> cb_buffer (aiocbs v r) = None"
        using nus cb by (cases "cb_buffer (aiocbs ?y r)"; simp)+
      show "us \<Longrightarrow> slice_from (swapBufferFront v) (bufferOffset v) = Some buf"
        using s(4) none(1) cb tviewD(5,7) [OF v(3)] by simp
      show "\<not> us \<Longrightarrow> cb_buffer (aiocbs v r) = None \<Longrightarrow> buf = mk_slice (Back r) backBufferSize \<and> bb"
        using s(5) cb by simp
    qed
  qed
qed

section \<open>Writing and delivery\<close>

lemma write_loop_swi:
  assumes ret: "write_loop E f buf r w = Some (a, w')" and I: "swi E owned snap None H Q w" and r: "r \<in> set H \<union> qset Q"
    and b: "cb_buffer (aiocbs w r) = Some b"
  shows "swi E owned snap None H Q w'"
proof -
  let ?J = "\<lambda>v. swi E owned snap None H Q v \<and> cb_buffer (aiocbs v r) = Some b"
  have "?J w'"
  proof (rule retry_loop_inv [where body = "write_once E f buf r" and I = ?J])
    show "go_loop (\<lambda>w. retry_unless (write_once E f buf r w)) w = Some (a, w')" using ret by (simp add: write_loop_def)
    show "?J w" using I b by simp
  next
    fix v a w1 assume once: "write_once E f buf r v = Some (a, w1)" and J: "?J v"
    obtain p where p: "slice_from buf (cb_size (aiocbs v r)) = Some p"
      using once by (auto simp: write_once_def split: option.splits)
    obtain nw ew wo where rr: "e_rawWrite E f (mem_read (mem v) p) (os v) = ((nw, ew), wo)" by (metis prod.exhaust)
    let ?c = "(aiocbs v r)\<lparr>cb_err := map_option ErrSys ew\<rparr>"
    let ?c1 = "?c\<lparr>cb_size := cb_size ?c + nw\<rparr>"
    let ?v = "v\<lparr>os := wo\<rparr>"
    have os: "os_ok E owned" using J by (simp add: swi_def)
    have Iv: "swi E owned snap None H Q ?v" by (rule swi_world) (use J os_okD(7) [OF os rr] in simp_all)
    have f: "fresh (aiocbs v r)" using J r by (auto simp: swi_def tb_def)
    have w1: "w1 = set_cb r ?c ?v \<or> w1 = set_cb r ?c1 ?v"
      using once p rr by (auto simp: write_once_def Let_def set_cb_def split: if_splits)
    show "?J w1"
      using w1 J f swi_user(1) [OF Iv r, of ?c b] swi_user(1) [OF Iv r, of ?c1 b]
      by (auto simp: same_meta_def fresh_def set_cb_def)
  qed
  then show ?thesis by simp
qed

lemma tryWrite_swi:
  assumes ret: "tryWrite E f r w = Some (fin, w')" and I: "swi E owned snap None H Q w" and r: "r \<in> set H \<union> qset Q"
  shows "swi E owned snap None H Q w'"
proof (cases "cb_buffer (aiocbs w r)")
  case None
  with ret I show ?thesis by (simp add: tryWrite_def)
next
  case (Some b)
  with ret obtain a where "write_loop E f b r w = Some (a, w')"
    by (auto simp: tryWrite_def elim!: bind_SomeE split: if_splits)
  from write_loop_swi [OF this I r Some] show ?thesis .
qed

lemma swi_move:
  assumes I: "swi E owned snap X H Q w" and ow: "own owned H' Q' w'"
    and io: "\<And>r. io (aiocbs w' r) = io (aiocbs w r)" and v: "tview w' = tview w" and b: "bview w' = bview w"
    and s: "set H' \<union> qset Q' \<union> set (pendingCreate w') \<subseteq> set H \<union> qset Q \<union> set (pendingCreate w)"
    and X: "\<And>r. X = Some r \<Longrightarrow> r \<in> set H' \<union> qset Q'"
  shows "swi E owned snap X H' Q' w'"
proof -
  have "tb X H Q w" using I by (simp add: swi_def)
  then have "tb X H' Q' w'" by (rule tb_move [OF _ io v b s])
  moreover have "held snap w' = held snap w" by (rule held_cong) (use b in \<open>simp_all add: bview_def\<close>)
  moreover have "wphase w' = wphase w" using b by (simp add: bview_def)
  ultimately show ?thesis using I ow X by (simp add: swi_def)
qed

lemma no_idx_io: "no_idx c = no_idx c' \<Longrightarrow> io c = io c'"
  by (simp add: io_def no_idx_fields [of c c'])

lemma leave_heap_swi:
  assumes I: "swi E owned snap (Some r) (r # H) Q w" and l: "leave_heap r w = Some w1"
  shows "swi E owned snap (Some r) (r # H) Q w1" and "cb_idx (aiocbs w1 r) = -1"
proof -
  have ow: "own owned (r # H) Q w" using I by (simp add: swi_def)
  obtain w2 where w2: "leave_heap r w = Some w2" "own owned (r # H) Q w2" "cb_idx (aiocbs w2 r) = -1"
    "\<And>q. no_idx (aiocbs w2 q) = no_idx (aiocbs w q)"
    by (rule leave_heap_own [OF ow]) blast
  then have e: "w2 = w1" using l by simp
  show "cb_idx (aiocbs w1 r) = -1" using w2 e by simp
  have v: "tview w1 = tview w" "bview w1 = bview w" "pendingCreate w1 = pendingCreate w"
    using l by (auto simp: leave_heap_def tview_def bview_def split: if_splits option.splits)
  show "swi E owned snap (Some r) (r # H) Q w1"
  proof (rule swi_move [OF I])
    show "own owned (r # H) Q w1" using w2(2) e by simp
    show "io (aiocbs w1 q) = io (aiocbs w q)" for q using no_idx_io [OF w2(4)] e by simp
  qed (use v in simp_all)
qed

lemma swi_send:
  assumes I: "swi E owned snap (Some r) (r # H) Q w" and ow: "own owned H Q (w\<lparr>chResults := chResults w @ [r]\<rparr>)"
  shows "swi E owned snap None H Q (w\<lparr>chResults := chResults w @ [r]\<rparr>)"
proof -
  let ?w = "w\<lparr>chResults := chResults w @ [r]\<rparr>"
  have tb: "tb (Some r) (r # H) Q w" and ow0: "own owned (r # H) Q w" and ph: "wphase w \<noteq> WNotify"
    using I by (simp_all add: swi_def)
  have nr: "r \<notin> set H \<union> qset Q \<union> set (pendingCreate w)" using ow0 by (auto simp: own_def own_locs_def locs_def)
  have s: "Farr ?w = Farr w" "chan_arrays ?w = chan_arrays w" "batch_arrays ?w = batch_arrays w" "swap_rot ?w = swap_rot w"
    "linked ?w = linked w"
    by (simp_all add: Farr_def Barr_def Marr_def chan_arrays_def batch_arrays_def swap_rot_def linked_def)
  have i: "item A ?w q = item A w q" for A q by (rule item_cong) (simp_all add: Farr_def)
  have "item (chan_arrays w) w r" using tb by (auto simp: tb_def chan_arrays_def intro: item_mono)
  moreover have "\<forall>q \<in> set H \<union> qset Q \<union> set (pendingCreate w). fresh (aiocbs w q)" using tb nr by (auto simp: tb_def)
  ultimately have "tb None H Q ?w" using tb ph by (simp add: tb_def s i)
  moreover have "held snap ?w = held snap w" by (rule held_cong) simp_all
  ultimately show ?thesis using I ow by (simp add: swi_def)
qed

lemma swi_forget:
  assumes I: "swi E owned snap (Some r) (r # H) Q w" and ow: "own owned H Q w"
  shows "swi E owned snap None H Q w"
proof -
  have "r \<notin> set H \<union> qset Q \<union> set (pendingCreate w)" using I by (auto simp: swi_def own_def own_locs_def locs_def)
  moreover have "\<forall>q \<in> set (r # H) \<union> qset Q \<union> set (pendingCreate w). q \<noteq> r \<longrightarrow> fresh (aiocbs w q)"
    using I by (simp add: swi_def tb_def)
  ultimately have "\<forall>q \<in> set H \<union> qset Q \<union> set (pendingCreate w). fresh (aiocbs w q)" by auto
  with I ow show ?thesis by (simp add: swi_def tb_def)
qed

lemma send_once_swi:
  assumes once: "send_once E r w = (b, w1)" and I: "swi E owned snap (Some r) (r # H) Q w" and i: "cb_idx (aiocbs w r) = -1"
  shows "if b then swi E owned snap None H Q w1 else swi E owned snap (Some r) (r # H) Q w1 \<and> cb_idx (aiocbs w1 r) = -1"
proof -
  let ?y = "yield E w"
  have Iy: "swi E owned snap (Some r) (r # H) Q ?y" by (rule swi_yield [OF I])
  have os: "os_ok E owned" and ow: "own owned (r # H) Q w" and oy: "own owned (r # H) Q ?y"
    using I Iy by (simp_all add: swi_def)
  have iy: "cb_idx (aiocbs ?y r) = -1" using yield_keeps [OF ow os, of r] i by simp
  note sent = swi_send [OF Iy own_send(1) [OF oy iy]]
  have gone: "swi E owned snap None H Q ?y" if "die ?y" by (rule swi_forget [OF Iy own_send(2) [OF oy iy that]])
  obtain b' wo where sel: "e_select E (os ?y) = (b', wo)" by fastforce
  have le: "owned (os ?y) \<subseteq> owned wo" using os_okD(13) [OF os sel] by simp
  show ?thesis
    using once sel sent gone Iy iy swi_world [OF sent, of wo] swi_world [OF gone, of wo] le
    by (auto simp: send_once_def Let_def split: if_splits)
qed

lemma deliver_swi:
  assumes d: "deliver E r w = Some w'" and I: "swi E owned snap (Some r) (r # H) Q w"
  shows "swi E owned snap None H Q w'"
proof -
  from d obtain w1 where l: "leave_heap r w = Some w1" and sl: "send_loop E r w1 = Some w'"
    by (auto simp: deliver_def elim: bind_SomeE)
  let ?J = "\<lambda>v. swi E owned snap (Some r) (r # H) Q v \<and> cb_idx (aiocbs v r) = -1"
  show ?thesis
  proof (rule go_loop_inv [OF sl [unfolded send_loop_def], where I = ?J])
    show "?J w1" using leave_heap_swi [OF I l] by simp
  next
    fix v v' assume J: "?J v" and "(case send_once E r v of (t, u) \<Rightarrow> Some (if t then Inr u else Inl u)) = Some (Inl v')"
    then show "?J v'" using send_once_swi [of E r v False v' owned snap H Q] by (auto split: prod.splits if_splits)
  next
    fix v v' assume J: "?J v" and "(case send_once E r v of (t, u) \<Rightarrow> Some (if t then Inr u else Inl u)) = Some (Inr v')"
    then show "swi E owned snap None H Q v'"
      using send_once_swi [of E r v True v' owned snap H Q] by (auto split: prod.splits if_splits)
  qed
qed

section \<open>The loop keeps the batch\<close>

lemma swi_accept:
  assumes I: "swi E owned snap None [] Q w"
  shows "swi E owned snap None (pendingCreate w) Q
     (w\<lparr>chPendingNotify := False, pendingCreate := [], pendingProcessing := ps\<rparr>)"
  by (rule swi_move [OF I]) (use I own_accept in \<open>auto simp: swi_def tview_def bview_def\<close>)

lemma swi_drained:
  assumes I: "swi E owned snap None [] Q w" and di: "die w" and d: "chResults w = r # rest"
  shows "swi E owned snap None [] Q
     ((set_cb r zero_aiocb w)\<lparr>mem := (mem w)(Back r := replicate backBufferSize 0), chResults := rest\<rparr>)"
    (is "swi E owned snap None [] Q ?w")
proof -
  have tb: "tb None [] Q w" and ow: "own owned [] Q w" and h: "held snap w" using I by (simp_all add: swi_def)
  have out: "q \<noteq> r" if "q \<in> qset Q \<union> set (recycles w) \<union> set rest \<union> set (pendingCreate w)" for q
    using ow that d by (auto simp: own_def own_locs_def locs_def)
  have s: "Farr ?w = Farr w" "batch_arrays ?w = batch_arrays w" "chan_arrays ?w = chan_arrays w" "chResults ?w = rest"
    "recycles ?w = recycles w" "pendingCreate ?w = pendingCreate w" "wphase ?w = wphase w"
    by (simp_all add: Farr_def Barr_def Marr_def chan_arrays_def batch_arrays_def set_cb_def)
  have rot: "swap_rot ?w" using tb by (auto simp: tb_def swap_rot_def mk_slice_def set_cb_def)
  have l: "linked ?w = linked w"
    unfolding linked_def by (rule list.rel_cong) (use out in \<open>auto simp: set_cb_def\<close>)
  have i: "item A ?w q = item A w q" if "q \<noteq> r" for A q
    by (rule item_cong) (simp_all add: that Farr_def set_cb_def)
  have "tb None [] Q ?w"
    unfolding tb_def
  proof (intro conjI)
    show "\<forall>q\<in>set (chResults ?w). item (chan_arrays ?w) ?w q" "\<forall>q\<in>set (recycles ?w). item (batch_arrays ?w) ?w q"
      using tb out by (auto simp: tb_def s i d)
    show "\<forall>q \<in> set [] \<union> qset Q \<union> set (pendingCreate ?w). None \<noteq> Some q \<longrightarrow> fresh (aiocbs ?w q)"
      using tb out by (auto simp: tb_def s set_cb_def)
  qed (use tb rot l in \<open>simp_all add: tb_def s d\<close>)
  moreover have "held snap ?w"
  proof (rule held_keep [OF h])
    fix x b assume x: "x \<in> set (results w)" "r_Buffer x = Some b" "s_arr b \<notin> range User"
    obtain q where "q \<in> set (recycles w)" "s_arr b = Back q \<or> s_arr b \<in> {Farr w, Marr w, Barr w}"
      by (rule held_slice [OF tb x])
    moreover have "Back r \<notin> {Farr w, Marr w, Barr w}"
      using tb by (auto simp: tb_def swap_rot_def Farr_def Marr_def Barr_def mk_slice_def)
    ultimately have "s_arr b \<noteq> Back r" using out by auto
    then show "mem_read (mem ?w) b = mem_read (mem w) b" by (simp add: mem_read_def)
  qed (simp_all add: set_cb_def)
  moreover have "own owned [] Q ?w" by (rule own_drained [OF ow di d])
  ultimately show ?thesis using I by (simp add: swi_def set_cb_def)
qed

lemma swi_ended:
  assumes I: "swi E owned snap None [] Q w" and "die w"
  shows "swi E owned snap None [] Q (w\<lparr>pendingCreate := [], pendingProcessing := [], loopDone := True\<rparr>)"
  by (rule swi_move [OF I]) (use assms own_ended in \<open>auto simp: swi_def tview_def bview_def\<close>)

text \<open>The moves of the loop do not touch the data.\<close>

definition data_kept :: "'w watcher \<Rightarrow> 'w watcher \<Rightarrow> bool" where
  "data_kept w w' \<longleftrightarrow> (\<forall>r. io (aiocbs w' r) = io (aiocbs w r)) \<and> tview w' = tview w \<and> bview w' = bview w
     \<and> pendingCreate w' = pendingCreate w"

lemma data_kept_dequeue: "data_kept w (dequeue s d e w)"
  by (simp add: data_kept_def dequeue_def set_desc_def tview_def bview_def)

lemma data_kept_set_err: "data_kept w (set_err r e w)"
  by (simp add: data_kept_def set_err_def set_cb_def tview_def bview_def io_def)

lemma data_kept_wait: "data_kept w (track_deadline E r (enqueue s d r w))"
proof -
  let ?w = "enqueue s d r w"
  have e: "data_kept w ?w"
    by (simp add: data_kept_def enqueue_def set_desc_def set_cb_def tview_def bview_def io_def)
  obtain S T where p: "timeouts_Push r (aiocbs ?w, timeouts ?w) = (S, T)" by fastforce
  have "idx_frame (insert r (set (timeouts ?w))) (aiocbs ?w) S"
    using timeouts_Push_frame [of r "(aiocbs ?w, timeouts ?w)"] p by simp
  then have io: "io (S q) = io (aiocbs ?w q)" for q by (intro no_idx_io) (simp add: idx_frame_def)
  with e p show ?thesis
    by (simp add: data_kept_def track_deadline_def timer_Reset_def tview_def bview_def Let_def split: prod.splits)
qed

lemma data_kept_register: "register E f r w = (d, w') \<Longrightarrow> data_kept w w'"
  by (auto simp: data_kept_def register_def fdDescPool_Get_def set_desc_def tview_def bview_def Let_def
      split: prod.splits if_splits)

lemma data_kept_unregister: "data_kept w (unregister E f d w)"
  by (simp add: data_kept_def unregister_def set_desc_def tview_def bview_def)

lemma data_kept_pop:
  assumes "timeouts_Pop (aiocbs w, timeouts w) = Some (x, (s, h))"
  shows "data_kept w (w\<lparr>aiocbs := set_idx s r (-1), timeouts := h\<rparr>)"
proof -
  have "idx_frame (set (timeouts w)) (aiocbs w) s" using timeouts_Pop_frame [OF assms] by simp
  then have "io (set_idx s r (-1) q) = io (aiocbs w q)" for q by (intro no_idx_io) (simp add: idx_frame_def)
  then show ?thesis by (simp add: data_kept_def tview_def bview_def)
qed

lemma swi_kept:
  assumes "swi E owned snap X H Q w" and "data_kept w w'" and "own owned H' Q' w'"
    and "set H' \<union> qset Q' \<subseteq> set H \<union> qset Q" and "\<And>r. X = Some r \<Longrightarrow> r \<in> set H' \<union> qset Q'"
  shows "swi E owned snap X H' Q' w'"
  by (rule swi_move [OF assms(1,3)]) (use assms(2,4,5) in \<open>auto simp: data_kept_def\<close>)

lemma swi_same:
  assumes "swi E owned snap X H Q w" and "data_kept w w'" and "own owned H Q w'"
  shows "swi E owned snap X H Q w'"
  using assms(1) by (intro swi_kept [OF assms(1,2,3)]) (auto simp: swi_def)

lemma swi_take:
  assumes I: "swi E owned snap X H Q w" and x: "x \<in> set (Q d s)" and X: "\<And>r. X = Some r \<Longrightarrow> r = el_Value x"
  shows "swi E owned snap X (el_Value x # H) (qdrop d s (el_id x) Q) w"
proof -
  have ow: "own owned H Q w" using I by (simp add: swi_def)
  show ?thesis
  proof (rule swi_kept [OF I _ own_take [OF ow x]])
    show "set (el_Value x # H) \<union> qset (qdrop d s (el_id x) Q) \<subseteq> set H \<union> qset Q"
      using qset_qdrop [OF ow x] own_queueD(7) [OF ow x] by auto
  qed (use X in \<open>auto simp: data_kept_def\<close>)
qed

lemma swi_dequeue: "swi E owned snap X H Q w \<Longrightarrow> swi E owned snap X H Q (dequeue s d e w)"
  by (rule swi_same [OF _ data_kept_dequeue]) (simp_all add: swi_def own_dequeue)

lemma swi_set_err: "swi E owned snap X H Q w \<Longrightarrow> swi E owned snap X H Q (set_err r e w)"
  by (rule swi_same [OF _ data_kept_set_err]) (simp_all add: swi_def own_set_err)

lemma swi_wait:
  assumes I: "swi E owned snap None (r # H) Q w" and pre: "descs w f = Some d" "fd_ptr (fdDescs w d) = cb_ptr (aiocbs w r)"
    "cb_op (aiocbs w r) = side_op s" "r \<notin> set (timeouts w)"
  shows "swi E owned snap None H (qpush d s \<lparr>el_id = next_elem w, el_Value = r\<rparr> Q) (track_deadline E r (enqueue s d r w))"
  by (rule swi_kept [OF I data_kept_wait own_wait [OF _ pre]])
    (use I in \<open>auto simp: swi_def qset_qpush\<close>)

lemma swi_drop:
  assumes I: "swi E owned snap None (r # H) Q w" and "cb_op (aiocbs w r) = opDelete" "r \<notin> set (timeouts w)"
  shows "swi E owned snap None H Q w"
  by (rule swi_kept [OF I _ own_drop]) (use assms in \<open>auto simp: swi_def data_kept_def\<close>)

lemma swi_register:
  assumes I: "swi E owned snap X H Q w" and reg: "register E f r w = (d, w')"
    and pre: "connIdents w (cb_ptr (aiocbs w r)) = None" "descs w f = None" "f \<in> owned (os w)"
  shows "swi E owned snap X H Q w'"
proof (rule swi_same [OF I data_kept_register [OF reg]])
  have o: "own owned H Q w" "os_ok E owned" using I by (simp_all add: swi_def)
  show "own owned H Q w'" by (rule own_register(1) [OF reg o pre])
qed

lemma swi_unregister:
  assumes I: "swi E owned snap X H Q w" and d: "descs w f = Some d" and em: "\<And>s. Q d s = []"
  shows "swi E owned snap X H Q (unregister E f d w)"
proof (rule swi_same [OF I data_kept_unregister])
  have "own owned H Q w" "os_ok E owned" using I by (simp_all add: swi_def)
  then show "own owned H Q (unregister E f d w)" using d em by (intro own_unregister)
qed

lemma swi_pop:
  assumes I: "swi E owned snap X (r # H) Q w" and top: "timeouts w = r # rest"
    and pop: "timeouts_Pop (aiocbs w, timeouts w) = Some (x, (s, h))"
  shows "swi E owned snap X (r # H) Q (w\<lparr>aiocbs := set_idx s r (-1), timeouts := h\<rparr>)"
proof (rule swi_same [OF I data_kept_pop [OF pop]])
  have o: "own owned (r # H) Q w" using I by (simp add: swi_def)
  show "own owned (r # H) Q (w\<lparr>aiocbs := set_idx s r (-1), timeouts := h\<rparr>)" by (rule own_Pop(1) [OF o top pop])
qed

lemma swi_flag:
  assumes "swi E owned snap None [] Q w" and "data_kept w w'"
    and "own owned [] Q w \<Longrightarrow> os_ok E owned \<Longrightarrow> own owned [] Q w'"
  shows "swi E owned snap None [] Q w'"
  by (rule swi_same [OF assms(1,2)]) (use assms in \<open>simp add: swi_def\<close>)

interpretation swap_loop: timer_blind E owned "swi E owned snap None" "\<lambda>r. swi E owned snap (Some r)"
proof (unfold_locales, goal_cases)
  case 1 then show ?case by (simp add: swi_def)
next
  case 2 then show ?case by (simp add: swi_def)
next
  case 3 then show ?case by (simp add: swi_def)
next
  case 4 then show ?case by (simp add: swi_def)
next
  case 5 then show ?case by (intro swi_finish) simp_all
next
  case 6 then show ?case using tryRead_swi by fastforce
next
  case 7 then show ?case using tryRead_swi by fastforce
next
  case 8 then show ?case using tryWrite_swi by blast
next
  case 9 then show ?case using tryWrite_swi swi_finish by blast
next
  case 10 then show ?case using deliver_swi by blast
next
  case 11 then show ?case by (intro swi_take) simp_all
next
  case 12 then show ?case by (intro swi_dequeue swi_take) simp_all
next
  case 13 then show ?case by (rule swi_dequeue)
next
  case 14 then show ?case by (rule swi_set_err)
next
  case 15 then show ?case by (rule swi_wait)
next
  case 16 then show ?case by (rule swi_drop)
next
  case 17 then show ?case by (rule swi_register)
next
  case 18 then show ?case
    by (rule swi_unregister)
next
  case 19 then show ?case by (rule swi_world)
next
  case 20 then show ?case by (rule swi_yield)
next
  case 21 then show ?case by (rule swi_accept)
next
  case 22 then show ?case by (rule swi_flag) (simp_all add: data_kept_def tview_def bview_def)
next
  case 23 then show ?case by (rule swi_flag) (simp_all add: data_kept_def tview_def bview_def)
next
  case 24 then show ?case by (rule swi_flag) (simp_all add: data_kept_def tview_def bview_def)
next
  case 25 then show ?case
    by (rule swi_flag) (simp_all add: own_stop, simp add: data_kept_def tview_def bview_def stop_def split: prod.splits)
next
  case 26 then show ?case by (rule swi_flag) (simp_all add: data_kept_def tview_def bview_def)
next
  case 27 then show ?case by (rule swi_flag) (simp_all add: data_kept_def tview_def bview_def)
next
  case 28 then show ?case by (intro swi_drained)
next
  case 29 then show ?case by (intro swi_ended)
next
  case 30 then show ?case by (rule swi_pop)
next
  case (31 H Q w t)
  have "own owned H Q w" using 31 by (simp add: swi_def)
  with 31 show ?case by (intro swi_same [OF 31]) (simp_all add: data_kept_def tview_def bview_def)
next
  case (32 H Q w)
  have "own owned H Q w" using 32 by (simp add: swi_def)
  with 32 show ?case by (intro swi_same [OF 32]) (simp_all add: data_kept_def tview_def bview_def)
qed

lemma tb_new:
  assumes "NewWatcherSize E n m world = Inr w"
  shows "tb None [] (qs w) w"
proof -
  have q: "qset (qs w) = {}"
    using assms by (auto simp: NewWatcherSize_def qset_def qs_def split: prod.splits option.splits)
  have "swap_rot w" unfolding swap_rot_def
    by (rule conjI, rule exI [of _ 0], rule exI [of _ 1], rule exI [of _ 2])
      (use assms in \<open>auto simp: NewWatcherSize_def split: prod.splits option.splits\<close>)
  with assms q show ?thesis
    by (auto simp: tb_def NewWatcherSize_def linked_def split: prod.splits option.splits)
qed

lemma reachable_swi:
  assumes "os_ok E owned" "own_arrays E" "prompt_notify E" and "reachable E w"
  shows "swi E owned None None [] (qs w) w"
proof (rule swap_loop.reachable_inv [OF assms(4)])
  fix n m world v assume new: "NewWatcherSize E n m world = Inr v"
  then have "wphase v = WIdle" by (auto simp: NewWatcherSize_def split: prod.splits option.splits)
  with new assms(1-3) show "swi E owned None None [] (qs v) v"
    by (simp add: swi_def callers_def own_new tb_new held_def)
qed

end
