(* ===== verification/Swap_Results.thy ===== *)
theory Swap_Results
  imports Swap_Buffers
begin

text \<open>
  The results of \<open>WaitIO\<close> and the shared read buffers: the batch a caller holds stays intact when
  \<open>WaitIO\<close> notifies the loop at once, and a run in which the loop gets between the last look at the
  channel and the notification, where a later read overwrites a result that the caller still holds.
\<close>

section \<open>Results stay valid until the next WaitIO\<close>

text \<open>Environments in which \<open>WaitIO\<close> returns promptly; in the second one nobody calls it.\<close>

definition prompt_env :: "world env" where
  "prompt_env = sample_env\<lparr>e_sched := (\<lambda>v. case sample_sched v of (as, v') \<Rightarrow> (filter caller_act as @ [AWaitNotify], v'))\<rparr>"

definition idle_env :: "world env" where
  "idle_env = sample_env\<lparr>e_sched := (\<lambda>v. case sample_sched v of
     (as, v') \<Rightarrow> (filter (\<lambda>a. caller_act a \<and> a \<noteq> AWaitEnter) as @ [AWaitNotify], v'))\<rparr>"

lemma os_ok_sched:
  assumes "os_ok E owned" and "\<And>v x v'. s v = (x, v') \<Longrightarrow> owned v' = owned v"
  shows "os_ok (E\<lparr>e_sched := s\<rparr>) owned"
  using assms unfolding os_ok_def by simp

lemma sample_sched_owned: "sample_sched v = (as, v') \<Longrightarrow> sample_owned v' = sample_owned v"
  by (auto simp: sample_sched_def sample_owned_def split: list.splits)

lemma prompt_env_ok: "os_ok prompt_env sample_owned" "os_ok idle_env sample_owned"
  unfolding prompt_env_def idle_env_def
  by (rule os_ok_sched [OF sample_os_ok], auto split: prod.splits dest: sample_sched_owned)+

lemma notify_last: "wphase (run_acts E (acts @ [AWaitNotify]) w) \<noteq> WNotify"
  by (simp add: run_acts_def WaitIO_notify_def)

lemma prompt_env_prompt: "prompt_notify prompt_env" "prompt_notify idle_env"
  unfolding prompt_notify_def yield_def prompt_env_def idle_env_def
  using notify_last by (auto split: prod.splits)

lemma prompt_env_callers: "own_arrays prompt_env" "own_arrays idle_env" "no_WaitIO idle_env"
  by (auto simp: own_arrays_def no_WaitIO_def prompt_env_def idle_env_def caller_act_iff split: prod.splits)

text \<open>A read of three bytes is delivered and collected; two more bytes arrive while the batch is held.\<close>

definition batch_world :: world where
  "batch_world = sample_world\<lparr>
     wo_sched := [[ARead (Some 1) sample_conn None], [], [], [AWaitEnter, AWaitRecv, AWaitDrained],
                  [ARead (Some 2) sample_conn None], [], []],
     wo_reads := [(3, None, [1, 2, 3]), (2, None, [9, 9])]\<rparr>"

definition run_pending :: "world env \<Rightarrow> world watcher \<Rightarrow> world watcher" where
  "run_pending E w = the (loop_pending E ((yield E w)\<lparr>chPendingNotify := False\<rparr>))"

definition batch_state :: "world watcher" where
  "batch_state = yield prompt_env (run_pending prompt_env
     (case NewWatcherSize prompt_env 8 (\<lambda>_. []) batch_world of Inr w \<Rightarrow> w))"

definition later_state :: "world watcher" where
  "later_state = run_pending idle_env batch_state"

lemmas eval_batch =
  batch_state_def later_state_def run_pending_def batch_world_def prompt_env_def idle_env_def caller_act_def
  eval_api eval_loop eval_sample

lemma run_pending_steps:
  assumes "\<not> Option.is_none (loop_pending E ((yield E w)\<lparr>chPendingNotify := False\<rparr>))"
    and "\<not> loopDone (yield E w)" "chPendingNotify (yield E w)"
  shows "(loop_step E)\<^sup>*\<^sup>* w (run_pending E w)"
proof -
  have "loop_step E (yield E w) (run_pending E w)"
    by (rule loop_step.pending) (use assms in \<open>auto simp: run_pending_def Option.is_none_def\<close>)
  moreover have "loop_step E w (yield E w)" by (rule loop_step.other)
  ultimately show ?thesis by simp
qed

lemma reachable_steps: "reachable E w \<Longrightarrow> (loop_step E)\<^sup>*\<^sup>* w w' \<Longrightarrow> reachable E w'"
  by (rotate_tac, induction rule: rtranclp_induct) (auto intro: reachable.step)

lemma batch_state_reachable: "reachable prompt_env batch_state"
proof -
  let ?w0 = "case NewWatcherSize prompt_env 8 (\<lambda>_. []) batch_world of Inr w \<Rightarrow> w"
  have "reachable prompt_env ?w0"
    by (rule reachable.new [of _ 8 "\<lambda>_. []" batch_world]) (simp add: NewWatcherSize_def prompt_env_def sample_env_def)
  moreover have "\<not> Option.is_none (loop_pending prompt_env ((yield prompt_env ?w0)\<lparr>chPendingNotify := False\<rparr>))"
    "\<not> loopDone (yield prompt_env ?w0)" "chPendingNotify (yield prompt_env ?w0)"
    by (simp_all add: eval_batch)
  ultimately have "reachable prompt_env (run_pending prompt_env ?w0)"
    by (intro reachable_steps [OF _ run_pending_steps])
  then show ?thesis unfolding batch_state_def by (rule reachable.step [OF _ loop_step.other])
qed

lemma later_state_steps: "(loop_step idle_env)\<^sup>*\<^sup>* batch_state later_state"
proof -
  have "\<not> Option.is_none (loop_pending idle_env ((yield idle_env batch_state)\<lparr>chPendingNotify := False\<rparr>))"
    "\<not> loopDone (yield idle_env batch_state)" "chPendingNotify (yield idle_env batch_state)"
    by (simp_all add: eval_batch)
  then show ?thesis unfolding later_state_def by (rule run_pending_steps)
qed

text \<open>
  C3. The results of a \<open>WaitIO\<close> call stay valid until the next call: whatever steps the loop, the
  callers and the runtime take meanwhile, the result slice does not change, nor do the bytes in the
  internal buffers (the shared read buffers and the requests' own) that the results refer to. This is
  shown for runs in which callers pass only their own arrays and no step of the loop separates
  \<open>WaitIO\<close>'s last look at the channel from its notification.
\<close>

theorem results_valid_until_next_WaitIO:
  assumes "os_ok E owned" "own_arrays E" "prompt_notify E" and "reachable E w" and "wphase w = WIdle"
    and "os_ok E' owned" "own_arrays E'" "prompt_notify E'" "no_WaitIO E'"
    and "(loop_step E')\<^sup>*\<^sup>* w w'"
  shows "results w' = results w \<and> (\<forall>x \<in> set (results w). \<forall>b. r_Buffer x = Some b \<longrightarrow> s_arr b \<notin> range User \<longrightarrow>
           mem_read (mem w') b = mem_read (mem w) b)"
proof -
  let ?snap = "Some (results w, mem w)"
  have "swi E owned None None [] (qs w) w" by (rule reachable_swi [OF assms(1-4)])
  then have start: "swi E' owned ?snap None [] (qs w) w"
    using assms(5-9) by (simp add: swi_def callers_def held_def)
  from assms(10) have "swi E' owned ?snap None [] (qs w') w'"
    by induction (use start swap_loop.loop_step_inv in blast)+
  then show ?thesis by (simp add: swi_def held_def)
qed

theorem results_valid_until_next_WaitIO_witness:
  "map (\<lambda>x. map_option (mem_read (mem later_state)) (r_Buffer x)) (results batch_state) = [Some [1, 2, 3]]
   \<and> results later_state = results batch_state \<and> mem later_state (Swap 1) = 9 # 9 # replicate 6 0"
proof -
  let ?x = "\<lparr>r_Operation = OpRead, r_Context = Some 1, r_Conn = Some 7,
    r_Buffer = Some \<lparr>s_arr = Swap 0, s_off = 0, s_len = 3, s_cap = 8\<rparr>, r_IsSwapBuffer = True, r_Size = 3, r_Error = None\<rparr>"
  have idle: "wphase batch_state = WIdle" and res: "results batch_state = [?x]"
    and bytes: "mem_read (mem batch_state) \<lparr>s_arr = Swap 0, s_off = 0, s_len = 3, s_cap = 8\<rparr> = [1, 2, 3]"
    and "mem later_state (Swap 1) = 9 # 9 # replicate 6 0"
    by (simp_all add: eval_batch)
  with results_valid_until_next_WaitIO [OF prompt_env_ok(1) prompt_env_callers(1) prompt_env_prompt(1)
      batch_state_reachable idle prompt_env_ok(2) prompt_env_callers(2) prompt_env_prompt(2) prompt_env_callers(3)
      later_state_steps]
  show ?thesis by auto
qed

section \<open>The race\<close>

text \<open>
  The same without the condition on \<open>WaitIO\<close>: twice, the loop completes reads between the test for an
  empty channel and the notification. Five reads of one byte are in flight; the third one lies in the
  first shared buffer, the fourth in the second, the fifth in the third, and all three are returned in
  one batch. Its notification lets the next read start over in the first buffer.
\<close>

definition race_env :: "world env" where
  "race_env = sample_env\<lparr>e_sched := (\<lambda>v. case sample_sched v of (as, v') \<Rightarrow> (filter caller_act as, v'))\<rparr>"

definition race_world :: world where
  "race_world = sample_world\<lparr>
     wo_sched :=
       [[ARead (Some 1) sample_conn None, ARead (Some 2) sample_conn None, ARead (Some 3) sample_conn None,
         ARead (Some 4) sample_conn None, ARead (Some 5) sample_conn None],
        [], [],
        [AWaitEnter, AWaitRecv, AWaitDrained], [],
        [], [AWaitNotify, AWaitEnter, AWaitRecv, AWaitDrained],
        [], [],
        [AWaitNotify], [],
        [AWaitEnter, AWaitRecv, AWaitMore, AWaitRecv, AWaitMore, AWaitRecv, AWaitDrained, AWaitNotify],
        [ARead (Some 6) sample_conn None], [], []],
     wo_reads := [(1, None, [1]), (1, None, [2]), (1, None, [3]), (1, None, [4]), (1, None, [5]), (3, None, [7, 7, 7])]\<rparr>"

text \<open>The state after the five reads, written out: three completions wait in the channel.\<close>

definition race_cb :: "any \<Rightarrow> net_conn \<Rightarrow> slice \<Rightarrow> aiocb" where
  "race_cb cx c b = zero_aiocb\<lparr>cb_ctx := cx, cb_ptr := 7, cb_conn := c, cb_size := 1, cb_buffer := Some b,
     cb_useSwap := True, cb_idx := -1\<rparr>"

definition race_mid :: "world watcher" where
  "race_mid =
     \<lparr>aiocbs = (\<lambda>_. zero_aiocb)
        (0 := (race_cb None None \<lparr>s_arr = Swap 0, s_off = 0, s_len = Suc 0, s_cap = 8\<rparr>),
         Suc (Suc 0) := (race_cb (Some 3) (Some 7) \<lparr>s_arr = Swap 0, s_off = Suc (Suc 0), s_len = Suc 0,
         s_cap = 6\<rparr>),
         Suc 0 := (race_cb None None \<lparr>s_arr = Swap 0, s_off = Suc 0, s_len = Suc 0, s_cap = 7\<rparr>),
         Suc (Suc (Suc 0)) := (race_cb (Some 4) (Some 7) \<lparr>s_arr = Swap (Suc 0), s_off = 0, s_len = Suc 0,
         s_cap = 8\<rparr>),
         Suc (Suc (Suc (Suc 0))) := (race_cb (Some 5) (Some 7) \<lparr>s_arr = Swap 2, s_off = 0, s_len = Suc 0,
         s_cap = 8\<rparr>)),
      next_cb = Suc (Suc (Suc (Suc (Suc 0)))), aiocbPool = [0],
      fdDescs = (\<lambda>_. zero_fdDesc)(0 := \<lparr>fd_readers = [], fd_writers = [], fd_ptr = 7\<rparr>),
         next_desc = Suc 0, fdDescPool = [], next_elem = 0,
      mem = (case_array (\<lambda>k. replicate 8 0) (\<lambda>r. replicate 16 0) (\<lambda>u. [])) (Back 0 := replicate 16 0, Back (Suc 0) := replicate 16 0, Back (Suc (Suc 0)) := replicate 16 0, Back (Suc (Suc (Suc 0))) := replicate 16 0, Back (Suc (Suc (Suc (Suc 0)))) := replicate 16 0, Swap 0 := 1 # 2 # 3 # replicate 5 0, Swap (Suc 0) := 4 # replicate 7 0, Swap 2 := 5 # replicate 7 0),
      chSignal = None, sigDone = False, chPendingNotify = False,
      pendingCreate = [], pendingProcessing = [], recycles = [Suc 0],
      chResults = [Suc (Suc 0), Suc (Suc (Suc 0)), Suc (Suc (Suc (Suc 0)))], swapSize = 8,
      swapBufferFront = \<lparr>s_arr = Swap 2, s_off = 0, s_len = 8, s_cap = 8\<rparr>,
      swapBufferMiddle = \<lparr>s_arr = Swap 0, s_off = 0, s_len = 8, s_cap = 8\<rparr>,
      swapBufferBack = \<lparr>s_arr = Swap (Suc 0), s_off = 0, s_len = 8, s_cap = 8\<rparr>,
      bufferOffset = 1, shouldSwap = False,
      results = [\<lparr>r_Operation = OpRead, r_Context = Some 2, r_Conn = Some 7,
         r_Buffer = Some \<lparr>s_arr = Swap 0, s_off = Suc 0, s_len = Suc 0, s_cap = 7\<rparr>,
         r_IsSwapBuffer = True, r_Size = 1, r_Error = None\<rparr>],
      descs = [10 \<mapsto> 0], connIdents = [7 \<mapsto> 10],
      timeouts = [], timer = None, timerC = False,
      gc = [], gcLocked = False, gcNotify = False, gcFound = 0, gcClosed = 0,
      die = False, loopDone = False, pollerErr = None, wphase = WIdle,
      os = \<lparr>wo_fds = [10], wo_next = 11, wo_sched = [[AWaitEnter, AWaitRecv, AWaitMore, AWaitRecv, AWaitMore, AWaitRecv,
         AWaitDrained, AWaitNotify], [ARead (Some 6) (Some 7) None], [], []], wo_reads = [(3, None, [7, 7, 7])],
         wo_now = 100\<rparr>\<rparr>"

definition race_state :: "world watcher" where
  "race_state = yield race_env race_mid"

definition race_later :: "world watcher" where
  "race_later = run_pending idle_env race_state"

lemmas eval_race =
  race_cb_def race_mid_def race_state_def race_later_def run_pending_def race_world_def race_env_def idle_env_def caller_act_def
  eval_api eval_loop eval_sample

lemma race_mid_reached:
  "loop_pending race_env
     ((yield race_env (case NewWatcherSize race_env 8 (\<lambda>_. []) race_world of Inr w \<Rightarrow> w))\<lparr>chPendingNotify := False\<rparr>)
   = Some race_mid"
  by (simp add: eval_race)

lemma race_state_reachable: "reachable race_env race_state"
proof -
  let ?w0 = "case NewWatcherSize race_env 8 (\<lambda>_. []) race_world of Inr w \<Rightarrow> w"
  have "reachable race_env ?w0"
    by (rule reachable.new [of _ 8 "\<lambda>_. []" race_world]) (simp add: NewWatcherSize_def race_env_def sample_env_def)
  moreover have "\<not> loopDone (yield race_env ?w0)" "chPendingNotify (yield race_env ?w0)" by (simp_all add: eval_race)
  moreover have "run_pending race_env ?w0 = race_mid" by (simp only: run_pending_def race_mid_reached option.sel)
  ultimately have "reachable race_env race_mid"
    using reachable_steps [OF _ run_pending_steps, of race_env ?w0] race_mid_reached by simp
  then show ?thesis unfolding race_state_def by (rule reachable.step [OF _ loop_step.other])
qed

lemma race_later_steps: "(loop_step idle_env)\<^sup>*\<^sup>* race_state race_later"
proof -
  have "\<not> Option.is_none (loop_pending idle_env ((yield idle_env race_state)\<lparr>chPendingNotify := False\<rparr>))"
    "\<not> loopDone (yield idle_env race_state)" "chPendingNotify (yield idle_env race_state)"
    by (simp_all add: eval_race)
  then show ?thesis unfolding race_later_def by (rule run_pending_steps)
qed

lemma race_env_ok: "os_ok race_env sample_owned" "own_arrays race_env"
  unfolding race_env_def
  by (rule os_ok_sched [OF sample_os_ok], auto simp: own_arrays_def split: prod.splits dest: sample_sched_owned)

text \<open>
  C21. Without that condition the results do not stay valid. There is a run of the watcher in which a
  caller holds a batch with a one-byte read in a shared buffer, does not call \<open>WaitIO\<close>, and the byte
  changes under it: the next read is stored over it.
\<close>

theorem swap_race_overwrites_held_result:
  "\<exists>E w w' x b. os_ok E sample_owned \<and> own_arrays E \<and> reachable E w \<and> wphase w = WIdle
     \<and> no_WaitIO idle_env \<and> (loop_step idle_env)\<^sup>*\<^sup>* w w' \<and> results w' = results w
     \<and> x \<in> set (results w) \<and> r_IsSwapBuffer x \<and> r_Error x = None \<and> r_Buffer x = Some b \<and> s_arr b \<notin> range User
     \<and> mem_read (mem w) b = [3] \<and> mem_read (mem w') b = [7]"
proof -
  let ?b = "\<lparr>s_arr = Swap 0, s_off = 2, s_len = 1, s_cap = 6\<rparr>"
  let ?x = "\<lparr>r_Operation = OpRead, r_Context = Some 3, r_Conn = Some 7, r_Buffer = Some ?b, r_IsSwapBuffer = True,
    r_Size = 1, r_Error = None\<rparr>"
  have "wphase race_state = WIdle" "?x \<in> set (results race_state)" "results race_later = results race_state"
    "mem_read (mem race_state) ?b = [3]" "mem_read (mem race_later) ?b = [7]"
    by (simp_all add: eval_race)
  with race_env_ok race_state_reachable prompt_env_callers(3) race_later_steps show ?thesis
    by (intro exI [of _ race_env] exI [of _ race_state] exI [of _ race_later] exI [of _ ?x] exI [of _ ?b]) auto
qed

end
