(* ===== verification/State_Invariant.thy ===== *)
theory State_Invariant
  imports Watcher_Safety
begin

text \<open>
  Invariants of the state alone. An invariant of the loop (theory \<open>Loop_Invariant\<close>) may speak of the requests
  in the loop's hands; many do not. The locale \<open>state_invariant\<close> asks of a predicate on the state what the
  operations of the loop keep, given ownership, and makes its conjunction with ownership an instance of the
  contract of the loop.
\<close>

locale state_invariant =
  fixes E :: "'w env" and owned :: "'w \<Rightarrow> fd set" and P :: "'w watcher \<Rightarrow> bool"
  assumes s_read: "owns E owned H Q w \<Longrightarrow> P w \<Longrightarrow> tryRead E f r w = Some (b, w') \<Longrightarrow> P w'"
    and s_write: "owns E owned H Q w \<Longrightarrow> P w \<Longrightarrow> tryWrite E f r w = Some (b, w') \<Longrightarrow> P w'"
    and s_send: "owns E owned (r # H) Q w \<Longrightarrow> P w \<Longrightarrow> deliver E r w = Some w' \<Longrightarrow> P w'"
    and s_dequeue: "P w \<Longrightarrow> P (dequeue s d e w)"
    and s_err: "P w \<Longrightarrow> P (set_err r err w)"
    and s_wait: "owns E owned (r # H) Q w \<Longrightarrow> P w \<Longrightarrow> r \<notin> set (timeouts w) \<Longrightarrow> P (track_deadline E r (enqueue s d r w))"
    and s_register: "P w \<Longrightarrow> register E f r w = (d, w') \<Longrightarrow> P w'"
    and s_unregister: "P w \<Longrightarrow> P (unregister E f d w)"
    and s_os: "P w \<Longrightarrow> P (w\<lparr>os := v\<rparr>)"
    and s_yield: "owns E owned H Q w \<Longrightarrow> P w \<Longrightarrow> P (yield E w)"
    and s_accept: "P w \<Longrightarrow> P (w\<lparr>chPendingNotify := False, pendingCreate := [], pendingProcessing := pendingCreate w\<rparr>)"
    and s_accepted: "P w \<Longrightarrow> P (w\<lparr>pendingProcessing := []\<rparr>)"
    and s_signalled: "P w \<Longrightarrow> P (w\<lparr>chSignal := None\<rparr>)"
    and s_answered: "P w \<Longrightarrow> P (w\<lparr>sigDone := True\<rparr>)"
    and s_failed: "P w \<Longrightarrow> P (snd (stop E (w\<lparr>chSignal := None, pollerErr := Some e'\<rparr>)))"
    and s_collecting: "P w \<Longrightarrow> P (w\<lparr>gcNotify := False, gcLocked := True\<rparr>)"
    and s_collected: "P w \<Longrightarrow> P (w\<lparr>gcClosed := gcClosed w + of_nat (length (gc w)), gc := [], gcLocked := False\<rparr>)"
    and s_drained: "owns E owned H Q w \<Longrightarrow> P w \<Longrightarrow> chResults w = r # rs \<Longrightarrow> P ((set_cb r zero_aiocb w)\<lparr>mem := m, chResults := rs\<rparr>)"
    and s_ended: "P w \<Longrightarrow> die w \<Longrightarrow> P (w\<lparr>pendingCreate := [], pendingProcessing := [], loopDone := True\<rparr>)"

text \<open>A fact about the environment may be added to the invariant.\<close>

context state_invariant
begin

lemma with_constant: "state_invariant E owned (\<lambda>w. P w \<and> C)"
  by unfold_locales
    (auto intro: s_read s_write s_send s_dequeue s_err s_wait s_register s_unregister s_os s_yield s_accept s_accepted s_signalled
      s_answered s_failed s_collecting s_collected s_drained s_ended)

end

sublocale state_invariant \<subseteq> loop_moves E owned "\<lambda>H Q w. owns E owned H Q w \<and> P w" "\<lambda>r H Q w. owns E owned H Q w \<and> P w"
proof (unfold_locales, goal_cases)
  case 6 then show ?case using own_loop.read_wait s_read by blast
next
  case 7 then show ?case using own_loop.read_done s_read by blast
next
  case 8 then show ?case using own_loop.write_wait s_write by blast
next
  case 9 then show ?case using own_loop.write_done s_write by blast
next
  case 10 then show ?case using own_loop.send s_send by blast
next
  case 11 then show ?case using own_loop.take by blast
next
  case 12 then show ?case using own_loop.take_done s_dequeue by blast
next
  case 15 then show ?case using own_loop.wait s_wait by blast
next
  case 16 then show ?case using own_loop.drop by blast
next
  case 17 then show ?case using own_loop.enlist s_register by blast
next
  case 18 then show ?case by (auto intro!: own_loop.delist s_unregister)
next
  case 28 then show ?case using own_loop.drained s_drained by blast
next
  case 20 then show ?case using own_loop.others s_yield by blast
qed (auto simp: owns_def own_dequeue own_set_err own_os own_stop own_accept [simplified] own_ended [simplified]
    intro: s_dequeue s_err s_os s_accept s_accepted s_signalled s_answered s_failed s_collecting s_collected s_ended)

end
