(* ===== verification/Side_Invariants.thy ===== *)
theory Side_Invariants
  imports State_Invariant
begin

text \<open>
  Invariants of the parts of the watcher that the handlers of requests hardly touch: the counters of
  finalized connections, the shutdown flags and the deadline timer. The locale \<open>quiet_invariant\<close>
  asks what the other goroutines, the collection of finalized connections, the end of the loop and the
  scheduling of a deadline keep, and is an instance of the loop contract together with ownership;
  \<open>side_invariant\<close> is for those that do not depend on the timer at all.
\<close>

section \<open>The contract\<close>

definition rview :: "'w watcher \<Rightarrow> 32 word \<times> 32 word \<times> uintptr list \<times> bool \<times> bool \<times> gerr option" where
  "rview w = (gcFound w, gcClosed w, gc w, die w, loopDone w, pollerErr w)"

definition quiet :: "'w watcher \<Rightarrow> 'w watcher \<Rightarrow> bool" where
  "quiet w w' \<longleftrightarrow> rview w' = rview w \<and> timer w' = timer w \<and> timerC w' = timerC w \<and> set (timeouts w') \<subseteq> set (timeouts w)
     \<and> (\<forall>r \<in> set (timeouts w'). cb_deadline (aiocbs w' r) = cb_deadline (aiocbs w r))"

lemma quiet_trans: "quiet u v \<Longrightarrow> quiet v w \<Longrightarrow> quiet u w"
  by (auto simp: quiet_def)

locale quiet_invariant =
  fixes E :: "'w env" and owned :: "'w \<Rightarrow> fd set" and P :: "'w watcher \<Rightarrow> bool"
  assumes dep: "P w \<Longrightarrow> quiet w w' \<Longrightarrow> P w'"
    and act: "owns E owned H Q w \<Longrightarrow> P w \<Longrightarrow> P (exec_act E a w)"
    and gc_done: "P w \<Longrightarrow> P (w\<lparr>gcClosed := gcClosed w + of_nat (length (gc w)), gc := []\<rparr>)"
    and poll_failed: "P w \<Longrightarrow> P (w\<lparr>die := True, pollerErr := Some err\<rparr>)"
    and ended: "P w \<Longrightarrow> die w \<Longrightarrow> P (w\<lparr>loopDone := True\<rparr>)"
    and tracked: "P w \<Longrightarrow> timed_ok (aiocbs w, timeouts w) \<Longrightarrow> r \<notin> set (timeouts w) \<Longrightarrow> P (track_deadline E r w)"
begin

lemma P_yield:
  assumes "owns E owned H Q w" and "P w" shows "P (yield E w)"
proof -
  have run: "owns E owned H Q w \<Longrightarrow> P w \<Longrightarrow> P (run_acts E acts w)" for acts w
    unfolding run_acts_def
  proof (induction acts arbitrary: w)
    case (Cons a acts)
    have "owns E owned H Q (exec_act E a w)" using Cons.prems(1) by (simp add: owns_def own_exec_act)
    from Cons.IH [OF this act [OF Cons.prems]] show ?case by simp
  qed simp
  obtain acts world where s: "e_sched E (os w) = (acts, world)" by fastforce
  have "owned world = owned (os w)" using os_okD(12) [OF _ s] assms(1) by (simp add: owns_def)
  then have "owns E owned H Q (w\<lparr>os := world\<rparr>)" using assms(1) by (simp add: owns_def own_os)
  moreover have "P (w\<lparr>os := world\<rparr>)" by (rule dep [OF assms(2)]) (simp add: rview_def quiet_def)
  ultimately show ?thesis using run s by (simp add: yield_def)
qed

lemma P_attempts:
  "read_loop E f buf r w = Some (a, w') \<Longrightarrow> P w \<Longrightarrow> P w'"
  "write_loop E f buf r w = Some (a, w') \<Longrightarrow> P w \<Longrightarrow> P w'"
proof -
  have once: "read_once E f buf r w = Some (a, w') \<Longrightarrow> quiet w w'"
    "write_once E f buf r w = Some (a, w') \<Longrightarrow> quiet w w'" for a w w'
    by (auto simp: read_once_def write_once_def quiet_def rview_def set_cb_def Let_def split: option.splits prod.splits if_splits)
  show "read_loop E f buf r w = Some (a, w') \<Longrightarrow> P w \<Longrightarrow> P w'"
    unfolding read_loop_def by (rule retry_loop_inv [where I = P], assumption+) (rule dep, assumption, rule once(1))
  show "write_loop E f buf r w = Some (a, w') \<Longrightarrow> P w \<Longrightarrow> P w'"
    unfolding write_loop_def by (rule retry_loop_inv [where I = P], assumption+) (rule dep, assumption, rule once(2))
qed

lemma P_tryRead:
  assumes "tryRead E f r w = Some (fin, w')" and "P w" and "owns E owned H Q w"
  shows "P w'"
proof -
  from assms(1) obtain buf us bb w1 a w2 where sb: "select_buffer r (yield E w) = Some (buf, us, bb, w1)"
    and rl: "read_loop E f buf r w1 = Some (a, w2)"
    and rest: "(if a = WouldBlock then Some (False, w2) else finish_read buf us bb r w2) = Some (fin, w')"
    by (auto simp: tryRead_def elim!: bind_SomeE)
  have "quiet (yield E w) w1" using select_buffer_state [OF sb] by (auto simp: quiet_def rview_def rotate_buffers_def)
  then have "P w1" by (rule dep [OF P_yield [OF assms(3,2)]])
  then have "P w2" by (rule P_attempts(1) [OF rl])
  moreover have "quiet w2 w'"
    using rest by (auto simp: finish_read_def Let_def set_cb_def quiet_def rview_def split: if_splits option.splits)
  ultimately show ?thesis by (rule dep)
qed

lemma P_tryWrite:
  assumes "tryWrite E f r w = Some (fin, w')" and "P w"
  shows "P w'"
proof (cases "cb_buffer (aiocbs w r)")
  case None
  with assms show ?thesis by (simp add: tryWrite_def)
next
  case (Some buf)
  with assms(1) obtain a where "write_loop E f buf r w = Some (a, w')"
    by (auto simp: tryWrite_def elim!: bind_SomeE split: if_splits)
  then show ?thesis using assms(2) by (rule P_attempts(2))
qed

lemma P_send_once:
  assumes "send_once E r w = (b, w1)" and "P w" and "owns E owned H Q w"
  shows "P w1"
proof -
  have "quiet (yield E w) w1"
    using assms(1) by (auto simp: send_once_def quiet_def rview_def Let_def split: if_splits prod.splits)
  then show ?thesis by (rule dep [OF P_yield [OF assms(3,2)]])
qed

lemma P_deliver:
  assumes "deliver E r w = Some w'" and ow: "owns E owned (r # H) Q w" and "P w"
  shows "P w'"
proof -
  have os: "os_ok E owned" "own owned (r # H) Q w" using ow by (simp_all add: owns_def)
  obtain w1 where l: "leave_heap r w = Some w1" "set (timeouts w1) = set (timeouts w) - {r}" "own owned (r # H) Q w1"
    "cb_idx (aiocbs w1 r) = -1" "\<And>q. no_idx (aiocbs w1 q) = no_idx (aiocbs w q)"
    by (rule leave_heap_own [OF os(2)]) blast
  with assms(1) have sl: "send_loop E r w1 = Some w'" by (simp add: deliver_def)
  have "rview w1 = rview w" "timer w1 = timer w" "timerC w1 = timerC w"
    using l(1) by (auto simp: leave_heap_def rview_def split: if_splits option.splits)
  with l(2) no_idx_fields(12) [OF l(5)] have "quiet w w1" by (auto simp: quiet_def)
  then have P1: "P w1" by (rule dep [OF assms(3)])
  let ?I = "\<lambda>v. P v \<and> own owned (r # H) Q v \<and> cb_idx (aiocbs v r) = -1"
  have once: "?I w2" if "send_once E r v = (False, w2)" "?I v" for v w2
    using that send_once_own [OF that(1) _ _ os(1), of H Q] P_send_once [OF that(1)] os(1) by (auto simp: kept_def owns_def)
  show ?thesis
  proof (rule go_loop_inv [OF sl [unfolded send_loop_def], where I = ?I])
    show "?I w1" using P1 l(3,4) by simp
  qed (auto split: prod.splits if_splits dest: once P_send_once simp: owns_def os(1))
qed

lemma P_wait:
  assumes "P w" and "owns E owned (r # H) Q w" and "r \<notin> set (timeouts w)"
  shows "P (track_deadline E r (enqueue s d r w))"
proof (rule tracked)
  show "P (enqueue s d r w)"
    by (rule dep [OF assms(1)]) (simp add: quiet_def rview_def enqueue_def set_cb_def set_desc_def)
  have "timed_ok (aiocbs (enqueue s d r w), timeouts w) = timed_ok (aiocbs w, timeouts w)"
    by (rule timed_ok_cong) (simp add: enqueue_cb)
  then show "timed_ok (aiocbs (enqueue s d r w), timeouts (enqueue s d r w))" "r \<notin> set (timeouts (enqueue s d r w))"
    using assms(2,3) by (simp_all add: enqueue_frame owns_def own_def own_heap_def)
qed

lemma P_moves:
  "P w \<Longrightarrow> P (dequeue s d e w)" "P w \<Longrightarrow> P (set_err r err w)" "P w \<Longrightarrow> P (unregister E f d w)"
  "P w \<Longrightarrow> register E f r w = (d, w') \<Longrightarrow> P w'" "P w \<Longrightarrow> P (w\<lparr>os := world\<rparr>)"
  by (rule dep, assumption, auto simp: quiet_def rview_def dequeue_def set_desc_def set_err_def set_cb_def unregister_def
      register_def fdDescPool_Get_def Let_def split: prod.splits if_splits)+

lemma P_stop: "P w \<Longrightarrow> P (snd (stop E (w\<lparr>chSignal := None, pollerErr := Some err\<rparr>)))"
  using poll_failed [of w err] by (rule dep) (auto simp: quiet_def rview_def stop_def split: prod.splits)

lemma P_drained:
  assumes "owns E owned H Q w" and "P w" and "chResults w = r # rs"
  shows "P ((set_cb r zero_aiocb w)\<lparr>mem := m, chResults := rs\<rparr>)"
proof (rule dep [OF assms(2)])
  have "r \<notin> set (timeouts w)" using assms(1,3) by (auto simp: owns_def own_defs locs_def)
  then show "quiet w ((set_cb r zero_aiocb w)\<lparr>mem := m, chResults := rs\<rparr>)" by (auto simp: quiet_def rview_def set_cb_def)
qed

lemma P_ended: "P w \<Longrightarrow> die w \<Longrightarrow> P (w\<lparr>pendingCreate := [], pendingProcessing := [], loopDone := True\<rparr>)"
  using ended [of w] by (rule dep) (simp_all add: quiet_def rview_def)

lemma P_fields:
  "P w \<Longrightarrow> P (w\<lparr>chPendingNotify := b, pendingCreate := pc, pendingProcessing := pp\<rparr>)"
  "P w \<Longrightarrow> P (w\<lparr>pendingProcessing := pp\<rparr>)" "P w \<Longrightarrow> P (w\<lparr>chSignal := x\<rparr>)" "P w \<Longrightarrow> P (w\<lparr>sigDone := b\<rparr>)"
  "P w \<Longrightarrow> P (w\<lparr>gcNotify := b, gcLocked := b'\<rparr>)"
  by (rule dep, assumption, simp add: quiet_def rview_def)+

lemma P_gc: "P w \<Longrightarrow> P (w\<lparr>gcClosed := gcClosed w + of_nat (length (gc w)), gc := [], gcLocked := False\<rparr>)"
  using gc_done [of w] by (rule dep) (simp_all add: quiet_def rview_def)

end

sublocale quiet_invariant \<subseteq> quiet: state_invariant E owned P
proof (unfold_locales, goal_cases)
  case 1 then show ?case by (auto intro: P_tryRead)
next
  case 2 then show ?case by (auto intro: P_tryWrite)
next
  case 3 then show ?case by (auto intro: P_deliver)
next
  case 6 then show ?case by (auto intro: P_wait)
next
  case 7 then show ?case by (auto intro: P_moves(4))
next
  case 10 then show ?case by (auto intro: P_yield)
next
  case 18 then show ?case by (auto intro: P_drained)
qed (simp_all add: P_moves P_fields P_stop P_gc P_ended)

text \<open>The invariants that do not depend on the timer.\<close>

locale side_invariant = quiet_invariant +
  assumes blind: "P w \<Longrightarrow> rview w' = rview w \<Longrightarrow> P w'"

sublocale side_invariant \<subseteq> side: timer_blind E owned "\<lambda>H Q w. owns E owned H Q w \<and> P w" "\<lambda>r H Q w. owns E owned H Q w \<and> P w"
proof (unfold_locales, goal_cases)
  case 1 then show ?case using own_loop.popped blind by (fastforce simp: rview_def)
next
  case 2 then show ?case using own_loop.timer_set blind by (fastforce simp: rview_def)
next
  case 3 then show ?case using own_loop.timer_read blind by (fastforce simp: rview_def)
qed

section \<open>The counters of finalized connections\<close>

definition gc_counts :: "'w watcher \<Rightarrow> bool" where
  "gc_counts w \<longleftrightarrow> gcFound w = gcClosed w + of_nat (length (gc w))"

text \<open>What an action of another goroutine does to the part of the state considered here.\<close>

lemma rview_exec_act:
  "rview (exec_act E a w) =
     (case a of
        AStop \<Rightarrow> (gcFound w, gcClosed w, gc w, True, loopDone w, pollerErr w)
      | AFinalize c \<Rightarrow> if gcLocked w then rview w
          else (gcFound w + 1, gcClosed w, gc w @ [c], die w, loopDone w, pollerErr w)
      | _ \<Rightarrow> rview w)"
  by (cases a)
    (auto simp: rview_def Read_def ReadTimeout_def ReadFull_def Write_def WriteTimeout_def Free_def
      aioCreate_def aiocbPool_Get_def aiocbPool_Put_def set_cb_def notifyPending_def Let_def
      WaitIO_enter_def fold_Put WaitIO_recv_def WaitIO_more_def WaitIO_drained_def WaitIO_notify_def notifyShouldSwap_def
      stop_def conn_finalizer_def split: option.splits prod.splits list.splits)

lemma rview_track: "rview (track_deadline E r w) = rview w"
  by (simp add: rview_def track_deadline_def timer_Reset_def Let_def split: prod.splits)

lemma rview_eqD:
  assumes "rview w' = rview w"
  shows "gcFound w' = gcFound w" "gcClosed w' = gcClosed w" "gc w' = gc w" "die w' = die w"
    "loopDone w' = loopDone w" "pollerErr w' = pollerErr w"
  using assms by (simp_all add: rview_def)

interpretation gc_inv: side_invariant E owned gc_counts for E :: "'w env" and owned :: "'w \<Rightarrow> fd set"
proof (unfold_locales, goal_cases)
  case (1 w w')
  then show ?case using rview_eqD [of w' w] by (simp add: gc_counts_def quiet_def)
next
  case (2 H Q w a)
  then show ?case using rview_exec_act [of E a w]
    by (cases a) (auto simp: gc_counts_def rview_def algebra_simps split: if_splits)
next
  case (6 w r)
  then show ?case using rview_eqD [OF rview_track, of E r w] by (simp add: gc_counts_def)
next
  case (7 w w')
  then show ?case using rview_eqD [of w' w] by (simp add: gc_counts_def)
qed (auto simp: gc_counts_def)

section \<open>Shutdown\<close>

text \<open>A watcher whose loop has ended, or whose poller has failed, is closed.\<close>

definition closed_flags :: "'w watcher \<Rightarrow> bool" where
  "closed_flags w \<longleftrightarrow> (loopDone w \<longrightarrow> die w) \<and> (pollerErr w \<noteq> None \<longrightarrow> die w)"

interpretation closed_inv: side_invariant E owned closed_flags for E :: "'w env" and owned :: "'w \<Rightarrow> fd set"
proof (unfold_locales, goal_cases)
  case (1 w w')
  then show ?case using rview_eqD [of w' w] by (simp add: closed_flags_def quiet_def)
next
  case (2 H Q w a)
  then show ?case using rview_exec_act [of E a w]
    by (cases a) (auto simp: closed_flags_def rview_def split: if_splits)
next
  case (6 w r)
  then show ?case using rview_eqD [OF rview_track, of E r w] by (simp add: closed_flags_def)
next
  case (7 w w')
  then show ?case using rview_eqD [of w' w] by (simp add: closed_flags_def)
qed (auto simp: closed_flags_def)

lemma new_flags: "NewWatcherSize E n m world = Inr w \<Longrightarrow> gc_counts w" "NewWatcherSize E n m world = Inr w \<Longrightarrow> closed_flags w"
  by (auto simp: NewWatcherSize_def gc_counts_def closed_flags_def split: prod.splits option.splits)

lemma reachable_closed: "os_ok E owned \<Longrightarrow> reachable E w \<Longrightarrow> closed_flags w"
  using closed_inv.side.reachable_inv [of E w owned] by (simp add: owns_def own_new new_flags)

section \<open>Properties\<close>

text \<open>
  C22. The counters that \<open>GetGC\<close> returns add up: on their 32 bits, the connections found unreachable
  are those already processed plus those still queued. So when the queue is empty both are equal.
\<close>

theorem gc_counters_balance:
  assumes "os_ok E owned" and "reachable E w" and "GetGC w = Some (found, closed)"
  shows "found = closed + of_nat (length (gc w)) \<and> (gc w = [] \<longrightarrow> found = closed)"
proof -
  have "owns E owned [] (qs w) w \<and> gc_counts w"
    by (rule gc_inv.side.reachable_inv [OF assms(2)])
      (simp add: owns_def assms(1) own_new new_flags)
  with assms(3) show ?thesis by (auto simp: gc_counts_def GetGC_def split: if_splits)
qed

definition gc_world :: world where
  "gc_world = sample_world\<lparr>wo_sched := [[AFinalize 7, AFinalize 9]]\<rparr>"

theorem gc_counters_balance_witness:
  "GetGC (yield sample_env (sample_new 8 gc_world)) = Some (2, 0)
   \<and> (2 :: 32 word) = 0 + of_nat (length (gc (yield sample_env (sample_new 8 gc_world))))"
proof -
  let ?w = "yield sample_env (sample_new 8 gc_world)"
  have r: "reachable sample_env ?w" by (rule reachable.step [OF sample_new_reachable loop_step.other])
  have g: "GetGC ?w = Some (2, 0)"
    by (simp add: gc_world_def GetGC_def conn_finalizer_def eval_api eval_sample)
  with gc_counters_balance [OF sample_os_ok r g] show ?thesis by simp
qed

text \<open>
  C23. After the loop has ended, the watcher is closed for good: every
  submission on a connection is refused with \<open>ErrWatcherClosed\<close>, and \<open>Close\<close> returns at once
  with no error and no effect.
\<close>

theorem ended_watcher_refuses:
  assumes "os_ok E owned" and "reachable E w" and "loopDone w" and "0 < p"
  shows "fst (aioCreate E cx oper (Some p) buf dl full w) = Some ErrWatcherClosed \<and> Close E w = Some (None, w)"
proof -
  have "die w" using reachable_closed [OF assms(1,2)] assms(3) by (simp add: closed_flags_def)
  with assms(3,4) show ?thesis
    by (auto simp: aioCreate_def aiocbPool_Get_def set_cb_def Close_def stop_def Let_def split: prod.splits)
qed

definition stop_world :: world where
  "stop_world = sample_world\<lparr>wo_sched := [[AStop]]\<rparr>"

definition ended_state :: "world watcher" where
  "ended_state = the (loop_exit sample_env [] (yield sample_env (sample_new 8 stop_world)))"

lemma ended_state_reachable: "reachable sample_env ended_state"
proof -
  let ?y = "yield sample_env (sample_new 8 stop_world)"
  have "reachable sample_env ?y" by (rule reachable.step [OF sample_new_reachable loop_step.other])
  moreover have "loop_step sample_env ?y ended_state"
    by (rule loop_step.closed [where order = "[]"])
      (simp_all add: stop_world_def ended_state_def loop_exit_def drain_loop_done drain_once_def stop_def eval_api eval_sample)
  ultimately show ?thesis by (rule reachable.step)
qed

theorem ended_watcher_refuses_witness:
  "fst (Read sample_env None (Some 7) None ended_state) = Some ErrWatcherClosed
   \<and> Close sample_env ended_state = Some (None, ended_state)"
proof -
  have "loopDone ended_state"
    by (simp add: stop_world_def ended_state_def loop_exit_def drain_loop_done drain_once_def stop_def eval_api eval_sample)
  from ended_watcher_refuses [OF sample_os_ok ended_state_reachable this, of 7] show ?thesis
    by (simp add: Read_def)
qed

end
