(* ===== verification/Deadlines.thy ===== *)
theory Deadlines
  imports Side_Invariants
begin

text \<open>
  Deadlines: whenever a request with a deadline is queued, the timer fires no later than that deadline, and a
  pass of the timer case removes exactly the requests whose deadline has passed.
\<close>

section \<open>The timer is armed\<close>

text \<open>
  A timer that fires at \<open>t\<close> is in time for the deadline \<open>d\<close>. A duration has 64 bits: for a deadline that lies
  more than \<open>2 ^ 63\<close> nanoseconds before the clock reading, the timer is set to the point that lies \<open>2 ^ 63\<close>
  nanoseconds before it, which has passed all the same.
\<close>

definition in_time :: "'w env \<Rightarrow> gtime \<Rightarrow> gtime \<Rightarrow> bool" where
  "in_time E t d \<longleftrightarrow> t \<le> d \<or> (\<exists>v. t + 2 ^ 63 \<le> fst (e_Now E v))"

lemma in_time_mono: "in_time E t d \<Longrightarrow> d \<le> d' \<Longrightarrow> in_time E t d'"
  by (auto simp: in_time_def)

definition armed :: "'w env \<Rightarrow> 'w watcher \<Rightarrow> bool" where
  "armed E w \<longleftrightarrow> (timeouts w \<noteq> [] \<longrightarrow> timerC w
     \<or> (\<exists>t. timer w = Some t \<and> (\<forall>r \<in> set (timeouts w). in_time E t (cb_deadline (aiocbs w r)))))"

lemma reset_in_time: "d \<le> d' \<Longrightarrow> in_time E (fst (e_Now E v) + time_Sub d (fst (e_Now E v))) d'"
  by (auto simp: in_time_def time_Sub_def intro: exI [of _ v])

lemma armed_exec_act:
  assumes ow: "own owned H Q w" and "armed E w" shows "armed E (exec_act E a w)"
proof -
  have t: "timeouts (exec_act E a w) = timeouts w" using loop_viewD(4) [OF loop_view_exec_act] .
  have d: "cb_deadline (aiocbs (exec_act E a w) r) = cb_deadline (aiocbs w r)" if "r \<in> set (timeouts w)" for r
    using exec_act_keeps [OF ow, of r E a] ow that by (auto simp: own_def own_heap_def)
  show ?thesis
  proof (cases "a = ATimerFires")
    case False
    then have "timer (exec_act E a w) = timer w" "timerC (exec_act E a w) = timerC w"
      by (cases a; auto simp: Read_def ReadTimeout_def ReadFull_def Write_def WriteTimeout_def Free_def
        aioCreate_def aiocbPool_Get_def aiocbPool_Put_def set_cb_def notifyPending_def Let_def
        WaitIO_enter_def fold_Put WaitIO_recv_def WaitIO_more_def WaitIO_drained_def WaitIO_notify_def notifyShouldSwap_def
        stop_def conn_finalizer_def split: option.splits prod.splits list.splits)+
    with assms(2) t d show ?thesis by (simp add: armed_def)
  qed (use assms(2) in \<open>auto simp: armed_def\<close>)
qed

lemma armed_tracked:
  assumes "armed E w" and ok: "timed_ok (aiocbs w, timeouts w)" and new: "r \<notin> set (timeouts w)"
  shows "armed E (track_deadline E r w)"
proof (cases "IsZero (cb_deadline (aiocbs w r))")
  case True
  with assms show ?thesis by (simp add: track_deadline_def)
next
  case False
  obtain S T where p: "timeouts_Push r (aiocbs w, timeouts w) = (S, T)" by fastforce
  have ok': "timed_ok (S, T)" and ms: "mset T = add_mset r (mset (timeouts w))"
    using timeouts_Push_ok [of "(aiocbs w, timeouts w)" r] ok new p by simp_all
  then have T: "set T = insert r (set (timeouts w))" "T \<noteq> []" using mset_eq_setD [of T "r # timeouts w"] by auto
  have d: "cb_deadline (S q) = cb_deadline (aiocbs w q)" for q
    using timeouts_Push_frame [of r "(aiocbs w, timeouts w)"] p by (auto simp: idx_frame_def intro: no_idx_fields(12))
  have root: "cb_deadline (S (T ! 0)) \<le> cb_deadline (S q)" if "q \<in> set T" for q
    by (rule timeouts_Pop_ok [OF ok']) (use T(2) that in auto)
  obtain now world where n: "e_Now E (os w) = (now, world)" by fastforce
  show ?thesis
  proof (cases "T ! 0 = r")
    case True
    have "in_time E (now + time_Sub (cb_deadline (aiocbs w r)) now) (cb_deadline (S q))" if "q \<in> set T" for q
      using reset_in_time [OF root [OF that], of E "os w"] n True d by simp
    with False p n T(2) True show ?thesis by (simp add: armed_def track_deadline_def timer_Reset_def Let_def)
  next
    case other: False
    then have q: "T ! 0 \<in> set (timeouts w)" using T nth_mem [of 0 T] by auto
    have "timerC w \<or> (\<exists>t. timer w = Some t \<and> (\<forall>q \<in> set (timeouts w). in_time E t (cb_deadline (aiocbs w q))))"
      using assms(1) q by (auto simp: armed_def)
    then show ?thesis
    proof
      assume "\<exists>t. timer w = Some t \<and> (\<forall>q \<in> set (timeouts w). in_time E t (cb_deadline (aiocbs w q)))"
      then obtain t where t: "timer w = Some t" "\<forall>q \<in> set (timeouts w). in_time E t (cb_deadline (aiocbs w q))" by blast
      then have "in_time E t (cb_deadline (S (T ! 0)))" using q d by simp
      then have "\<forall>q \<in> set T. in_time E t (cb_deadline (S q))" using root in_time_mono by blast
      with False p other t(1) show ?thesis by (simp add: armed_def track_deadline_def Let_def)
    qed (use False p other in \<open>simp add: armed_def track_deadline_def Let_def\<close>)
  qed
qed

interpretation armed_moves: quiet_invariant E owned "armed E" for E :: "'w env" and owned :: "'w \<Rightarrow> fd set"
proof (unfold_locales, goal_cases)
  case 1 then show ?case by (fastforce simp: armed_def quiet_def)
next
  case 2 then show ?case using armed_exec_act by (auto simp: owns_def)
next
  case 6 then show ?case by (rule armed_tracked)
qed (auto simp: armed_def)

section \<open>A pass of the timer case\<close>

lemma expire_once_stop:
  assumes "expire_once E now w = Some (False, w')" and "now = fst (e_Now E v)" and "timed_ok (aiocbs w, timeouts w)"
  shows "aiocbs w' = aiocbs w" "timeouts w' = timeouts w" "r \<in> set (timeouts w) \<Longrightarrow> now \<le> cb_deadline (aiocbs w r)" "armed E w'"
    "timeouts w \<noteq> [] \<Longrightarrow> timer w' \<noteq> None"
proof -
  have root: "cb_deadline (aiocbs w (timeouts w ! 0)) \<le> cb_deadline (aiocbs w q)" if "q \<in> set (timeouts w)" for q
    by (rule timeouts_Pop_ok [OF assms(3)]) (use that in auto)
  show "aiocbs w' = aiocbs w" "timeouts w' = timeouts w"
    using assms(1) by (auto simp: expire_once_def timer_Reset_def Let_def split: list.splits if_splits option.splits elim!: bind_SomeE)
  show "now \<le> cb_deadline (aiocbs w r)" if "r \<in> set (timeouts w)"
    using assms(1) root [OF that] that
    by (auto simp: expire_once_def timer_Reset_def Let_def split: list.splits if_splits option.splits elim!: bind_SomeE)
  show "timeouts w \<noteq> [] \<Longrightarrow> timer w' \<noteq> None"
    using assms(1) by (auto simp: expire_once_def timer_Reset_def Let_def split: list.splits if_splits option.splits elim!: bind_SomeE)
  show "armed E w'"
  proof (cases "timeouts w")
    case Nil
    with \<open>timeouts w' = timeouts w\<close> show ?thesis by (simp add: armed_def)
  next
    case (Cons q h)
    then have "w' = w\<lparr>timer := Some (now + time_Sub (cb_deadline (aiocbs w q)) now)\<rparr>"
      using assms(1) by (auto simp: expire_once_def timer_Reset_def Let_def split: if_splits option.splits elim!: bind_SomeE)
    with Cons root reset_in_time [of "cb_deadline (aiocbs w q)" _ E v] assms(2) show ?thesis by (simp add: armed_def)
  qed
qed

lemma expire_once_next:
  assumes ret: "expire_once E now w = Some (True, w')" and ow: "owns E owned [] (qs w) w"
  shows "\<exists>r \<in> set (timeouts w). cb_deadline (aiocbs w r) < now \<and> set (timeouts w') = set (timeouts w) - {r}"
    and "q \<in> set (timeouts w') \<Longrightarrow> cb_deadline (aiocbs w' q) = cb_deadline (aiocbs w q)"
proof -
  have own: "own owned [] (qs w) w" and os: "os_ok E owned" using ow by (simp_all add: owns_def)
  obtain r rest where t: "timeouts w = r # rest" using ret by (cases "timeouts w") (simp_all add: expire_once_def)
  have "r \<in> qset (qs w)" and i: "cb_idx (aiocbs w r) \<noteq> -1" using own t by (auto simp: own_def own_heap_def)
  then obtain d s x where x: "x \<in> set (qs w d s)" "el_Value x = r" by (auto simp: qset_def)
  note q = own_queueD [OF own x(1)]
  have due: "cb_deadline (aiocbs w r) < now"
    using ret t i by (auto simp: expire_once_def Let_def split: if_splits)
  let ?w2 = "dequeue s d (el_id x) (set_err r ErrDeadline w)"
  obtain y S T where pop: "timeouts_Pop (aiocbs ?w2, timeouts ?w2) = Some (y, (S, T))"
    and dl: "deliver E r (?w2\<lparr>aiocbs := set_idx S r (-1), timeouts := T\<rparr>) = Some w'"
    using ret t i due q(3,4) x(2) by (auto simp: expire_once_def Let_def split: option.splits elim!: bind_SomeE)
  let ?Q = "qdrop d s (el_id x) (qs w)" and ?w3 = "?w2\<lparr>aiocbs := set_idx S r (-1), timeouts := T\<rparr>"
  have top: "timeouts ?w2 = r # rest" by (simp add: dequeue_def set_desc_def set_err_def set_cb_def t)
  have o2: "owns E owned [r] ?Q ?w2" by (rule own_loop.unlink [OF own_loop.fail]) (use own_loop.take [OF ow x(1)] x(2) in simp)
  then have o3: "owns E owned [r] ?Q ?w3" by (rule own_loop.popped [OF _ top pop])
  have ok2: "timed_ok (aiocbs ?w2, timeouts ?w2)" using o2 by (simp add: owns_def own_def own_heap_def)
  have T: "mset T = mset rest"
    by (rule timeouts_Pop_ok [OF ok2]) (use top pop in auto)
  have "r \<notin> set rest" using own t by (auto simp: own_def own_heap_def timed_ok_def idx_ok_def)
  with T t have Ts: "set T = set (timeouts w) - {r}" by (auto dest: mset_eq_setD)
  have o3': "own owned [r] ?Q ?w3" using o3 by (simp add: owns_def)
  note del = deliver_own [OF dl o3' os]
  show "\<exists>r \<in> set (timeouts w). cb_deadline (aiocbs w r) < now \<and> set (timeouts w') = set (timeouts w) - {r}"
    using t due del(4) Ts by (intro bexI [of _ r]) auto
  show "cb_deadline (aiocbs w' q) = cb_deadline (aiocbs w q)" if "q \<in> set (timeouts w')"
  proof -
    have "q \<in> set (timeouts ?w3)" using that del(4) by simp
    then have "q \<in> set [] \<union> qset ?Q \<or> q = r" using o3' by (auto simp: own_def own_heap_def)
    moreover have "q \<noteq> r" using that del(4) by simp
    ultimately have "cb_deadline (aiocbs w' q) = cb_deadline (aiocbs ?w3 q)" using no_idx_fields(12) [OF del(2), of q] by simp
    also have "\<dots> = cb_deadline (aiocbs ?w2 q)"
      using timeouts_Pop_frame [OF pop] by (auto simp: idx_frame_def dest: no_idx_fields(12))
    finally show ?thesis by (simp add: dequeue_def set_desc_def set_err_def set_cb_def)
  qed
qed

text \<open>What holds when the timer loop is left.\<close>

lemma handleTimer_end:
  assumes ret: "handleTimer E w = Some w'" and ow: "owns E owned [] (qs w) w" and now: "e_Now E (os w) = (now, world)"
  shows "set (timeouts w') = {r \<in> set (timeouts w). now \<le> cb_deadline (aiocbs w r)}" and "armed E w'" and "timeouts w' \<noteq> [] \<Longrightarrow> timer w' \<noteq> None"
    and "r \<in> set (timeouts w') \<Longrightarrow> cb_deadline (aiocbs w' r) = cb_deadline (aiocbs w r)"
proof -
  have os: "os_ok E owned" using ow by (simp add: owns_def)
  let ?w = "w\<lparr>os := world\<rparr>"
  let ?J = "\<lambda>v. owns E owned [] (qs v) v \<and> set (timeouts v) \<subseteq> set (timeouts w)
    \<and> (\<forall>r \<in> set (timeouts w). now \<le> cb_deadline (aiocbs w r) \<longrightarrow> r \<in> set (timeouts v))
    \<and> (\<forall>r \<in> set (timeouts v). cb_deadline (aiocbs v r) = cb_deadline (aiocbs w r))"
  have "owns E owned [] (qs w) ?w" using own_loop.world [OF ow] os_okD(11) [OF os now] by simp
  then have J0: "?J ?w" by (simp add: qs_def)
  have loop: "go_loop (\<lambda>w. map_option (\<lambda>(more, w1). if more then Inl w1 else Inr w1) (expire_once E now w)) ?w = Some w'"
    using ret now by (simp add: handleTimer_def expire_loop_def)
  have step: "?J v'" if "expire_once E now v = Some (True, v')" "?J v" for v v'
  proof -
    have o: "owns E owned [] (qs v) v" using that(2) by blast
    note ex = expire_once_next(1) [OF that(1) o]
    then obtain r where r: "r \<in> set (timeouts v)" "cb_deadline (aiocbs v r) < now" "set (timeouts v') = set (timeouts v) - {r}" by blast
    note d = expire_once_next(2) [OF that(1) o]
    have "owns E owned [] (qs v') v'" by (rule own_loop.expire_once_inv [OF that(1) o])
    moreover have "set (timeouts v') \<subseteq> set (timeouts w)" using that(2) unfolding r(3) by blast
    moreover have "q \<in> set (timeouts v')" if "q \<in> set (timeouts w)" "now \<le> cb_deadline (aiocbs w q)" for q
    proof -
      have "q \<in> set (timeouts v)" "cb_deadline (aiocbs v q) = cb_deadline (aiocbs w q)" using that \<open>?J v\<close> by simp_all
      with r(2) that(2) show ?thesis unfolding r(3) by auto
    qed
    moreover have "cb_deadline (aiocbs v' q) = cb_deadline (aiocbs w q)" if "q \<in> set (timeouts v')" for q
    proof -
      have "q \<in> set (timeouts v)" using that unfolding r(3) by simp
      with d [OF that] \<open>?J v\<close> show ?thesis by simp
    qed
    ultimately show ?thesis by blast
  qed
  have stop: "set (timeouts v') = {r \<in> set (timeouts w). now \<le> cb_deadline (aiocbs w r)} \<and> armed E v' \<and> (timeouts v' \<noteq> [] \<longrightarrow> timer v' \<noteq> None)
      \<and> (\<forall>r \<in> set (timeouts v'). cb_deadline (aiocbs v' r) = cb_deadline (aiocbs w r))"
    if "expire_once E now v = Some (False, v')" "?J v" for v v'
  proof -
    have "timed_ok (aiocbs v, timeouts v)" using that(2) by (simp add: owns_def own_def own_heap_def)
    from expire_once_stop [OF that(1) _ this, of "os w"] that(2) now show ?thesis by auto
  qed
  have "set (timeouts w') = {r \<in> set (timeouts w). now \<le> cb_deadline (aiocbs w r)} \<and> armed E w' \<and> (timeouts w' \<noteq> [] \<longrightarrow> timer w' \<noteq> None)
      \<and> (\<forall>r \<in> set (timeouts w'). cb_deadline (aiocbs w' r) = cb_deadline (aiocbs w r))"
    by (rule go_loop_inv [where I = ?J, OF loop J0]) (auto split: if_splits dest!: step stop)
  then show "set (timeouts w') = {r \<in> set (timeouts w). now \<le> cb_deadline (aiocbs w r)}" "armed E w'" "timeouts w' \<noteq> [] \<Longrightarrow> timer w' \<noteq> None"
    "r \<in> set (timeouts w') \<Longrightarrow> cb_deadline (aiocbs w' r) = cb_deadline (aiocbs w r)" by blast+
qed

interpretation armed_loop: loop_invariant E owned "\<lambda>H Q w. owns E owned H Q w \<and> armed E w" "\<lambda>r H Q w. owns E owned H Q w \<and> armed E w"
  for E :: "'w env" and owned :: "'w \<Rightarrow> fd set"
proof (unfold_locales, goal_cases)
  case (1 w w')
  obtain now world where now: "e_Now E (os (w\<lparr>timerC := False\<rparr>)) = (now, world)" by fastforce
  have "owns E owned [] (qs (w\<lparr>timerC := False\<rparr>)) (w\<lparr>timerC := False\<rparr>)"
    using 1(1) own_loop.timer_read [of E owned "[]" "qs w" w] by (simp add: qs_def)
  with handleTimer_end(2) [OF 1(3) _ now] own_loop.handleTimer_inv [OF 1(3)] 1(1) show ?case by blast
qed

section \<open>Properties\<close>

text \<open>
  C9. No deadline is forgotten: whenever a queued request has a deadline, the timer has fired and waits to be
  handled, or it is running and fires no later than that deadline. (The deadline must not lie more than \<open>2 ^ 63\<close>
  nanoseconds, some 292 years, before a reading of the clock, where the duration is cut off.)
\<close>

theorem deadline_timer_armed:
  assumes "os_ok E owned" and "reachable E w" and "x \<in> set (queue_of s (fdDescs w d))"
    and "\<not> IsZero (cb_deadline (aiocbs w (el_Value x)))"
    and "\<forall>v. fst (e_Now E v) \<le> cb_deadline (aiocbs w (el_Value x)) + 2 ^ 63"
  shows "timerC w \<or> (\<exists>t. timer w = Some t \<and> t \<le> cb_deadline (aiocbs w (el_Value x)))"
proof -
  have I: "owns E owned [] (qs w) w \<and> armed E w"
    by (rule armed_loop.reachable_inv [OF assms(2)])
      (auto simp: owns_def assms(1) own_new armed_def NewWatcherSize_def split: prod.splits option.splits)
  then have h: "el_Value x \<in> set (timeouts w)"
    using own_queueD(7) [of owned "[]" "qs w" w x d s] assms(3,4) by (auto simp: owns_def own_def own_heap_def qs_def)
  have "t \<le> cb_deadline (aiocbs w (el_Value x))" if "in_time E t (cb_deadline (aiocbs w (el_Value x)))" for t
  proof -
    from that consider "t \<le> cb_deadline (aiocbs w (el_Value x))" | v where "t + 2 ^ 63 \<le> fst (e_Now E v)" by (auto simp: in_time_def)
    then show ?thesis using assms(5) [rule_format] by cases (assumption, smt (verit))
  qed
  with I h show ?thesis by (fastforce simp: armed_def)
qed

text \<open>
  C10. A pass of the timer case removes exactly the requests whose deadline had passed at its clock reading:
  those that keep their place among the deadlines are the ones with a deadline at or after the reading. The pass
  ends with the timer set again if any of them remain.
\<close>

theorem expiry_is_complete:
  assumes "os_ok E owned" and "reachable E w" and "handleTimer E (w\<lparr>timerC := False\<rparr>) = Some w'"
    and "e_Now E (os w) = (now, world)"
  shows "set (timeouts w') = {r \<in> set (timeouts w). now \<le> cb_deadline (aiocbs w r)}
    \<and> (\<forall>r \<in> set (timeouts w'). now \<le> cb_deadline (aiocbs w' r)) \<and> (timeouts w' \<noteq> [] \<longrightarrow> timer w' \<noteq> None)"
proof -
  have "owns E owned [] (qs w) w" using assms(1) reachable_own [OF assms(1,2)] by (simp add: owns_def)
  then have ow: "owns E owned [] (qs (w\<lparr>timerC := False\<rparr>)) (w\<lparr>timerC := False\<rparr>)"
    using own_loop.timer_read [of E owned "[]" "qs w" w] by (simp add: qs_def)
  note e = handleTimer_end [OF assms(3) ow, of now world]
  show ?thesis using e assms(4) by auto
qed

text \<open>The clock stands at 100; two reads wait, with deadlines before and after it.\<close>

definition clock_env :: "world env" where
  "clock_env = sample_env\<lparr>e_Now := (\<lambda>v. (100, v))\<rparr>"

definition due_world :: world where
  "due_world = sample_world\<lparr>wo_sched := [[AReadTimeout (Some 1) sample_conn None 250, AReadTimeout (Some 2) sample_conn None 50]]\<rparr>"

lemmas eval_due = clock_env_def due_world_def eval_api eval_loop eval_heap eval_timer eval_sample

definition due_state :: "world watcher" where
  "due_state = the (loop_pending clock_env ((yield clock_env (sample_new 8 due_world))\<lparr>chPendingNotify := False\<rparr>))"

lemma clock_env_ok: "os_ok clock_env sample_owned"
  unfolding os_ok_def
  by (intro conjI) (auto simp: clock_env_def sample_env_def sample_owned_def sample_sched_def sample_read_def split: list.splits prod.splits)

lemma due_state_reachable: "reachable clock_env due_state"
proof -
  let ?y = "yield clock_env (sample_new 8 due_world)"
  have "\<not> loopDone ?y" "chPendingNotify ?y"
    "\<not> Option.is_none (loop_pending clock_env (?y\<lparr>chPendingNotify := False\<rparr>))"
    by (simp_all add: eval_due)
  then have "loop_step clock_env ?y due_state"
    by (intro loop_step.pending) (auto simp: due_state_def Option.is_none_def)
  moreover have "reachable clock_env (sample_new 8 due_world)"
    by (rule reachable.new [of _ 8 "\<lambda>_. replicate 8 0" due_world]) (simp add: sample_new_def NewWatcherSize_def clock_env_def sample_env_def)
  ultimately show ?thesis by (rule reachable.step [OF reachable.step [OF _ loop_step.other], rotated])
qed

theorem deadline_timer_armed_witness: "\<not> timerC due_state \<and> (\<exists>t. timer due_state = Some t \<and> t \<le> cb_deadline (aiocbs due_state 1))"
proof -
  let ?x = "\<lparr>el_id = 1, el_Value = 1\<rparr>"
  have x: "?x \<in> set (queue_of Reader (fdDescs due_state 0))" and d: "cb_deadline (aiocbs due_state (Suc 0)) = 50" and c: "\<not> timerC due_state"
    by (simp_all add: due_state_def eval_due queue_of_def)
  have "\<forall>v. fst (e_Now clock_env v) \<le> cb_deadline (aiocbs due_state (el_Value ?x)) + 2 ^ 63" by (simp add: d clock_env_def)
  from deadline_timer_armed [OF clock_env_ok due_state_reachable x _ this] c show ?thesis by (simp add: d zeroTime_def)
qed

theorem expiry_is_complete_witness:
  "\<exists>w'. handleTimer clock_env (due_state\<lparr>timerC := False\<rparr>) = Some w' \<and> set (timeouts w') = {0} \<and> chResults w' = [1] \<and> timer w' \<noteq> None"
proof -
  let ?h = "handleTimer clock_env (due_state\<lparr>timerC := False\<rparr>)"
  have "\<exists>w'. ?h = Some w' \<and> chResults w' = [1]" by (simp add: due_state_def eval_due)
  then obtain w' where w': "?h = Some w'" "chResults w' = [1]" by blast
  have t: "timeouts due_state = [Suc 0, 0]" "cb_deadline (aiocbs due_state 0) = 250" "cb_deadline (aiocbs due_state (Suc 0)) = 50"
    by (simp_all add: due_state_def eval_due)
  have "e_Now clock_env (os due_state) = (100, os due_state)" by (simp add: clock_env_def)
  from expiry_is_complete [OF clock_env_ok due_state_reachable w'(1) this] t
  have "set (timeouts w') = {r \<in> {Suc 0, 0}. 100 \<le> cb_deadline (aiocbs due_state r)}" "timeouts w' \<noteq> [] \<longrightarrow> timer w' \<noteq> None" by simp_all
  moreover have "{r \<in> {Suc 0, 0}. 100 \<le> cb_deadline (aiocbs due_state r)} = {0}" using t(2,3) by auto
  ultimately have "set (timeouts w') = {0}" "timer w' \<noteq> None" by (simp, metis empty_not_insert set_empty)
  with w' show ?thesis by (intro exI [of _ w']) simp
qed

end
