(* ===== verification/Descriptors.thy ===== *)
theory Descriptors
  imports Side_Invariants
begin

text \<open>
  Descriptors and shutdown. The watcher duplicates the descriptor of every connection it registers; this
  theory shows that it neither loses one nor keeps one after its loop has ended, and that a call of
  \<open>WaitIO\<close> that is collecting results while the loop ends may never return.
\<close>

section \<open>Operations that neither open nor close descriptors\<close>

definition calm :: "('w \<Rightarrow> fd set) \<Rightarrow> 'w watcher \<Rightarrow> 'w watcher \<Rightarrow> bool" where
  "calm owned w w' \<longleftrightarrow> owned (os w') = owned (os w) \<and> descs w' = descs w \<and> loopDone w' = loopDone w"

lemma calm_refl [simp]: "calm owned w w"
  by (simp add: calm_def)

lemma calm_trans: "calm owned u v \<Longrightarrow> calm owned v w \<Longrightarrow> calm owned u w"
  by (simp add: calm_def)

lemma calm_exec_act: "os_ok E owned \<Longrightarrow> calm owned w (exec_act E a w)"
  by (cases a)
    (auto simp: calm_def Read_def ReadTimeout_def ReadFull_def Write_def WriteTimeout_def Free_def
      aioCreate_def aiocbPool_Get_def aiocbPool_Put_def set_cb_def notifyPending_def Let_def
      WaitIO_enter_def fold_Put WaitIO_recv_def WaitIO_more_def WaitIO_drained_def WaitIO_notify_def notifyShouldSwap_def
      stop_def conn_finalizer_def split: option.splits prod.splits list.splits dest: os_okD(9,14))

lemma calm_yield:
  assumes "os_ok E owned" shows "calm owned w (yield E w)"
proof -
  have run: "calm owned w (run_acts E acts w)" for acts and w :: "'a watcher"
    unfolding run_acts_def
    by (induction acts arbitrary: w) (auto intro: calm_trans [OF calm_exec_act [OF assms]])
  obtain acts world where s: "e_sched E (os w) = (acts, world)" by fastforce
  then have "calm owned w (w\<lparr>os := world\<rparr>)" using os_okD(12) [OF assms s] by (simp add: calm_def)
  from calm_trans [OF this run] s show ?thesis by (simp add: yield_def)
qed

lemma calm_attempts:
  assumes "os_ok E owned"
  shows "read_loop E f buf r w = Some (a, w') \<Longrightarrow> calm owned w w'"
    "write_loop E f buf r w = Some (a, w') \<Longrightarrow> calm owned w w'"
proof -
  have once: "read_once E f buf r v = Some (a, v') \<Longrightarrow> calm owned v v'"
    "write_once E f buf r v = Some (a, v') \<Longrightarrow> calm owned v v'" for a v v'
    by (auto simp: read_once_def write_once_def calm_def set_cb_def Let_def split: option.splits prod.splits if_splits
        dest: os_okD(6,7) [OF assms])
  show "read_loop E f buf r w = Some (a, w') \<Longrightarrow> calm owned w w'" unfolding read_loop_def
    by (rule retry_loop_inv [where I = "calm owned w"]) (auto intro: calm_trans once)
  show "write_loop E f buf r w = Some (a, w') \<Longrightarrow> calm owned w w'" unfolding write_loop_def
    by (rule retry_loop_inv [where I = "calm owned w"]) (auto intro: calm_trans once)
qed

lemma calm_tryRead:
  assumes os: "os_ok E owned" and "tryRead E f r w = Some (fin, w')"
  shows "calm owned w w'"
proof -
  from assms(2) obtain buf us bb w1 a w2 where sb: "select_buffer r (yield E w) = Some (buf, us, bb, w1)"
    and rl: "read_loop E f buf r w1 = Some (a, w2)"
    and rest: "(if a = WouldBlock then Some (False, w2) else finish_read buf us bb r w2) = Some (fin, w')"
    by (auto simp: tryRead_def elim!: bind_SomeE)
  have "calm owned (yield E w) w1" using select_buffer_state [OF sb] by (auto simp: calm_def rotate_buffers_def)
  moreover have "calm owned w2 w'"
    using rest by (auto simp: calm_def finish_read_def Let_def set_cb_def split: if_splits option.splits)
  ultimately show ?thesis using calm_yield [OF os] calm_attempts(1) [OF os rl] by (blast intro: calm_trans)
qed

lemma calm_tryWrite:
  assumes os: "os_ok E owned" and "tryWrite E f r w = Some (fin, w')"
  shows "calm owned w w'"
  using assms(2) by (auto simp: tryWrite_def elim!: bind_SomeE split: option.splits if_splits dest: calm_attempts(2) [OF os])

lemma calm_deliver:
  assumes os: "os_ok E owned" and "deliver E r w = Some w'"
  shows "calm owned w w'"
proof -
  from assms(2) obtain w1 where l: "leave_heap r w = Some w1" and s: "send_loop E r w1 = Some w'"
    by (auto simp: deliver_def elim!: bind_SomeE)
  have "calm owned w w1" using l by (auto simp: leave_heap_def calm_def split: if_splits option.splits)
  moreover have once: "calm owned v v'" if so: "send_once E r v = (b, v')" for b v v'
  proof -
    obtain c world where sel: "e_select E (os (yield E v)) = (c, world)" by fastforce
    have "calm owned (yield E v) v'"
      using so unfolding send_once_def Let_def sel prod.case
      by (simp only: split: if_splits) (auto simp only: calm_def prod.inject, simp_all add: os_okD(13) [OF os sel])
    then show ?thesis by (rule calm_trans [OF calm_yield [OF os]])
  qed
  have "calm owned w1 w'"
    by (rule go_loop_inv [OF s [unfolded send_loop_def], where I = "calm owned w1"], simp)
      (split prod.splits, simp split: if_splits, metis calm_trans once)+
  ultimately show ?thesis by (rule calm_trans)
qed

lemma calm_updates:
  assumes "os_ok E owned"
  shows "calm owned w (set_err r e w)" "calm owned w (dequeue s d e' w)" "calm owned w (track_deadline E r w)"
    "calm owned w (enqueue s d r w)"
  by (auto simp: calm_def set_err_def set_cb_def dequeue_def set_desc_def enqueue_def track_deadline_def timer_Reset_def Let_def
      split: prod.splits dest: os_okD(11) [OF assms])

text \<open>\<open>calm\<close> as rewrite rules, for the operations that are composed of these.\<close>

lemmas calm_ops = calm_tryRead calm_tryWrite calm_deliver
lemmas calm_simps = calm_updates [unfolded calm_def]

lemma calm_fail_all: "os_ok E owned \<Longrightarrow> fail_all E es w = Some w' \<Longrightarrow> calm owned w w'"
proof (induction es arbitrary: w)
  case (Cons e es)
  then obtain w1 where "deliver E (el_Value e) (set_err (el_Value e) ErrClosedPipe w) = Some w1" "fail_all E es w1 = Some w'"
    by (auto elim: bind_SomeE)
  with Cons.IH [OF Cons.prems(1)] calm_deliver [OF Cons.prems(1)] calm_updates(1) [OF Cons.prems(1)] show ?case
    by (meson calm_trans)
qed simp

lemma calm_start_op:
  assumes os: "os_ok E owned" and "start_op E f d r w = Some w'"
  shows "calm owned w w'"
  using assms(2)
  by (auto simp: start_op_def calm_def calm_simps [OF os] elim!: bind_SomeE split: OpType.splits if_splits
      dest!: calm_ops [OF os])

lemma calm_retry:
  assumes os: "os_ok E owned"
  shows "retry_reads E f d xs w = Some w' \<Longrightarrow> calm owned w w'" "retry_writes E f d xs w = Some w' \<Longrightarrow> calm owned w w'"
proof (induction xs arbitrary: w)
  case (Cons x xs)
  { case 1 with Cons.IH(1) show ?case
      by (auto simp: calm_def calm_simps [OF os] elim!: bind_SomeE split: if_splits dest!: calm_ops [OF os]) }
  { case 2 with Cons.IH(2) show ?case
      by (auto simp: calm_def calm_simps [OF os] elim!: bind_SomeE split: if_splits dest!: calm_ops [OF os]) }
qed simp_all

lemma calm_handleEvents:
  assumes os: "os_ok E owned"
  shows "handleEvents E es w = Some w' \<Longrightarrow> calm owned w w'"
proof (induction es arbitrary: w)
  case (Cons e es)
  have "calm owned v v'" if "handle_event E e v = Some v'" for v v'
    using that by (auto simp: handle_event_def calm_def elim!: bind_SomeE split: option.splits if_splits
        dest!: calm_retry [OF os])
  with Cons show ?case by (auto elim!: bind_SomeE intro: calm_trans)
qed simp

lemma calm_handleTimer:
  assumes os: "os_ok E owned" and ret: "handleTimer E w = Some w'"
  shows "calm owned w w'"
proof -
  obtain now world where n: "e_Now E (os w) = (now, world)" by fastforce
  have once: "calm owned v v'" if "expire_once E now v = Some (b, v')" for b v v'
    using that by (auto simp: expire_once_def calm_def calm_simps [OF os] timer_Reset_def Let_def elim!: bind_SomeE
        split: list.splits if_splits option.splits prod.splits dest!: calm_deliver [OF os])
  have "calm owned w (w\<lparr>os := world\<rparr>)" using os_okD(11) [OF os n] by (simp add: calm_def)
  moreover have "calm owned (w\<lparr>os := world\<rparr>) w'"
  proof -
    have "go_loop (\<lambda>w. map_option (\<lambda>(more, w1). if more then Inl w1 else Inr w1) (expire_once E now w)) (w\<lparr>os := world\<rparr>) = Some w'"
      using ret n by (simp add: handleTimer_def expire_loop_def)
    then show ?thesis
      by (rule go_loop_inv [where I = "calm owned (w\<lparr>os := world\<rparr>)"]) (auto split: if_splits intro: calm_trans [OF _ once])
  qed
  ultimately show ?thesis by (rule calm_trans)
qed

section \<open>Operations that open or close descriptors\<close>

text \<open>Every descriptor the watcher opened is registered, if it was so before.\<close>

definition no_leak :: "('w \<Rightarrow> fd set) \<Rightarrow> 'w watcher \<Rightarrow> bool" where
  "no_leak owned w \<longleftrightarrow> owned (os w) \<subseteq> dom (descs w)"

definition tidy :: "('w \<Rightarrow> fd set) \<Rightarrow> 'w watcher \<Rightarrow> 'w watcher \<Rightarrow> bool" where
  "tidy owned w w' \<longleftrightarrow> loopDone w' = loopDone w \<and> (no_leak owned w \<longrightarrow> no_leak owned w')"

lemma tidy_trans: "tidy owned u v \<Longrightarrow> tidy owned v w \<Longrightarrow> tidy owned u w"
  by (simp add: tidy_def)

lemma calm_tidy: "calm owned w w' \<Longrightarrow> tidy owned w w'"
  by (simp add: calm_def tidy_def no_leak_def)

lemma releaseConn_descs:
  assumes os: "os_ok E owned" and "releaseConn E f w = Some w'"
  shows "descs w' = (descs w)(f := None)" and "tidy owned w w'"
proof -
  have "descs w' = (descs w)(f := None) \<and> tidy owned w w'"
  proof (cases "descs w f")
    case None
    with assms(2) show ?thesis by (auto simp: releaseConn_def tidy_def)
  next
    case (Some d)
    with assms(2) obtain w1 w2 where r: "fail_all E (fd_readers (fdDescs w d)) w = Some w1"
      "fail_all E (fd_writers (fdDescs w1 d)) w1 = Some w2" and w': "w' = unregister E f d w2"
      by (auto simp: releaseConn_def elim!: bind_SomeE)
    from calm_trans [OF calm_fail_all [OF os r(1)] calm_fail_all [OF os r(2)]] os_okD(15) [OF os, of f "os w2"]
    show ?thesis
      by (auto simp: w' calm_def tidy_def no_leak_def unregister_def set_desc_def)
  qed
  then show "descs w' = (descs w)(f := None)" and "tidy owned w w'" by auto
qed

lemma register_tidy:
  assumes os: "os_ok E owned" and "register E f r w = (d, w')"
  shows "loopDone w' = loopDone w" and "owned (os w) \<subseteq> insert f (dom (descs w)) \<Longrightarrow> no_leak owned w'"
proof -
  obtain k world where p: "e_pool E (e_conn_Close E (cb_conn (aiocbs w r)) (os w)) = (k, world)" by fastforce
  have "descs w' = (descs w)(f \<mapsto> d)" "os w' = world" "loopDone w' = loopDone w"
    using assms(2) p by (auto simp: register_def fdDescPool_Get_def set_desc_def Let_def split: if_splits)
  moreover have "owned world = owned (os w)" using os_okD(14) [OF os p] os_okD(5) [OF os] by simp
  ultimately show "loopDone w' = loopDone w" and "owned (os w) \<subseteq> insert f (dom (descs w)) \<Longrightarrow> no_leak owned w'"
    by (auto simp: no_leak_def)
qed

lemma handle_request_tidy:
  assumes os: "os_ok E owned" and ret: "handle_request E r w = Some w'"
  shows "tidy owned w w'"
proof (cases "connIdents w (cb_ptr (aiocbs w r))")
  case (Some f)
  then show ?thesis
    using ret by (auto simp: handle_request_def Let_def split: if_splits option.splits
        dest: releaseConn_descs(2) [OF os] calm_start_op [OF os] intro: calm_tidy)
next
  case None
  obtain f err world where dup: "e_dupconn E (cb_conn (aiocbs w r)) (os w) = ((f, err), world)" by (metis surj_pair)
  let ?w1 = "w\<lparr>os := world\<rparr>"
  show ?thesis
  proof (cases err)
    case (Some e)
    have "calm owned w (set_err r e ?w1)"
      using os_okD(3) [OF os dup [unfolded Some]] by (simp add: calm_def set_err_def set_cb_def)
    moreover have "deliver E r (set_err r e ?w1) = Some w'" using ret None dup Some by (simp add: handle_request_def)
    ultimately show ?thesis using calm_deliver [OF os] calm_trans calm_tidy by blast
  next
    case opened: None
    note o1 = os_okD(2) [OF os dup [unfolded opened]]
    obtain werr world2 where wat: "e_Watch E f world = (werr, world2)" by fastforce
    note o2 = os_okD(8) [OF os wat]
    let ?w2 = "w\<lparr>os := world2\<rparr>"
    show ?thesis
    proof (cases werr)
      case (Some e)
      let ?w3 = "set_err r e (w\<lparr>os := e_closeFd E f world2\<rparr>)"
      have "deliver E r ?w3 = Some w'" using ret None dup opened wat Some by (simp add: handle_request_def)
      from calm_tidy [OF calm_deliver [OF os this]] have "tidy owned ?w3 w'" .
      moreover have "tidy owned w ?w3"
        using os_okD(4) [OF os, of f world2] o1 o2 by (auto simp: tidy_def no_leak_def set_err_def set_cb_def)
      ultimately show ?thesis by (rule tidy_trans [rotated])
    next
      case watched: None
      obtain d w3 where reg: "register E f r ?w2 = (d, w3)" by fastforce
      have "start_op E f d r w3 = Some w'" using ret None dup opened wat watched reg by (simp add: handle_request_def)
      from calm_tidy [OF calm_start_op [OF os this]] have "tidy owned w3 w'" .
      moreover have "tidy owned w w3"
        using register_tidy [OF os reg] o1 o2 by (simp add: tidy_def no_leak_def) blast
      ultimately show ?thesis by (rule tidy_trans [rotated])
    qed
  qed
qed

lemma handlePending_tidy: "os_ok E owned \<Longrightarrow> handlePending E rs w = Some w' \<Longrightarrow> tidy owned w w'"
proof (induction rs arbitrary: w)
  case (Cons r rs)
  from Cons.prems(2) obtain w1 where "handle_request E r w = Some w1" "handlePending E rs w1 = Some w'"
    by (auto elim: bind_SomeE)
  with Cons.IH [OF Cons.prems(1)] handle_request_tidy [OF Cons.prems(1)] show ?case by (blast intro: tidy_trans)
qed (simp add: tidy_def)

lemma release_conns_tidy: "os_ok E owned \<Longrightarrow> release_conns E cs w = Some w' \<Longrightarrow> tidy owned w w'"
proof (induction cs arbitrary: w)
  case (Cons c cs)
  from Cons.prems(2) obtain w1 where "(case connIdents w c of Some f \<Rightarrow> releaseConn E f w | None \<Rightarrow> Some w) = Some w1"
    and rest: "release_conns E cs w1 = Some w'"
    by (auto elim: bind_SomeE)
  then have "tidy owned w w1"
    by (auto split: option.splits simp: tidy_def dest: releaseConn_descs(2) [OF Cons.prems(1)])
  with Cons.IH [OF Cons.prems(1) rest] show ?case by (rule tidy_trans [rotated])
qed (simp add: tidy_def)

lemma release_all_tidy:
  "os_ok E owned \<Longrightarrow> release_all E fs w = Some w' \<Longrightarrow> tidy owned w w' \<and> descs w' = descs w |` (- set fs)"
proof (induction fs arbitrary: w)
  case (Cons f fs)
  from Cons.prems(2) obtain w1 where r: "releaseConn E f w = Some w1" and rest: "release_all E fs w1 = Some w'"
    by (auto elim: bind_SomeE)
  from Cons.IH [OF Cons.prems(1) rest] releaseConn_descs [OF Cons.prems(1) r] show ?case
    by (auto simp: restrict_map_def fun_eq_iff intro: tidy_trans)
qed (simp add: tidy_def restrict_map_def)

lemma drain_loop_end:
  assumes os: "os_ok E owned" and "drain_loop E w = Some w'"
  shows "calm owned w w' \<and> chResults w' = []"
proof (rule go_loop_inv [OF assms(2) [unfolded drain_loop_def], where I = "calm owned w"])
  have step: "calm owned v (yield E v)" for v by (rule calm_yield [OF os])
  fix v v' assume v: "calm owned w v"
  show "Some (drain_once E v) = Some (Inl v') \<Longrightarrow> calm owned w v'"
    using v step [of v] by (auto simp: drain_once_def Let_def calm_def set_cb_def split: list.splits)
  show "Some (drain_once E v) = Some (Inr v') \<Longrightarrow> calm owned w v' \<and> chResults v' = []"
    using v step [of v] by (auto simp: drain_once_def Let_def calm_def split: list.splits)
qed simp

lemma loop_exit_end:
  assumes os: "os_ok E owned" and "loop_exit E order w = Some w'" and "set order = dom (descs w)"
  shows "loopDone w' \<and> descs w' = Map.empty \<and> chResults w' = [] \<and> pendingCreate w' = []
     \<and> (no_leak owned w \<longrightarrow> no_leak owned w')"
proof -
  from assms(2) obtain w1 w2 where r: "release_all E order w = Some w1" and d: "drain_loop E w1 = Some w2"
    and w': "w' = w2\<lparr>pendingCreate := [], pendingProcessing := [], loopDone := True\<rparr>"
    by (auto simp: loop_exit_def elim!: bind_SomeE)
  have "descs w1 = Map.empty" using release_all_tidy [OF os r] assms(3) by (auto simp: restrict_map_def fun_eq_iff)
  with release_all_tidy [OF os r] drain_loop_end [OF os d] show ?thesis
    by (auto simp: w' calm_def tidy_def no_leak_def)
qed

section \<open>All reachable states\<close>

definition accounted :: "('w \<Rightarrow> fd set) \<Rightarrow> 'w watcher \<Rightarrow> bool" where
  "accounted owned w \<longleftrightarrow> no_leak owned w
     \<and> (loopDone w \<longrightarrow> die w \<and> descs w = Map.empty \<and> chResults w = [] \<and> pendingCreate w = [])"

lemma exec_act_ended:
  "die w \<and> chResults w = [] \<and> pendingCreate w = [] \<Longrightarrow>
   die (exec_act E a w) \<and> chResults (exec_act E a w) = [] \<and> pendingCreate (exec_act E a w) = []"
  by (cases a)
    (auto simp: Read_def ReadTimeout_def ReadFull_def Write_def WriteTimeout_def Free_def
      aioCreate_def aiocbPool_Get_def aiocbPool_Put_def set_cb_def notifyPending_def Let_def
      WaitIO_enter_def fold_Put WaitIO_recv_def WaitIO_more_def WaitIO_drained_def WaitIO_notify_def notifyShouldSwap_def
      stop_def conn_finalizer_def split: option.splits prod.splits)

lemma yield_ended:
  assumes "die w \<and> chResults w = [] \<and> pendingCreate w = []"
  shows "die (yield E w) \<and> chResults (yield E w) = [] \<and> pendingCreate (yield E w) = []"
proof -
  have "die w \<and> chResults w = [] \<and> pendingCreate w = [] \<Longrightarrow>
      die (run_acts E acts w) \<and> chResults (run_acts E acts w) = [] \<and> pendingCreate (run_acts E acts w) = []" for acts and w :: "'a watcher"
    unfolding run_acts_def by (induction acts arbitrary: w) (simp_all add: exec_act_ended)
  with assms show ?thesis by (simp add: yield_def split: prod.splits)
qed

lemma loop_step_accounted:
  assumes "loop_step E w w'" and os: "os_ok E owned" and c: "loopDone w \<longrightarrow> die w" "loopDone w' \<longrightarrow> die w'"
    and "accounted owned w"
  shows "accounted owned w'"
proof -
  have tidyI: "accounted owned v" if "\<not> loopDone w" "tidy owned w v" for v
    using that assms(5) by (simp add: accounted_def tidy_def)
  have exit: "accounted owned w'" if "loop_exit E order v = Some w'" "set order = dom (descs v)" "no_leak owned v" for order v
    using loop_exit_end [OF os that(1,2)] that(3) c(2) by (simp add: accounted_def)
  show ?thesis
    using assms(1)
  proof cases
    case other
    then show ?thesis
      using calm_yield [OF os, of w] yield_ended [of w E] assms(5) c by (auto simp: accounted_def calm_def no_leak_def)
  next
    case pending
    then have "tidy owned (w\<lparr>chPendingNotify := False, pendingCreate := [], pendingProcessing := pendingCreate w\<rparr>) w'"
      by (auto simp: loop_pending_def tidy_def no_leak_def elim!: bind_SomeE dest!: handlePending_tidy [OF os])
    with pending(1) show ?thesis by (intro tidyI) (simp_all add: tidy_def no_leak_def)
  next
    case (signal s v)
    then have "calm owned w w'" using calm_handleEvents [OF os signal(5)] by (simp add: calm_def)
    with signal show ?thesis by (auto intro: tidyI calm_tidy)
  next
    case (signal_closed s v order)
    then have "calm owned w v" using calm_handleEvents [OF os signal_closed(4)] by (simp add: calm_def)
    then show ?thesis using assms(5) by (intro exit [OF signal_closed(8,6)]) (simp add: accounted_def calm_def no_leak_def)
  next
    case (signal_error s e v order)
    then have "calm owned w v" by (auto simp: stop_def calm_def split: if_splits prod.splits dest: os_okD(9) [OF os])
    then show ?thesis using assms(5) by (intro exit [OF signal_error(7,5)]) (simp add: accounted_def calm_def no_leak_def)
  next
    case timeout
    then have "calm owned w w'" using calm_handleTimer [OF os timeout(3)] by (simp add: calm_def)
    with timeout show ?thesis by (auto intro: tidyI calm_tidy)
  next
    case collect
    then have "tidy owned (w\<lparr>gcNotify := False, gcLocked := True\<rparr>) w'"
      by (auto simp: handleGC_def tidy_def no_leak_def elim!: bind_SomeE dest!: release_conns_tidy [OF os])
    with collect(1) show ?thesis by (intro tidyI) (simp_all add: tidy_def no_leak_def)
  next
    case (affinity cpuid)
    then show ?thesis using os_okD(10) [OF os] by (intro tidyI) (simp_all add: tidy_def no_leak_def)
  next
    case (closed order)
    show ?thesis using assms(5) by (intro exit [OF closed(5,3)]) (simp add: accounted_def)
  qed
qed

text \<open>A watcher starts with no descriptor of its own.\<close>

definition starts_clean :: "'w env \<Rightarrow> ('w \<Rightarrow> fd set) \<Rightarrow> bool" where
  "starts_clean E owned \<longleftrightarrow> (\<forall>v v'. e_openPoll E v = (None, v') \<longrightarrow> owned v' = {})"

lemma reachable_accounted:
  assumes "os_ok E owned" and "starts_clean E owned" and "reachable E w"
  shows "accounted owned w"
  using assms(3)
proof induction
  case (new n m world w)
  then show ?case using assms(2)
    by (auto simp: NewWatcherSize_def accounted_def no_leak_def starts_clean_def split: prod.splits option.splits)
next
  case (step w w')
  then show ?case
    using reachable_closed [OF assms(1)] reachable.step [OF step(1,2)] assms(1)
    by (intro loop_step_accounted [OF step(2)]) (auto simp: closed_flags_def)
qed

section \<open>Properties\<close>

text \<open>
  C2. No descriptor is lost and none is used after it was closed: between two steps of the loop, the
  duplicated descriptors that are open are exactly those in the registration map, whatever requests
  failed to register, expired, were released or finalized before.
\<close>

theorem open_descriptors_are_registered:
  assumes "os_ok E owned" and "starts_clean E owned" and "reachable E w"
  shows "owned (os w) = dom (descs w)"
proof -
  have "dom (descs w) \<subseteq> owned (os w)" using reachable_own [OF assms(1,3)] by (auto simp: own_def own_regs_def)
  with reachable_accounted [OF assms] show ?thesis by (auto simp: accounted_def no_leak_def)
qed

text \<open>
  C13. A watcher whose loop has ended holds nothing: both registration maps, the submission slice,
  the result channel and the deadline heap are empty, no request is queued, and every descriptor it
  duplicated is closed.
\<close>

theorem ended_watcher_holds_nothing:
  assumes "os_ok E owned" and "starts_clean E owned" and "reachable E w" and "loopDone w"
  shows "descs w = Map.empty \<and> connIdents w = Map.empty \<and> owned (os w) = {} \<and> pendingCreate w = [] \<and> chResults w = []
     \<and> timeouts w = [] \<and> qset (qs w) = {}"
proof -
  have a: "descs w = Map.empty" "owned (os w) = {}" "pendingCreate w = []" "chResults w = []"
    using reachable_accounted [OF assms(1-3)] assms(4) by (auto simp: accounted_def no_leak_def)
  have ow: "own owned [] (qs w) w" by (rule reachable_own [OF assms(1,3)])
  have "connIdents w p = None" for p
    using ow a(1) by (cases "connIdents w p") (auto simp: own_def own_regs_def)
  moreover have q: "qset (qs w) = {}" using ow a(1) by (fastforce simp: own_def own_queue_def qset_def)
  moreover have "timeouts w = []" using ow q by (simp add: own_def own_heap_def)
  ultimately show ?thesis using a by auto
qed

text \<open>
  A run with a registered connection: its two reads complete, the caller is collecting them when the
  watcher is stopped, and the loop ends.
\<close>

definition clean_env :: "world env" where
  "clean_env = sample_env\<lparr>e_openPoll := (\<lambda>v. (None, v\<lparr>wo_fds := []\<rparr>))\<rparr>"

definition strand_world :: world where
  "strand_world = sample_world\<lparr>
     wo_sched := [[ARead (Some 1) sample_conn None, ARead (Some 2) sample_conn None], [], [], [], [],
                  [AWaitEnter, AWaitRecv, AWaitMore, AStop], [], []],
     wo_reads := [(1, None, [5]), (1, None, [6])]\<rparr>"

definition clean_new :: "world watcher" where
  "clean_new = (case NewWatcherSize clean_env 8 (\<lambda>_. []) strand_world of Inr w \<Rightarrow> w)"

definition served_state :: "world watcher" where
  "served_state = the (loop_pending clean_env ((yield clean_env clean_new)\<lparr>chPendingNotify := False\<rparr>))"

definition stranded_state :: "world watcher" where
  "stranded_state = the (loop_exit clean_env [10] (yield clean_env served_state))"

lemmas eval_strand =
  clean_env_def strand_world_def clean_new_def served_state_def loop_exit_def releaseConn_def unregister_def
  drain_loop_again drain_loop_done drain_once_def stop_def zero_fdDesc_def eval_api eval_loop eval_sample

lemma clean_env_ok: "os_ok clean_env sample_owned" "starts_clean clean_env sample_owned"
proof -
  show "os_ok clean_env sample_owned" using sample_os_ok unfolding os_ok_def clean_env_def by simp
  show "starts_clean clean_env sample_owned" by (simp add: starts_clean_def clean_env_def sample_owned_def)
qed

lemma served_state_reachable: "reachable clean_env (yield clean_env served_state)"
proof -
  let ?y = "yield clean_env clean_new"
  have n: "reachable clean_env clean_new"
    by (rule reachable.new [of _ 8 "\<lambda>_. []" strand_world]) (simp add: clean_new_def NewWatcherSize_def clean_env_def sample_env_def)
  have "\<not> loopDone ?y" "chPendingNotify ?y" "\<not> Option.is_none (loop_pending clean_env (?y\<lparr>chPendingNotify := False\<rparr>))"
    by (simp_all add: eval_strand)
  then have "loop_step clean_env ?y served_state"
    by (intro loop_step.pending) (auto simp: served_state_def Option.is_none_def)
  from reachable.step [OF reachable.step [OF n loop_step.other] this]
  show ?thesis by (rule reachable.step [OF _ loop_step.other])
qed

lemma stranded_state_facts:
  "loopDone stranded_state" "die stranded_state" "wphase stranded_state = WRecv" "chResults stranded_state = []"
  "results stranded_state = [\<lparr>r_Operation = OpRead, r_Context = Some 1, r_Conn = Some 7,
     r_Buffer = Some \<lparr>s_arr = Swap 0, s_off = 0, s_len = 1, s_cap = 8\<rparr>, r_IsSwapBuffer = True, r_Size = 1, r_Error = None\<rparr>]"
  by (simp_all add: stranded_state_def eval_strand)

lemma stranded_state_reachable: "reachable clean_env stranded_state"
proof -
  let ?y = "yield clean_env served_state"
  have "\<not> loopDone ?y" "die ?y" "dom (descs ?y) = {10}" "\<not> Option.is_none (loop_exit clean_env [10] ?y)"
    by (simp_all add: eval_strand)
  then have "loop_step clean_env ?y stranded_state"
    by (intro loop_step.closed [where order = "[10]"]) (auto simp: stranded_state_def Option.is_none_def)
  with served_state_reachable show ?thesis by (rule reachable.step)
qed

theorem open_descriptors_are_registered_witness:
  "sample_owned (os (yield clean_env served_state)) = {10} \<and> descs (yield clean_env served_state) 10 = Some 0"
proof -
  have "descs (yield clean_env served_state) = [10 \<mapsto> 0]" by (simp add: eval_strand)
  with open_descriptors_are_registered [OF clean_env_ok served_state_reachable] show ?thesis by simp
qed

theorem ended_watcher_holds_nothing_witness:
  "loopDone stranded_state \<and> sample_owned (os stranded_state) = {} \<and> descs stranded_state = Map.empty"
  using ended_watcher_holds_nothing [OF clean_env_ok stranded_state_reachable stranded_state_facts(1)] stranded_state_facts(1)
  by simp

section \<open>A call of WaitIO that never returns\<close>

text \<open>
  After the end of the loop nobody sends on the result channel, and the receive in the collecting loop
  of \<open>WaitIO\<close> waits for nothing else.
\<close>

definition stranded :: "'w watcher \<Rightarrow> bool" where
  "stranded w \<longleftrightarrow> loopDone w \<and> wphase w = WRecv \<and> chResults w = []"

lemma stranded_exec_act: "stranded w \<Longrightarrow> stranded (exec_act E a w)"
  by (cases a)
    (auto simp: stranded_def Read_def ReadTimeout_def ReadFull_def Write_def WriteTimeout_def Free_def
      aioCreate_def aiocbPool_Get_def aiocbPool_Put_def set_cb_def notifyPending_def Let_def
      stop_def conn_finalizer_def split: option.splits prod.splits)

lemma stranded_step: "loop_step E w w' \<Longrightarrow> stranded w \<Longrightarrow> stranded w'"
proof (induction rule: loop_step.induct)
  case (other w)
  have "stranded w \<Longrightarrow> stranded (run_acts E acts w)" for acts and w :: "'a watcher"
    unfolding run_acts_def by (induction acts arbitrary: w) (simp_all add: stranded_exec_act)
  with other show ?case by (simp add: yield_def stranded_def split: prod.splits)
qed (simp_all add: stranded_def)

text \<open>
  C24. A flaw of the code: a call of \<open>WaitIO\<close> may never return although the watcher has been closed.
  Two results are queued; \<open>WaitIO\<close> takes the first and sees that the channel is not empty; the
  watcher is stopped and its loop drains the channel on its way out; the plain receive in \<open>WaitIO\<close>
  then waits for a result that no step of the system will ever send.
\<close>

theorem shutdown_strands_WaitIO:
  "\<exists>E w. os_ok E sample_owned \<and> starts_clean E sample_owned \<and> reachable E w \<and> die w \<and> length (results w) = 1
     \<and> wphase w = WRecv \<and> {w'. (loop_step E)\<^sup>*\<^sup>* w w'} \<subseteq> {w'. wphase w' = WRecv \<and> chResults w' = []}"
proof -
  have "stranded w'" if "(loop_step clean_env)\<^sup>*\<^sup>* stranded_state w'" for w'
    using that by induction (auto simp: stranded_state_facts stranded_def [of stranded_state] intro: stranded_step)
  then have "{w'. (loop_step clean_env)\<^sup>*\<^sup>* stranded_state w'} \<subseteq> {w'. wphase w' = WRecv \<and> chResults w' = []}"
    by (auto simp: stranded_def)
  with clean_env_ok stranded_state_reachable stranded_state_facts show ?thesis
    by (intro exI [of _ clean_env] exI [of _ stranded_state]) simp
qed

end
