(* ===== verification/Attempts.thy ===== *)
theory Attempts
  imports Side_Invariants
begin

text \<open>
  What one attempt to read or write does: where the bytes go, how much of the request is done, and
  how each result of the system call is reported. The theorems are about \<open>tryRead\<close> and
  \<open>tryWrite\<close> in any state; \<open>w1\<close> is the state in which the first system call is made.
\<close>

section \<open>The first system call decides\<close>

lemma tryRead_once:
  assumes "select_buffer r (yield E w) = Some (buf, us, bb, w1)" and "read_once E f buf r w1 = Some (a, w2)"
  shows "a = WouldBlock \<Longrightarrow> tryRead E f r w = Some (False, w2)"
    and "a = Finished \<Longrightarrow> tryRead E f r w = finish_read buf us bb r w2"
    and "a = Retry \<Longrightarrow> tryRead E f r w =
      do { (a', w3) \<leftarrow> read_loop E f buf r w2; if a' = WouldBlock then Some (False, w3) else finish_read buf us bb r w3 }"
  using assms by (simp_all add: tryRead_def read_loop_done)
    (simp add: read_loop_def go_loop.simps [where s = w1] retry_unless_def)

lemma tryWrite_once:
  assumes "cb_buffer (aiocbs w r) = Some buf" and "write_once E f buf r w = Some (a, w1)"
  shows "a = WouldBlock \<Longrightarrow> tryWrite E f r w = Some (False, w1)"
    and "a = Finished \<Longrightarrow> tryWrite E f r w =
      Some (cb_size (aiocbs w1 r) = int (s_len buf) \<or> cb_err (aiocbs w1 r) \<noteq> None, w1)"
    and "a = Retry \<Longrightarrow> cb_buffer (aiocbs w1 r) = Some buf \<Longrightarrow> tryWrite E f r w = tryWrite E f r w1"
  using assms by (simp_all add: tryWrite_def write_loop_done)
    (simp add: write_loop_def go_loop.simps [where s = w] retry_unless_def)

text \<open>The window of a buffer that holds the first \<open>n\<close> bytes.\<close>

definition prefix_of :: "slice \<Rightarrow> nat \<Rightarrow> slice" where
  "prefix_of b n = b\<lparr>s_len := n\<rparr>"

lemma mem_read_prefix_0 [simp]: "mem_read m (prefix_of b 0) = []"
  by (simp add: mem_read_def prefix_of_def)

lemma mem_read_append:
  assumes "slice_from b (int k) = Some p" and "s_off b + k \<le> length (m (s_arr b))"
  shows "mem_read (mem_write m p bs) (prefix_of b (k + length bs)) = mem_read m (prefix_of b k) @ bs"
proof -
  have p: "s_arr p = s_arr b" "s_off p = s_off b + k" using slice_from_Some [OF assms(1)] by simp_all
  let ?l = "m (s_arr b)"
  have "mem_read (mem_write m p bs) (prefix_of b (k + length bs))
      = take (k + length bs) (drop (s_off b) (take (s_off b + k) ?l @ bs @ drop (s_off b + k + length bs) ?l))"
    by (simp add: mem_read_def mem_write_def prefix_of_def p)
  also have "\<dots> = take (k + length bs) (take k (drop (s_off b) ?l) @ bs @ drop (s_off b + k + length bs) ?l)"
    using assms(2) by (simp add: drop_take)
  also have "\<dots> = take k (drop (s_off b) ?l) @ bs" using assms(2) by simp
  finally show ?thesis by (simp add: mem_read_def prefix_of_def)
qed

section \<open>Reading\<close>

text \<open>Where the bytes go: the request's own buffer, or one that the result will expose.\<close>

lemma select_buffer_cases:
  assumes "select_buffer r w = Some (buf, us, bb, w1)"
  obtains "cb_buffer (aiocbs w1 r) = Some buf" "\<not> us" "\<not> bb"
    | "cb_buffer (aiocbs w1 r) = None" "us \<longleftrightarrow> \<not> bb"
  using assms
  by (cases "cb_buffer (aiocbs w r)") (auto simp: select_buffer_def Let_def rotate_buffers_def split: option.splits if_splits)

text \<open>
  C17. A read appends, and the result shows it: when the system call stores \<open>bs\<close>, the result of the request has
  no error, its size has grown by their number, and its buffer (the caller's, a part of the shared one, or the one
  inside the request) holds what was read before followed by \<open>bs\<close>. The part of the shared buffer is taken out of
  it: the next read starts behind. The request is complete, except that \<open>ReadFull\<close>, which always has a buffer of the
  caller, is so only with a full buffer.
\<close>

theorem read_appends_data:
  assumes sel: "select_buffer r (yield E w) = Some (buf, us, bb, w1)" and sz: "cb_size (aiocbs w1 r) = int k"
    and kr: "e_rawRead E f (s_len buf - k) (os w1) = ((int (length bs), None, bs), v)"
    and bs: "bs \<noteq> []" "k + length bs \<le> s_len buf" "s_len buf \<le> s_cap buf"
    and room: "s_off buf + s_len buf \<le> length (mem w1 (s_arr buf))"
    and full: "cb_readFull (aiocbs w1 r) \<longrightarrow> cb_buffer (aiocbs w1 r) \<noteq> None"
  shows "\<exists>fin w' b. tryRead E f r w = Some (fin, w') \<and> r_Error (result_of (aiocbs w' r)) = None
     \<and> r_Size (result_of (aiocbs w' r)) = int (k + length bs) \<and> r_Buffer (result_of (aiocbs w' r)) = Some b
     \<and> s_arr b = s_arr buf \<and> s_off b = s_off buf \<and> mem_read (mem w') (prefix_of b (k + length bs)) = mem_read (mem w1) (prefix_of buf k) @ bs
     \<and> (us \<longrightarrow> r_IsSwapBuffer (result_of (aiocbs w' r)) \<and> s_len b = k + length bs \<and> bufferOffset w' = bufferOffset w1 + int (k + length bs))
     \<and> fin = (\<not> cb_readFull (aiocbs w1 r) \<or> k + length bs = len_of (cb_buffer (aiocbs w1 r)))"
proof -
  obtain p where p: "slice_from buf (int k) = Some p" "s_len p = s_len buf - k"
    using bs by (auto simp: slice_from_def)
  let ?n = "k + length bs"
  let ?c = "(aiocbs w1 r)\<lparr>cb_size := int ?n, cb_err := None\<rparr>" and ?v = "w1\<lparr>os := v, mem := mem_write (mem w1) p bs\<rparr>"
  have "read_once E f buf r w1 = Some (Finished, set_cb r ?c ?v)"
    using p kr sz bs(1) by (simp add: read_once_def)
  note t = tryRead_once(2) [OF sel this refl]
  have d: "mem_read (mem_write (mem w1) p bs) (prefix_of buf ?n) = mem_read (mem w1) (prefix_of buf k) @ bs"
    by (rule mem_read_append [OF p(1)]) (use bs room in simp)
  have d': "mem_read (mem_write (mem w1) p bs) (prefix_of (prefix_of buf ?n) ?n) = mem_read (mem w1) (prefix_of buf k) @ bs"
    using d by (simp add: prefix_of_def)
  have up: "slice_upto buf (int ?n) = Some (prefix_of buf ?n)" using bs by (simp add: slice_upto_def prefix_of_def)
  from sel show ?thesis
  proof (cases rule: select_buffer_cases)
    case 1
    with t d show ?thesis by (auto simp: finish_read_def Let_def set_cb_def result_of_def)
  next
    case 2
    with full have "\<not> cb_readFull (aiocbs w1 r)" by simp
    with 2 t d d' up show ?thesis by (cases us) (auto simp: finish_read_def Let_def set_cb_def result_of_def prefix_of_def)
  qed
qed

text \<open>
  C25. A read that brings no data: a call that would block leaves the request waiting as it was; an error
  completes it with that error; no bytes without an error complete it with \<open>EOF\<close>. In each case the
  size stays what it was.
\<close>

theorem read_reports_failure:
  assumes sel: "select_buffer r (yield E w) = Some (buf, us, bb, w1)" and sz: "cb_size (aiocbs w1 r) = int k"
    and k: "k \<le> s_len buf" "s_len buf \<le> s_cap buf"
    and kr: "e_rawRead E f (s_len buf - k) (os w1) = ((n, er, bs), v)" and er: "er \<noteq> Some EINTR" "er = None \<longrightarrow> n = 0"
  shows "\<exists>w'. tryRead E f r w = Some (er \<noteq> Some EAGAIN, w') \<and> cb_size (aiocbs w' r) = int k
     \<and> (er = Some EAGAIN \<longrightarrow> aiocbs w' r = aiocbs w1 r)
     \<and> (er \<noteq> Some EAGAIN \<longrightarrow> cb_err (aiocbs w' r) = Some (case er of None \<Rightarrow> EOF | Some e \<Rightarrow> ErrSys e))"
proof -
  obtain p where p: "slice_from buf (int k) = Some p" "s_len p = s_len buf - k"
    using k by (auto simp: slice_from_def)
  let ?w = "w1\<lparr>os := v, mem := mem_write (mem w1) p bs\<rparr>"
  let ?c = "(aiocbs w1 r)\<lparr>cb_err := Some (case er of None \<Rightarrow> EOF | Some e \<Rightarrow> ErrSys e)\<rparr>"
  show ?thesis
  proof (cases "er = Some EAGAIN")
    case True
    then have "read_once E f buf r w1 = Some (WouldBlock, ?w)" using p kr sz by (simp add: read_once_def)
    from tryRead_once(1) [OF sel this refl] True sz show ?thesis by simp
  next
    case False
    then have "read_once E f buf r w1 = Some (Finished, set_cb r ?c ?w)"
      using p kr sz er by (cases er) (simp_all add: read_once_def)
    from tryRead_once(2) [OF sel this refl] False k sz show ?thesis
      by (auto simp: finish_read_def Let_def slice_upto_def set_cb_def)
  qed
qed

section \<open>Writing\<close>

text \<open>
  C26. A write continues where the last one stopped: the system call gets exactly the part of the buffer
  that was not yet accepted, and the size grows by what it accepts. The request is complete when everything
  was accepted or the call failed, and waits when the call would block or the system is out of buffers.
\<close>

theorem write_resumes_at_size:
  assumes b: "cb_buffer (aiocbs w r) = Some buf" and sz: "cb_size (aiocbs w r) = int k" and k: "k \<le> s_len buf"
    and kw: "e_rawWrite E f (drop k (mem_read (mem w) buf)) (os w) = ((n, ew), v)" and ew: "ew \<noteq> Some EINTR"
  shows "\<exists>w'. tryWrite E f r w =
       Some (if ew = None then int k + n = int (s_len buf) else ew \<noteq> Some EAGAIN \<and> ew \<noteq> Some ENOBUFS, w')
     \<and> cb_size (aiocbs w' r) = (if ew = None then int k + n else int k) \<and> cb_err (aiocbs w' r) = map_option ErrSys ew
     \<and> cb_buffer (aiocbs w' r) = Some buf \<and> mem w' = mem w"
proof -
  obtain p where p: "slice_from buf (int k) = Some p" "mem_read (mem w) p = drop k (mem_read (mem w) buf)"
    using k by (auto simp: slice_from_def mem_read_def drop_take ac_simps)
  let ?c = "(aiocbs w r)\<lparr>cb_err := map_option ErrSys ew\<rparr>"
  let ?w = "(set_cb r ?c w)\<lparr>os := v\<rparr>"
  show ?thesis
  proof (cases "ew = Some EAGAIN \<or> ew = Some ENOBUFS")
    case True
    then have "write_once E f buf r w = Some (WouldBlock, ?w)" using p kw sz by (auto simp: write_once_def Let_def)
    from tryWrite_once(1) [OF b this refl] True b sz show ?thesis by (auto simp: set_cb_def)
  next
    case False
    then have "write_once E f buf r w = Some (Finished, if ew = None then set_cb r (?c\<lparr>cb_size := int k + n\<rparr>) ?w else ?w)"
      using p kw sz ew by (simp add: write_once_def Let_def)
    from tryWrite_once(2) [OF b this refl] False b sz show ?thesis by (auto simp: set_cb_def)
  qed
qed

section \<open>Reads into an empty buffer\<close>

text \<open>
  C27. A deviation from what the caller can expect: \<open>Read\<close> accepts a buffer that is not nil but empty
  (\<open>Write\<close> and \<open>ReadFull\<close> refuse it), and the attempt on a healthy connection, where reading no bytes
  succeeds, completes it with \<open>EOF\<close>, as if the peer had closed the stream.
\<close>

theorem empty_buffer_reads_EOF:
  assumes "\<not> die w0" and "0 < c" and "s_len b = 0"
    and "cb_buffer (aiocbs (yield E w) r) = Some b" and "cb_size (aiocbs (yield E w) r) = 0"
    and "e_rawRead E f 0 (os (yield E w)) = ((0, None, []), v)"
  shows "fst (Read E cx (Some c) (Some b) w0) = None
     \<and> fst (Write E cx (Some c) (Some b) w0) = Some ErrEmptyBuffer
     \<and> fst (ReadFull E cx (Some c) (Some b) dl w0) = Some ErrEmptyBuffer
     \<and> (\<exists>w'. tryRead E f r w = Some (True, w') \<and> cb_err (aiocbs w' r) = Some EOF \<and> cb_size (aiocbs w' r) = 0)"
proof -
  have sel: "select_buffer r (yield E w) = Some (b, False, False, yield E w)" using assms(4) by (simp add: select_buffer_def)
  have p: "slice_from b 0 = Some b" by (simp add: slice_from_def)
  let ?w = "(yield E w)\<lparr>os := v, mem := mem_write (mem (yield E w)) b []\<rparr>"
  have "read_once E f b r (yield E w) =
      Some (Finished, set_cb r ((aiocbs (yield E w) r)\<lparr>cb_err := Some EOF\<rparr>) ?w)"
    using assms(3,5,6) by (simp add: read_once_def p)
  from tryRead_once(2) [OF sel this refl]
  have "\<exists>w'. tryRead E f r w = Some (True, w') \<and> cb_err (aiocbs w' r) = Some EOF \<and> cb_size (aiocbs w' r) = 0"
    using assms(5) by (simp add: finish_read_def Let_def)
  moreover have "fst (Read E cx (Some c) (Some b) w0) = None"
    using assms(1,2) by (auto simp: Read_def aioCreate_def aiocbPool_Get_def set_cb_def notifyPending_def Let_def split: prod.splits)
  ultimately show ?thesis using assms(3) by (simp add: Write_def ReadFull_def len_of_def)
qed

section \<open>Examples\<close>

text \<open>A request \<open>0\<close> of four bytes in a caller's array, and one for the shared buffers.\<close>

definition try_world :: "(int \<times> errno option \<times> byte list) list \<Rightarrow> slice option \<Rightarrow> world" where
  "try_world rs b = sample_world\<lparr>wo_sched := [[ARead (Some 1) sample_conn b]], wo_reads := rs\<rparr>"

definition try_state :: "(int \<times> errno option \<times> byte list) list \<Rightarrow> slice option \<Rightarrow> world watcher" where
  "try_state rs b = yield sample_env (sample_new 8 (try_world rs b))"

lemmas eval_try = try_world_def try_state_def eval_api eval_loop eval_sample

text \<open>A watcher whose shared buffers are empty: the bytes go into the buffer inside the request.\<close>

definition back_state :: "world watcher" where
  "back_state = yield sample_env (sample_new 0 (try_world [(2, None, [7, 9])] None))"

theorem read_appends_data_witness:
  "\<exists>w' b. tryRead sample_env 10 0 back_state = Some (True, w') \<and> r_Buffer (result_of (aiocbs w' 0)) = Some b
     \<and> s_arr b = Back 0 \<and> mem_read (mem w') (prefix_of b 2) = [7, 9]"
proof -
  let ?b = "mk_slice (Back 0) backBufferSize" and ?y = "yield sample_env back_state"
  let ?v = "(os ?y)\<lparr>wo_reads := []\<rparr>"
  have s: "select_buffer 0 ?y = Some (?b, False, True, ?y)" by (simp add: back_state_def eval_try)
  have k: "e_rawRead sample_env 10 (s_len ?b - 0) (os ?y) = ((int (length [7, 9 :: byte]), None, [7, 9]), ?v)"
    by (simp add: back_state_def eval_try backBufferSize_def)
  have f: "cb_size (aiocbs ?y 0) = int 0" "\<not> cb_readFull (aiocbs ?y 0)" "length (mem ?y (Back 0)) = backBufferSize"
    by (simp_all add: back_state_def eval_try)
  have b: "2 \<le> s_len ?b" "s_len ?b \<le> s_cap ?b" "s_off ?b = 0" "s_arr ?b = Back 0" "s_len ?b = backBufferSize" by (simp_all add: mk_slice_def backBufferSize_def)
  from read_appends_data [OF s f(1) k _ _ b(2)] b f(2,3) show ?thesis by (auto simp: numeral_2_eq_2)
qed

theorem read_reports_failure_witness:
  "\<exists>w'. tryRead sample_env 10 0 (try_state [(0, None, [])] None) = Some (True, w') \<and> cb_err (aiocbs w' 0) = Some EOF"
proof -
  let ?w = "try_state [(0, None, [])] None"
  let ?b = "\<lparr>s_arr = Swap 0, s_off = 0, s_len = 8, s_cap = 8\<rparr>"
  let ?y = "yield sample_env ?w"
  let ?v = "(os ?y)\<lparr>wo_reads := []\<rparr>"
  have s: "select_buffer 0 ?y = Some (?b, True, False, ?y)" by (simp add: eval_try)
  have k: "e_rawRead sample_env 10 (s_len ?b - 0) (os ?y) = ((0, None, []), ?v)" by (simp add: eval_try)
  have f: "cb_size (aiocbs ?y 0) = int 0" by (simp add: eval_try)
  from read_reports_failure [OF s f _ _ k] show ?thesis by auto
qed

definition half_written :: "world watcher" where
  "half_written = (let w = try_state [] (Some (mk_slice (User 0) 4))
     in set_cb 0 ((aiocbs w 0)\<lparr>cb_op := OpWrite, cb_size := 3\<rparr>) w)"

theorem write_resumes_at_size_witness:
  "\<exists>w'. tryWrite sample_env 10 0 half_written = Some (True, w') \<and> cb_size (aiocbs w' 0) = 4"
proof -
  let ?b = "mk_slice (User 0) 4"
  have b: "cb_buffer (aiocbs half_written 0) = Some ?b" "cb_size (aiocbs half_written 0) = int 3" "3 \<le> s_len ?b"
    by (simp_all add: half_written_def eval_try)
  have k: "e_rawWrite sample_env 10 (drop 3 (mem_read (mem half_written) ?b)) (os half_written) = ((1, None), os half_written)"
    by (simp add: half_written_def eval_try)
  from write_resumes_at_size [OF b k] show ?thesis by (auto simp: mk_slice_def)
qed

theorem empty_buffer_reads_EOF_witness:
  "fst (Read sample_env None (Some 7) (Some (mk_slice (User 0) 0)) (sample_new 8 sample_world)) = None
   \<and> (\<exists>w'. tryRead sample_env 10 0 (try_state [(0, None, [])] (Some (mk_slice (User 0) 0))) = Some (True, w')
        \<and> cb_err (aiocbs w' 0) = Some EOF)"
proof -
  let ?b = "mk_slice (User 0) 0" and ?w = "try_state [(0, None, [])] (Some (mk_slice (User 0) 0))"
  let ?y = "yield sample_env ?w"
  have "\<not> die (sample_new 8 sample_world)" "s_len ?b = 0" "cb_buffer (aiocbs ?y 0) = Some ?b" "cb_size (aiocbs ?y 0) = 0"
    "e_rawRead sample_env 10 0 (os ?y) = ((0, None, []), (os ?y)\<lparr>wo_reads := []\<rparr>)"
    by (simp_all add: eval_try)
  from empty_buffer_reads_EOF [OF this(1) _ this(2-5), of 7 None] show ?thesis by auto
qed

end
