(* ===== verification/Ordering.thy ===== *)
theory Ordering
  imports Side_Invariants
begin

text \<open>
  Submission and completion order: what the submission calls accept, the order in which queued
  requests are served, failed and returned by \<open>WaitIO\<close>. Statements about what a handler adds to the
  result channel take the schedule in which no other goroutine runs meanwhile.
\<close>

section \<open>Undisturbed handlers\<close>

definition undisturbed :: "'w env \<Rightarrow> bool" where
  "undisturbed E \<longleftrightarrow> (\<forall>v. fst (e_sched E v) = [])"

text \<open>The schedule of \<open>E\<close> in which no other goroutine runs.\<close>

definition alone :: "'w env \<Rightarrow> 'w env" where
  "alone E = E\<lparr>e_sched := (\<lambda>v. ([], v))\<rparr>"

lemma undisturbed_alone [simp]: "undisturbed (alone E)"
  by (simp add: undisturbed_def alone_def)

lemma undisturbed_yield: "undisturbed E \<Longrightarrow> \<exists>v. yield E w = w\<lparr>os := v\<rparr>"
  by (auto simp: undisturbed_def yield_def run_acts_def split: prod.splits) (metis fst_conv fold_simps(1) id_apply)

definition chan_kept :: "'w watcher \<Rightarrow> 'w watcher \<Rightarrow> bool" where
  "chan_kept w w' \<longleftrightarrow> chResults w' = chResults w \<and> die w' = die w \<and> fdDescs w' = fdDescs w"

lemma chan_kept_attempts:
  assumes "undisturbed E"
  shows "tryRead E f r w = Some (fin, w') \<Longrightarrow> chan_kept w w'" "tryWrite E f r w = Some (fin, w') \<Longrightarrow> chan_kept w w'"
proof -
  have once: "read_once E f buf r v = Some (a, v') \<Longrightarrow> chan_kept v v'" "write_once E f buf r v = Some (a, v') \<Longrightarrow> chan_kept v v'"
    for buf a v v'
    by (auto simp: read_once_def write_once_def chan_kept_def set_cb_def Let_def split: option.splits prod.splits if_splits)
  have loops: "read_loop E f buf r v = Some (a, v') \<Longrightarrow> chan_kept v v'" "write_loop E f buf r v = Some (a, v') \<Longrightarrow> chan_kept v v'"
    for buf a v v'
    unfolding read_loop_def write_loop_def
    by (rule retry_loop_inv [where I = "chan_kept v"]; simp add: chan_kept_def; auto simp: chan_kept_def dest: once)+
  show "chan_kept w w'" if ret: "tryRead E f r w = Some (fin, w')"
  proof -
    obtain v where y: "yield E w = w\<lparr>os := v\<rparr>" using undisturbed_yield [OF assms] by blast
    from ret obtain buf us bb w1 a w2 where sb: "select_buffer r (yield E w) = Some (buf, us, bb, w1)"
      and rl: "read_loop E f buf r w1 = Some (a, w2)"
      and rest: "(if a = WouldBlock then Some (False, w2) else finish_read buf us bb r w2) = Some (fin, w')"
      by (auto simp: tryRead_def elim!: bind_SomeE)
    have "chan_kept w w1" using select_buffer_state [OF sb] y by (auto simp: chan_kept_def rotate_buffers_def)
    moreover have "chan_kept w2 w'"
      using rest by (auto simp: chan_kept_def finish_read_def Let_def set_cb_def split: if_splits option.splits)
    ultimately show ?thesis using loops(1) [OF rl] by (simp add: chan_kept_def)
  qed
  show "tryWrite E f r w = Some (fin, w') \<Longrightarrow> chan_kept w w'"
    by (auto simp: tryWrite_def chan_kept_def elim!: bind_SomeE split: option.splits if_splits dest!: loops(2))
qed

lemma deliver_undisturbed:
  assumes "undisturbed E" and "deliver E r w = Some w'" and "\<not> die w"
  shows "chResults w' = chResults w @ [r] \<and> \<not> die w' \<and> fdDescs w' = fdDescs w \<and> descs w' = descs w
     \<and> connIdents w' = connIdents w \<and> (\<forall>q. no_idx (aiocbs w' q) = no_idx (aiocbs w q))"
proof -
  from assms(2) obtain w1 where l: "leave_heap r w = Some w1" and s: "send_loop E r w1 = Some w'"
    by (auto simp: deliver_def elim!: bind_SomeE)
  have k: "chan_kept w w1" "descs w1 = descs w" "connIdents w1 = connIdents w" "\<forall>q. no_idx (aiocbs w1 q) = no_idx (aiocbs w q)"
    using l by (auto simp: leave_heap_def chan_kept_def split: if_splits option.splits prod.splits
        dest!: timeouts_Remove_frame simp: idx_frame_def)
  let ?I = "\<lambda>v. \<not> die v \<and> chResults v = chResults w1 \<and> fdDescs v = fdDescs w1 \<and> descs v = descs w1
     \<and> connIdents v = connIdents w1 \<and> aiocbs v = aiocbs w1"
  have once: "if b then chResults v' = chResults v @ [r] \<and> \<not> die v' \<and> fdDescs v' = fdDescs v \<and> descs v' = descs v
      \<and> connIdents v' = connIdents v \<and> aiocbs v' = aiocbs v
      else ?I v'" if "send_once E r v = (b, v')" "?I v" for b v v'
  proof -
    obtain x where y: "yield E v = v\<lparr>os := x\<rparr>" using undisturbed_yield [OF assms(1)] by blast
    show ?thesis using that unfolding send_once_def Let_def y by (auto split: if_splits)
  qed
  have "chResults w' = chResults w1 @ [r] \<and> \<not> die w' \<and> fdDescs w' = fdDescs w1 \<and> descs w' = descs w1
     \<and> connIdents w' = connIdents w1 \<and> aiocbs w' = aiocbs w1"
  proof (rule go_loop_inv [OF s [unfolded send_loop_def], where I = ?I])
    show "?I w1" using k(1) assms(3) by (simp add: chan_kept_def)
  qed (auto split: prod.splits if_splits dest!: once)
  with k show ?thesis by (simp add: chan_kept_def)
qed

section \<open>Serving the queues\<close>

lemma serve_head:
  assumes "undisturbed E" and "chan_kept w w1" and q: "queue_of s (fdDescs w d) = x # xs" and "distinct (map el_id (x # xs))"
    and "\<not> die w" and dl: "deliver E (el_Value x) (dequeue s d (el_id x) w1) = Some w2"
  shows "fdDescs w2 d = with_queue s (\<lambda>_. xs) (fdDescs w d) \<and> chResults w2 = chResults w @ [el_Value x] \<and> \<not> die w2"
proof -
  let ?w = "dequeue s d (el_id x) w1"
  have "fdDescs ?w d = with_queue s (\<lambda>_. xs) (fdDescs w d)" "chResults ?w = chResults w" "\<not> die ?w"
    using assms(2,5) q list_Remove_head [OF assms(4)]
    by (cases s; simp add: dequeue_def set_desc_def with_queue_def queue_of_def chan_kept_def)+
  with deliver_undisturbed [OF assms(1) dl] show ?thesis by simp
qed

text \<open>\<open>k\<close> requests were served from a queue.\<close>

definition served :: "qside \<Rightarrow> dref \<Rightarrow> nat \<Rightarrow> 'w watcher \<Rightarrow> 'w watcher \<Rightarrow> bool" where
  "served s d k w w' \<longleftrightarrow> fdDescs w' d = with_queue s (drop k) (fdDescs w d)
     \<and> chResults w' = chResults w @ map el_Value (take k (queue_of s (fdDescs w d))) \<and> \<not> die w'"

lemma served_0: "chan_kept w w' \<Longrightarrow> \<not> die w \<Longrightarrow> served s d 0 w w'"
  by (cases s) (simp_all add: served_def chan_kept_def with_queue_def)

lemma served_Suc:
  assumes "fdDescs w2 d = with_queue s (\<lambda>_. xs) (fdDescs w d)" and "chResults w2 = chResults w @ [el_Value x]"
    and "queue_of s (fdDescs w d) = x # xs" and "served s d k w2 w'"
  shows "served s d (Suc k) w w'"
  using assms by (cases s) (simp_all add: served_def with_queue_def queue_of_def)

lemma retry_undisturbed:
  assumes un: "undisturbed E"
  shows "retry_reads E f d xs w = Some w' \<Longrightarrow> queue_of Reader (fdDescs w d) = xs \<Longrightarrow> distinct (map el_id xs) \<Longrightarrow> \<not> die w \<Longrightarrow>
      \<exists>k. served Reader d k w w'"
    and "retry_writes E f d xs w = Some w' \<Longrightarrow> queue_of Writer (fdDescs w d) = xs \<Longrightarrow> distinct (map el_id xs) \<Longrightarrow> \<not> die w \<Longrightarrow>
      \<exists>k. served Writer d k w w'"
proof (induction xs arbitrary: w)
  case Nil
  { case 1 then show ?case by (intro exI [of _ 0] served_0) (simp_all add: chan_kept_def) }
  { case 2 then show ?case by (intro exI [of _ 0] served_0) (simp_all add: chan_kept_def) }
next
  case (Cons x xs)
  { case 1
    then obtain fin w1 where t: "tryRead E f (el_Value x) w = Some (fin, w1)"
      and rest: "(if fin then do { w2 \<leftarrow> deliver E (el_Value x) (dequeue Reader d (el_id x) w1); retry_reads E f d xs w2 }
         else Some w1) = Some w'"
      by (auto elim!: bind_SomeE)
    note k = chan_kept_attempts(1) [OF un t]
    show ?case
    proof (cases fin)
      case True
      then obtain w2 where dl: "deliver E (el_Value x) (dequeue Reader d (el_id x) w1) = Some w2"
        and r: "retry_reads E f d xs w2 = Some w'" using rest by (auto elim!: bind_SomeE)
      note h = serve_head [OF un k 1(2-4) dl]
      with Cons.IH(1) [OF r] 1(3) obtain j where "served Reader d j w2 w'" by (auto simp: with_queue_def queue_of_def)
      with served_Suc [OF _ _ 1(2)] h show ?thesis by blast
    qed (use rest served_0 [OF k 1(4)] in auto) }
  { case 2
    then obtain fin w1 where t: "tryWrite E f (el_Value x) w = Some (fin, w1)"
      and rest: "(if fin then do { w2 \<leftarrow> deliver E (el_Value x) (dequeue Writer d (el_id x) w1); retry_writes E f d xs w2 }
         else Some w1) = Some w'"
      by (auto elim!: bind_SomeE)
    note k = chan_kept_attempts(2) [OF un t]
    show ?case
    proof (cases fin)
      case True
      then obtain w2 where dl: "deliver E (el_Value x) (dequeue Writer d (el_id x) w1) = Some w2"
        and r: "retry_writes E f d xs w2 = Some w'" using rest by (auto elim!: bind_SomeE)
      note h = serve_head [OF un k 2(2-4) dl]
      with Cons.IH(2) [OF r] 2(3) obtain j where "served Writer d j w2 w'" by (auto simp: with_queue_def queue_of_def)
      with served_Suc [OF _ _ 2(2)] h show ?thesis by blast
    qed (use rest served_0 [OF k 2(4)] in auto) }
qed

text \<open>
  C16. Requests on one connection complete in the order of their submission: handling a readiness event
  completes a prefix of the queue of reads and a prefix of the queue of writes, hands them over in queue
  order, reads first, and leaves the rest in place; reads only when the event says readable (bit 0), writes only
  when it says writable (bit 1). An event for an unknown descriptor has no effect.
\<close>

theorem event_serves_queue_prefix:
  assumes "os_ok E owned" and "reachable E w" and "\<not> die w" and "handle_event (alone E) e w = Some w'"
  shows "case descs w (ev_ident e) of
      None \<Rightarrow> w' = w
    | Some d \<Rightarrow> \<exists>j k. fdDescs w' d = (fdDescs w d)\<lparr>fd_readers := drop j (fd_readers (fdDescs w d)),
          fd_writers := drop k (fd_writers (fdDescs w d))\<rparr>
        \<and> chResults w' = chResults w @ map el_Value (take j (fd_readers (fdDescs w d)) @ take k (fd_writers (fdDescs w d)))
        \<and> (j = 0 \<or> bit (ev_ev e) 0) \<and> (k = 0 \<or> bit (ev_ev e) 1)"
proof (cases "descs w (ev_ident e)")
  case None
  with assms(4) show ?thesis by (simp add: handle_event_def)
next
  case (Some d)
  let ?x = "fdDescs w d"
  have di: "distinct (map el_id (queue_of s ?x))" for s
    using reachable_own [OF assms(1,2)] by (simp add: own_def own_queue_def qs_def)
  from assms(4) Some obtain w1 where
    r: "(if and (ev_ev e) EV_READ \<noteq> 0 \<and> fd_readers ?x \<noteq> [] then retry_reads (alone E) (ev_ident e) d (fd_readers ?x) w else Some w) = Some w1"
    and u: "(if and (ev_ev e) EV_WRITE \<noteq> 0 \<and> fd_writers (fdDescs w1 d) \<noteq> []
       then retry_writes (alone E) (ev_ident e) d (fd_writers (fdDescs w1 d)) w1 else Some w1) = Some w'"
    by (auto simp: handle_event_def elim!: bind_SomeE)
  have stay: "served s d 0 v v" if "\<not> die v" for s and v :: "'a watcher" by (rule served_0) (simp_all add: that chan_kept_def)
  have bits: "and (ev_ev e) EV_READ \<noteq> 0 \<longleftrightarrow> bit (ev_ev e) 0" "and (ev_ev e) EV_WRITE \<noteq> 0 \<longleftrightarrow> bit (ev_ev e) 1"
    using and_exp_eq_0_iff_not_bit [of "ev_ev e" 0] and_exp_eq_0_iff_not_bit [of "ev_ev e" 1] by (simp_all add: EV_READ_def EV_WRITE_def)
  obtain j where j: "served Reader d j w w1" "j = 0 \<or> bit (ev_ev e) 0"
    using r retry_undisturbed(1) [OF undisturbed_alone, of E "ev_ident e" d "fd_readers ?x" w w1] di [of Reader] assms(3) stay [of w]
    unfolding bits by (auto simp: queue_of_def split: if_splits)
  then have q: "queue_of Writer (fdDescs w1 d) = queue_of Writer ?x" "\<not> die w1" by (simp_all add: served_def queue_of_with_queue)
  obtain k where k: "served Writer d k w1 w'" "k = 0 \<or> bit (ev_ev e) 1"
    using u retry_undisturbed(2) [OF undisturbed_alone, of E "ev_ident e" d "fd_writers (fdDescs w1 d)" w1 w'] di [of Writer] q stay [of w1]
    unfolding bits by (auto simp: queue_of_def split: if_splits)
  with Some j show ?thesis
    by (simp add: served_def with_queue_def queue_of_def) (rule exI [of _ j], rule exI [of _ k], simp)
qed

section \<open>Releasing a connection\<close>

lemma fail_all_undisturbed:
  assumes "undisturbed E"
  shows "fail_all E es w = Some w' \<Longrightarrow> \<not> die w \<Longrightarrow>
    chResults w' = chResults w @ map el_Value es \<and> \<not> die w' \<and> fdDescs w' = fdDescs w \<and> descs w' = descs w
    \<and> connIdents w' = connIdents w
    \<and> (\<forall>q. cb_err (aiocbs w' q) = (if q \<in> el_Value ` set es then Some ErrClosedPipe else cb_err (aiocbs w q)))"
proof (induction es arbitrary: w)
  case (Cons e es)
  let ?r = "el_Value e"
  from Cons.prems(1) obtain w1 where d: "deliver E ?r (set_err ?r ErrClosedPipe w) = Some w1" and r: "fail_all E es w1 = Some w'"
    by (auto elim!: bind_SomeE)
  have "\<not> die (set_err ?r ErrClosedPipe w)" using Cons.prems(2) by (simp add: set_err_def set_cb_def)
  note k = deliver_undisturbed [OF assms d this]
  have e: "cb_err (aiocbs w1 q) = (if q = ?r then Some ErrClosedPipe else cb_err (aiocbs w q))" for q
    using k no_idx_fields(7) [of "aiocbs w1 q" "aiocbs (set_err ?r ErrClosedPipe w) q"] by (simp add: set_err_def)
  from Cons.IH [OF r] k e show ?case by (simp add: set_err_def set_cb_def)
qed simp

text \<open>
  C28. Releasing a connection fails everything that waits on it: the queued reads and then the queued
  writes are handed over in queue order, each with \<open>ErrClosedPipe\<close>, and the connection is forgotten.
\<close>

theorem release_fails_all_queued:
  assumes "\<not> die w" and "descs w f = Some d" and "releaseConn (alone E) f w = Some w'"
  shows "chResults w' = chResults w @ map el_Value (fd_readers (fdDescs w d) @ fd_writers (fdDescs w d))
    \<and> (\<forall>q. cb_err (aiocbs w' q) = (if q \<in> el_Value ` set (fd_readers (fdDescs w d) @ fd_writers (fdDescs w d))
         then Some ErrClosedPipe else cb_err (aiocbs w q)))
    \<and> descs w' = (descs w)(f := None) \<and> connIdents w' = (connIdents w)(fd_ptr (fdDescs w d) := None)"
proof -
  from assms(2,3) obtain w1 w2 where r: "fail_all (alone E) (fd_readers (fdDescs w d)) w = Some w1"
    "fail_all (alone E) (fd_writers (fdDescs w1 d)) w1 = Some w2" and w': "w' = unregister (alone E) f d w2"
    by (auto simp: releaseConn_def elim!: bind_SomeE)
  note k1 = fail_all_undisturbed [OF undisturbed_alone r(1) assms(1)]
  with fail_all_undisturbed [OF undisturbed_alone r(2)]
  show ?thesis by (simp add: w' unregister_def set_desc_def image_Un)
qed

section \<open>Collecting results\<close>

lemma WaitIO_recv_all:
  "chResults w = rs \<Longrightarrow> distinct rs \<Longrightarrow>
    chResults ((WaitIO_recv ^^ length rs) w) = [] \<and> recycles ((WaitIO_recv ^^ length rs) w) = recycles w @ rs
    \<and> results ((WaitIO_recv ^^ length rs) w) = results w @ map (\<lambda>r. result_of (aiocbs w r)) rs
    \<and> aiocbPool ((WaitIO_recv ^^ length rs) w) = aiocbPool w \<and> shouldSwap ((WaitIO_recv ^^ length rs) w) = shouldSwap w"
proof (induction rs arbitrary: w)
  case (Cons r rs)
  let ?w = "WaitIO_recv w"
  have s: "chResults ?w = rs" "results ?w = results w @ [result_of (aiocbs w r)]" "recycles ?w = recycles w @ [r]"
    "aiocbPool ?w = aiocbPool w" "shouldSwap ?w = shouldSwap w"
    using Cons.prems(1) by (simp_all add: WaitIO_recv_def set_cb_def)
  have "map (\<lambda>q. result_of (aiocbs ?w q)) rs = map (\<lambda>q. result_of (aiocbs w q)) rs"
    using Cons.prems by (auto simp: WaitIO_recv_def)
  with Cons.IH [OF s(1)] Cons.prems(2) s show ?case by (simp add: funpow_Suc_right del: funpow.simps)
qed simp

text \<open>
  C18. \<open>WaitIO\<close> returns all queued results, in the order of their completion, each with the operation,
  connection, context, buffer, size and error of its request; it empties the channel, gives the requests of
  the batch before back to the pool, keeps those of this batch and asks for a rotation of the shared buffers.
\<close>

theorem WaitIO_returns_queue_in_order:
  assumes "os_ok E owned" and "reachable E w" and "\<not> die w" and "chResults w \<noteq> []"
  shows "\<exists>w'. WaitIO E w = Some (Inr (map (\<lambda>r. \<lparr>r_Operation = cb_op (aiocbs w r), r_Context = cb_ctx (aiocbs w r),
        r_Conn = cb_conn (aiocbs w r), r_Buffer = cb_buffer (aiocbs w r), r_IsSwapBuffer = cb_useSwap (aiocbs w r),
        r_Size = cb_size (aiocbs w r), r_Error = cb_err (aiocbs w r)\<rparr>) (chResults w)), w')
    \<and> chResults w' = [] \<and> recycles w' = chResults w \<and> set (aiocbPool w') = set (recycles w) \<union> set (aiocbPool w)
    \<and> shouldSwap w' \<and> wphase w' = WIdle"
proof -
  let ?w1 = "WaitIO_enter w"
  let ?w2 = "(WaitIO_recv ^^ length (chResults w)) ?w1"
  have d: "distinct (chResults w)" using reachable_own [OF assms(1,2)] by (auto simp: own_def own_locs_def locs_def)
  have "\<not> loopDone w" using reachable_closed [OF assms(1,2)] assms(3) by (auto simp: closed_flags_def)
  moreover have e: "chResults ?w1 = chResults w" "results ?w1 = []" "recycles ?w1 = []" "die ?w1 = die w" "loopDone ?w1 = loopDone w"
    "aiocbs ?w1 = aiocbs w" "set (aiocbPool ?w1) = set (recycles w) \<union> set (aiocbPool w)"
    by (auto simp: WaitIO_enter_def fold_Put)
  ultimately show ?thesis
    using assms(3,4) WaitIO_recv_all [OF e(1) d]
    by (auto simp: WaitIO_def Let_def WaitIO_notify_def WaitIO_drained_def notifyShouldSwap_def result_of_def split: prod.splits)
qed

section \<open>Submitting requests\<close>

text \<open>A request as its submitter described it, not started.\<close>

definition asks :: "any \<Rightarrow> OpType \<Rightarrow> uintptr \<Rightarrow> slice option \<Rightarrow> gtime \<Rightarrow> bool \<Rightarrow> aiocb \<Rightarrow> bool" where
  "asks cx oper p buf dl full c \<longleftrightarrow> cb_ctx c = cx \<and> cb_op c = oper \<and> cb_conn c = Some p \<and> cb_ptr c = p \<and> cb_buffer c = buf
     \<and> cb_deadline c = dl \<and> cb_readFull c = full \<and> cb_size c = 0 \<and> cb_err c = None \<and> \<not> cb_useSwap c \<and> cb_idx c = -1
     \<and> cb_l c = None \<and> cb_elem c = None"

text \<open>The requests under way: submitted, queued, completed, or in the caller's batch.\<close>

definition live :: "'w watcher \<Rightarrow> aref set" where
  "live w = set (pendingCreate w @ chResults w @ recycles w) \<union> qset (qs w)"

text \<open>
  The outcome \<open>x\<close> of a submission in state \<open>w\<close>: accepted, with a new request at the end of the submission
  slice and the loop notified, or refused, with the slice as it was and the reason; \<open>need\<close> says whether
  the call needs a buffer. The requests under way keep their contents.
\<close>

definition outcome ::
  "bool \<Rightarrow> any \<Rightarrow> OpType \<Rightarrow> net_conn \<Rightarrow> slice option \<Rightarrow> gtime \<Rightarrow> bool \<Rightarrow> 'w watcher \<Rightarrow> gerr option \<times> 'w watcher \<Rightarrow> bool" where
  "outcome need cx oper conn buf dl full w x =
     (case x of (res, w') \<Rightarrow> (\<forall>q \<in> live w. aiocbs w' q = aiocbs w q) \<and>
      (case res of
        None \<Rightarrow> (len_of buf \<noteq> 0 \<or> \<not> need) \<and> \<not> die w \<and> chPendingNotify w'
          \<and> (\<exists>r p. conn = Some p \<and> p \<noteq> 0 \<and> r \<notin> live w \<and> pendingCreate w' = pendingCreate w @ [r]
               \<and> asks cx oper p buf dl full (aiocbs w' r))
      | Some e \<Rightarrow> pendingCreate w' = pendingCreate w
          \<and> e = (if need \<and> len_of buf = 0 then ErrEmptyBuffer
                 else if conn = None \<or> conn = Some 0 then ErrUnsupported else ErrWatcherClosed)))"

lemma aioCreate_outcome:
  assumes "own owned [] (qs w) w"
  shows "outcome False cx oper conn buf dl full w (aioCreate E cx oper conn buf dl full w)"
proof -
  obtain k world where k: "e_pool E (os w) = (k, world)" by fastforce
  let ?r = "if k < length (aiocbPool w) then aiocbPool w ! k else next_cb w"
  have "?r \<in> set (aiocbPool w) \<or> ?r = next_cb w" by auto
  then have r: "?r \<notin> live w" using assms by (auto simp: live_def own_def own_locs_def locs_def)
  then have keep: "q \<noteq> ?r" if "q \<in> live w" for q using that by blast
  show ?thesis
  proof (cases "conn = None \<or> conn = Some 0")
    case True
    then show ?thesis by (auto simp: outcome_def aioCreate_def)
  next
    case False
    then obtain p where p: "conn = Some p" "p \<noteq> 0" by auto
    let ?w = "snd (aioCreate E cx oper conn buf dl full w)"
    have a: "aiocbs ?w = (aiocbs w)(?r := new_aiocb cx oper p buf dl full)"
      and f: "fst (aioCreate E cx oper conn buf dl full w) = (if die w then Some ErrWatcherClosed else None)"
      and c: "pendingCreate ?w = (if die w then pendingCreate w else pendingCreate w @ [?r])" "die w \<or> chPendingNotify ?w"
      using p k by (auto simp: aioCreate_def aiocbPool_Get_def aiocbPool_Put_def set_cb_def notifyPending_def Let_def)
    have "asks cx oper p buf dl full (aiocbs ?w ?r)" by (simp add: a asks_def new_aiocb_def zero_aiocb_def)
    moreover have "\<forall>q \<in> live w. aiocbs ?w q = aiocbs w q" using keep by (simp add: a)
    ultimately show ?thesis using f c p r by (cases "die w") (auto simp: outcome_def case_prod_beta)
  qed
qed

lemma outcome_buffer:
  "outcome False cx oper conn buf dl full w x \<Longrightarrow>
   outcome True cx oper conn buf dl full w (if len_of buf = 0 then (Some ErrEmptyBuffer, w) else x)"
  by (cases "len_of buf = 0"; cases x; cases "fst x") (simp_all add: outcome_def)

text \<open>
  C29. A submission is accepted or refused for a reason: a request with exactly the given operation, connection,
  context, buffer and deadline, no bytes transferred and no error, is appended to the submission slice and the loop is
  notified, or the slice is as it was and the error says why: an empty buffer where one is needed, no connection, or
  a closed watcher. The new request is none of those under way (the pool may hand out an old object), and these
  keep their contents.
\<close>

theorem submission_accepts_or_refuses:
  assumes "os_ok E owned" and "reachable E w"
  shows "outcome False cx OpRead conn buf zeroTime False w (Read E cx conn buf w)
   \<and> outcome False cx OpRead conn buf dl False w (ReadTimeout E cx conn buf dl w)
   \<and> outcome True cx OpRead conn buf dl True w (ReadFull E cx conn buf dl w)
   \<and> outcome True cx OpWrite conn buf zeroTime False w (Write E cx conn buf w)
   \<and> outcome True cx OpWrite conn buf dl False w (WriteTimeout E cx conn buf dl w)
   \<and> outcome False None opDelete conn None zeroTime False w (Free E conn w)"
  unfolding Read_def ReadTimeout_def ReadFull_def Write_def WriteTimeout_def Free_def
  by (intro conjI aioCreate_outcome [OF reachable_own [OF assms]] outcome_buffer)

text \<open>
  \<open>Free\<close> of a connection that the watcher does not know does not release it: the loop duplicates the
  descriptor, closes the caller's connection and registers the duplicate, which then stays open.
\<close>

lemma Free_registers_unknown_conn:
  assumes "cb_op (aiocbs w r) = opDelete" and "IsZero (cb_deadline (aiocbs w r))"
    and "connIdents w (cb_ptr (aiocbs w r)) = None"
    and "e_dupconn E (cb_conn (aiocbs w r)) (os w) = ((f, None), v)" and "e_Watch E f v = (None, v2)"
  shows "\<exists>d w'. handle_request E r w = Some w' \<and> connIdents w' = (connIdents w)(cb_ptr (aiocbs w r) \<mapsto> f)
    \<and> descs w' = (descs w)(f \<mapsto> d) \<and> chResults w' = chResults w"
proof -
  obtain d w3 where reg: "register E f r (w\<lparr>os := v2\<rparr>) = (d, w3)" by fastforce
  then have "connIdents w3 = (connIdents w)(cb_ptr (aiocbs w r) \<mapsto> f)" "descs w3 = (descs w)(f \<mapsto> d)"
    "chResults w3 = chResults w" "aiocbs w3 = aiocbs w"
    by (auto simp: register_def fdDescPool_Get_def set_desc_def Let_def split: prod.splits if_splits)
  with reg assms show ?thesis by (intro exI [of _ d] exI [of _ w3]) (simp add: handle_request_def start_op_def track_deadline_def)
qed

section \<open>Examples\<close>

text \<open>The requests of a script's first entry have been submitted, started and, if need be, queued.\<close>

definition started :: "world \<Rightarrow> world watcher" where
  "started v = the (loop_pending sample_env ((yield sample_env (sample_new 8 v))\<lparr>chPendingNotify := False\<rparr>))"

lemma started_reachable:
  assumes "\<not> loopDone (yield sample_env (sample_new 8 v))" and "chPendingNotify (yield sample_env (sample_new 8 v))"
    and "\<not> Option.is_none (loop_pending sample_env ((yield sample_env (sample_new 8 v))\<lparr>chPendingNotify := False\<rparr>))"
  shows "reachable sample_env (started v)"
proof -
  have "loop_step sample_env (yield sample_env (sample_new 8 v)) (started v)"
    by (rule loop_step.pending [OF assms(1,2)]) (use assms(3) in \<open>auto simp: started_def Option.is_none_def\<close>)
  with reachable.step [OF sample_new_reachable loop_step.other] show ?thesis by (rule reachable.step)
qed

text \<open>Two reads wait on the connection with descriptor 10; then data for one of them arrives.\<close>

definition ready_world :: world where
  "ready_world = sample_world\<lparr>wo_sched := [[ARead (Some 1) sample_conn None, ARead (Some 2) sample_conn None]],
     wo_reads := [(-1, Some EAGAIN, []), (2, None, [7, 9])]\<rparr>"

lemmas eval_ready =
  started_def ready_world_def alone_def handle_event_def EV_READ_def EV_WRITE_def dequeue_def list_Remove_def
  releaseConn_def unregister_def set_err_def zero_fdDesc_def eval_api eval_loop eval_heap eval_sample

lemma ready_reachable: "reachable sample_env (started ready_world)"
  by (rule started_reachable) (simp_all add: eval_ready)

lemma ready_facts:
  "\<not> die (started ready_world)" "descs (started ready_world) = [10 \<mapsto> 0]" "chResults (started ready_world) = []"
  "fdDescs (started ready_world) 0 = \<lparr>fd_readers = [\<lparr>el_id = 0, el_Value = 0\<rparr>, \<lparr>el_id = 1, el_Value = 1\<rparr>], fd_writers = [], fd_ptr = 7\<rparr>"
  by (simp_all add: eval_ready)

theorem event_serves_queue_prefix_witness:
  "\<exists>w'. handle_event (alone sample_env) \<lparr>ev_ident = 10, ev_ev = 1\<rparr> (started ready_world) = Some w'
    \<and> (\<exists>j. chResults w' = map el_Value (take j [\<lparr>el_id = 0, el_Value = 0\<rparr>, \<lparr>el_id = 1, el_Value = 1\<rparr>]))"
proof -
  let ?h = "handle_event (alone sample_env) \<lparr>ev_ident = 10, ev_ev = 1\<rparr> (started ready_world)"
  have "\<not> Option.is_none ?h" by (simp add: eval_ready)
  then obtain w' where h: "?h = Some w'" by (auto simp: Option.is_none_def)
  from event_serves_queue_prefix [OF sample_os_ok ready_reachable ready_facts(1) h] h show ?thesis
    by (auto simp: ready_facts)
qed

theorem release_fails_all_queued_witness:
  "\<exists>w'. releaseConn (alone sample_env) 10 (started ready_world) = Some w' \<and> chResults w' = [0, 1]
    \<and> cb_err (aiocbs w' 1) = Some ErrClosedPipe"
proof -
  have "\<not> Option.is_none (releaseConn (alone sample_env) 10 (started ready_world))" by (simp add: eval_ready)
  then obtain w' where r: "releaseConn (alone sample_env) 10 (started ready_world) = Some w'" by (auto simp: Option.is_none_def)
  have d: "descs (started ready_world) 10 = Some 0" by (simp add: ready_facts)
  from release_fails_all_queued [OF ready_facts(1) d r] r show ?thesis by (auto simp: ready_facts)
qed

definition done_world :: world where
  "done_world = sample_world\<lparr>wo_sched := [[ARead (Some 1) sample_conn None, ARead (Some 2) sample_conn None]],
     wo_reads := [(1, None, [7]), (1, None, [9])]\<rparr>"

theorem WaitIO_returns_queue_in_order_witness:
  "\<exists>rs w'. WaitIO sample_env (started done_world) = Some (Inr rs, w') \<and> map r_Context rs = [Some 1, Some 2]"
proof -
  have r: "reachable sample_env (started done_world)"
    by (rule started_reachable) (simp_all add: done_world_def eval_ready)
  have f: "\<not> die (started done_world)" "chResults (started done_world) = [0, 1]"
    "map (\<lambda>r. cb_ctx (aiocbs (started done_world) r)) [0, 1] = [Some 1, Some 2]"
    by (simp_all add: done_world_def eval_ready)
  from WaitIO_returns_queue_in_order [OF sample_os_ok r f(1)] f(2,3) show ?thesis by auto
qed

theorem submission_accepts_or_refuses_witness:
  "\<exists>w' r. WriteTimeout sample_env (Some 3) sample_conn (Some (mk_slice (User 1) 2)) 250 (started ready_world) = (None, w')
     \<and> r \<notin> {0, 1} \<and> pendingCreate w' = [r] \<and> asks (Some 3) OpWrite 7 (Some (mk_slice (User 1) 2)) 250 False (aiocbs w' r)"
proof -
  let ?w = "started ready_world" and ?b = "Some (mk_slice (User 1) 2)"
  let ?x = "WriteTimeout sample_env (Some 3) sample_conn ?b 250 ?w"
  have n: "fst ?x = None" "pendingCreate ?w = []" by (simp_all add: eval_ready)
  obtain w' where x: "?x = (None, w')" using n(1) by (cases ?x) simp
  have "outcome True (Some 3) OpWrite sample_conn ?b 250 False ?w ?x"
    using submission_accepts_or_refuses [OF sample_os_ok ready_reachable] by blast
  then obtain r p where r: "sample_conn = Some p" "r \<notin> live ?w" "pendingCreate w' = pendingCreate ?w @ [r]"
    "asks (Some 3) OpWrite p ?b 250 False (aiocbs w' r)"
    unfolding x outcome_def prod.case option.case by blast
  have "\<lparr>el_id = 0, el_Value = 0\<rparr> \<in> set (qs ?w 0 Reader)" "\<lparr>el_id = 1, el_Value = 1\<rparr> \<in> set (qs ?w 0 Reader)"
    by (simp_all add: qs_def queue_of_def ready_facts)
  then have "el_Value \<lparr>el_id = 0, el_Value = 0\<rparr> \<in> qset (qs ?w)" "el_Value \<lparr>el_id = 1, el_Value = 1\<rparr> \<in> qset (qs ?w)"
    unfolding qset_def by blast+
  then have "0 \<in> live ?w" "1 \<in> live ?w" by (simp_all add: live_def)
  with r(2) have "r \<notin> {0, 1}" by blast
  moreover have "p = 7" using r(1) by (simp add: sample_conn_def)
  ultimately show ?thesis using x r(3,4) n(2) by auto
qed

lemma Free_registers_unknown_conn_witness:
  "\<exists>w'. handle_request sample_env 0 (yield sample_env (sample_new 8 (sample_world\<lparr>wo_sched := [[AFree (Some 7)]]\<rparr>))) = Some w'
     \<and> connIdents w' 7 = Some 10 \<and> chResults w' = []"
proof -
  let ?w = "yield sample_env (sample_new 8 (sample_world\<lparr>wo_sched := [[AFree (Some 7)]]\<rparr>))"
  have c: "cb_op (aiocbs ?w 0) = opDelete" "IsZero (cb_deadline (aiocbs ?w 0))" "connIdents ?w (cb_ptr (aiocbs ?w 0)) = None"
    "cb_ptr (aiocbs ?w 0) = 7" "chResults ?w = []" "wo_next (os ?w) = 10"
    by (simp_all add: eval_api eval_sample)
  let ?v = "(os ?w)\<lparr>wo_fds := 10 # wo_fds (os ?w), wo_next := 11\<rparr>"
  have "e_dupconn sample_env (cb_conn (aiocbs ?w 0)) (os ?w) = ((10, None), ?v)" "e_Watch sample_env 10 ?v = (None, ?v)"
    using c(6) by (simp_all add: sample_env_def)
  from Free_registers_unknown_conn [OF c(1-3) this] c(4,5) show ?thesis by auto
qed

end
