(* ===== verification/Poller_Common.thy ===== *)
theory Poller_Common
  imports Watcher_Loop
begin

text \<open>
  What the three platform pollers share: the goroutines around a poller, the readiness flags of an
  event, and the part of the Unix files that talks to a connection (\<open>src/aio_unix.go\<close>,
  \<open>rawRead\<close> and \<open>rawWrite\<close> of \<open>src/aio_linux.go\<close>).
\<close>

section \<open>The goroutines around a poller\<close>

text \<open>
  While \<open>Wait\<close> runs, other goroutines call the poller's methods or store a CPU number in it. Before it
  looks at a channel, any number of these actions may happen (\<open>g_others\<close>). A \<open>select\<close> between an
  operation and \<open>die\<close> takes the operation when \<open>die\<close> is open, since it waits for one of them, and
  either of them otherwise (\<open>g_select\<close>). \<open>g_send\<close> puts a signal into the watcher's channel.
\<close>

datatype pact = PWatch int | PWakeup | PClose | PCpuid int

record 'w runtime =
  g_others :: "'w \<Rightarrow> pact list \<times> 'w"
  g_select :: "'w \<Rightarrow> bool \<times> 'w"
  g_send :: "Signal \<Rightarrow> 'w \<Rightarrow> 'w"
  g_setAffinity :: "int \<Rightarrow> 'w \<Rightarrow> 'w"

definition select_die :: "'w runtime \<Rightarrow> bool \<Rightarrow> 'w \<Rightarrow> bool \<times> 'w" where
  "select_die G closed v = (if closed then g_select G v else (True, v))"

section \<open>Readiness flags\<close>

definition readable :: "event \<Rightarrow> bool" where
  "readable e \<longleftrightarrow> and (ev_ev e) EV_READ \<noteq> 0"

definition writable :: "event \<Rightarrow> bool" where
  "writable e \<longleftrightarrow> and (ev_ev e) EV_WRITE \<noteq> 0"

text \<open>An event whose flag set is built up by \<open>|=\<close>.\<close>

lemma flags_cases:
  "readable \<lparr>ev_ident = f, ev_ev = or (if r then EV_READ else 0) (if u then EV_WRITE else 0)\<rparr> = r"
  "writable \<lparr>ev_ident = f, ev_ev = or (if r then EV_READ else 0) (if u then EV_WRITE else 0)\<rparr> = u"
  by (cases r; cases u; simp add: readable_def writable_def EV_READ_def EV_WRITE_def)+

text \<open>A mask of single bits.\<close>

lemma and_bit: "and x (2 ^ n :: 'a::len word) \<noteq> 0 \<longleftrightarrow> bit x n"
  by (simp add: and_exp_eq_0_iff_not_bit)

lemma and_or_mask: "and x (or a b :: 'a::len word) \<noteq> 0 \<longleftrightarrow> and x a \<noteq> 0 \<or> and x b \<noteq> 0"
  by (simp add: bit.conj_disj_distrib or_eq_0_iff)

section \<open>Connections on Unix\<close>

text \<open>
  \<open>u_raw\<close> says whether a connection has the method \<open>SyscallConn\<close>, \<open>u_SyscallConn\<close> is the error
  of that method, and \<open>u_Control\<close> says on which descriptor \<open>Control\<close> called its argument, if it did,
  and which error it returned. A raw system call returns a register and an error number.
\<close>

record 'w unix =
  u_raw :: "net_conn \<Rightarrow> bool"
  u_SyscallConn :: "net_conn \<Rightarrow> 'w \<Rightarrow> gerr option \<times> 'w"
  u_Control :: "net_conn \<Rightarrow> 'w \<Rightarrow> (int option \<times> gerr option) \<times> 'w"
  u_Dup :: "int \<Rightarrow> 'w \<Rightarrow> (int \<times> errno option) \<times> 'w"
  u_Close :: "int \<Rightarrow> 'w \<Rightarrow> errno option \<times> 'w"
  u_READ :: "int \<Rightarrow> nat \<Rightarrow> 'w \<Rightarrow> (64 word \<times> errno option \<times> byte list) \<times> 'w"
  u_WRITE :: "int \<Rightarrow> byte list \<Rightarrow> 'w \<Rightarrow> (64 word \<times> errno option) \<times> 'w"

definition dupconn :: "'w unix \<Rightarrow> net_conn \<Rightarrow> 'w \<Rightarrow> (int \<times> gerr option) \<times> 'w" where
  "dupconn U conn v =
     (if \<not> u_raw U conn then ((-1, Some ErrUnsupported), v)
      else let (err, v1) = u_SyscallConn U conn v
           in if err \<noteq> None then ((-1, Some ErrUnsupported), v1)
              else let ((arg, ec), v2) = u_Control U conn v1;
                       ((newfd, derr), v3) = (case arg of None \<Rightarrow> ((0, None), v2) | Some f \<Rightarrow> u_Dup U f v2)
                   in if ec \<noteq> None then ((-1, ec), v3)
                      else ((newfd, map_option ErrSys derr), v3))"

definition closeFd :: "'w unix \<Rightarrow> int \<Rightarrow> 'w \<Rightarrow> gerr option \<times> 'w" where
  "closeFd U f v = (case u_Close U f v of (e, v') \<Rightarrow> (map_option ErrSys e, v'))"

definition rawRead :: "'w unix \<Rightarrow> int \<Rightarrow> nat \<Rightarrow> 'w \<Rightarrow> (int \<times> errno option \<times> byte list) \<times> 'w" where
  "rawRead U f n v =
     (case u_READ U f n v of ((r0, e1, bs), v') \<Rightarrow> (if e1 \<noteq> None then (-1, e1, bs) else (sint r0, None, bs), v'))"

definition rawWrite :: "'w unix \<Rightarrow> int \<Rightarrow> byte list \<Rightarrow> 'w \<Rightarrow> (int \<times> errno option) \<times> 'w" where
  "rawWrite U f bs v =
     (case u_WRITE U f bs v of ((r0, e1), v') \<Rightarrow> (if e1 \<noteq> None then (-1, e1) else (sint r0, None), v'))"

text \<open>
  The system's side, relative to the set of descriptors that \<open>dup\<close> opened and nobody closed: a successful
  \<open>dup\<close> returns a descriptor that was not open; \<open>close\<close> closes the one it is given, even when it
  reports an error; \<open>Control\<close> calls its argument exactly when it returns no error.
\<close>

definition unix_ok :: "'w unix \<Rightarrow> ('w \<Rightarrow> int set) \<Rightarrow> bool" where
  "unix_ok U opened \<longleftrightarrow>
     (\<forall>f v g v'. u_Dup U f v = ((g, None), v') \<longrightarrow> g \<notin> opened v \<and> opened v' = insert g (opened v))
     \<and> (\<forall>f v g e v'. u_Dup U f v = ((g, Some e), v') \<longrightarrow> opened v' = opened v)
     \<and> (\<forall>f v e v'. u_Close U f v = (e, v') \<longrightarrow> opened v' = opened v - {f})
     \<and> (\<forall>c v e v'. u_SyscallConn U c v = (e, v') \<longrightarrow> opened v' = opened v)
     \<and> (\<forall>c v a e v'. u_Control U c v = ((a, e), v') \<longrightarrow> opened v' = opened v \<and> (a = None \<longleftrightarrow> e \<noteq> None))
     \<and> (\<forall>f n v x v'. u_READ U f n v = (x, v') \<longrightarrow> opened v' = opened v)
     \<and> (\<forall>f bs v x v'. u_WRITE U f bs v = (x, v') \<longrightarrow> opened v' = opened v)"

lemma unix_okD:
  assumes "unix_ok U opened"
  shows "u_Dup U f v = ((g, None), v') \<Longrightarrow> g \<notin> opened v \<and> opened v' = insert g (opened v)"
    "u_Dup U f v = ((g, Some en), v') \<Longrightarrow> opened v' = opened v"
    "u_Close U f v = (e, v') \<Longrightarrow> opened v' = opened v - {f}"
    "u_SyscallConn U c v = (ge, v') \<Longrightarrow> opened v' = opened v"
    "u_Control U c v = ((a, ge), v') \<Longrightarrow> opened v' = opened v \<and> (a = None \<longleftrightarrow> ge \<noteq> None)"
    "u_READ U f n v = (x, v') \<Longrightarrow> opened v' = opened v"
    "u_WRITE U f bs v = (y, v') \<Longrightarrow> opened v' = opened v"
proof -
  note u = assms [unfolded unix_ok_def]
  show "u_Dup U f v = ((g, None), v') \<Longrightarrow> g \<notin> opened v \<and> opened v' = insert g (opened v)"
    by (rule u [THEN conjunct1, rule_format])
  show "u_Dup U f v = ((g, Some en), v') \<Longrightarrow> opened v' = opened v"
    by (rule u [THEN conjunct2, THEN conjunct1, rule_format])
  show "u_Close U f v = (e, v') \<Longrightarrow> opened v' = opened v - {f}"
    by (rule u [THEN conjunct2, THEN conjunct2, THEN conjunct1, rule_format])
  show "u_SyscallConn U c v = (ge, v') \<Longrightarrow> opened v' = opened v"
    by (rule u [THEN conjunct2, THEN conjunct2, THEN conjunct2, THEN conjunct1, rule_format])
  show "u_Control U c v = ((a, ge), v') \<Longrightarrow> opened v' = opened v \<and> (a = None \<longleftrightarrow> ge \<noteq> None)"
    by (rule u [THEN conjunct2, THEN conjunct2, THEN conjunct2, THEN conjunct2, THEN conjunct1, rule_format])
  show "u_READ U f n v = (x, v') \<Longrightarrow> opened v' = opened v"
    by (rule u [THEN conjunct2, THEN conjunct2, THEN conjunct2, THEN conjunct2, THEN conjunct2, THEN conjunct1, rule_format])
  show "u_WRITE U f bs v = (y, v') \<Longrightarrow> opened v' = opened v"
    by (rule u [THEN conjunct2, THEN conjunct2, THEN conjunct2, THEN conjunct2, THEN conjunct2, THEN conjunct2, rule_format])
qed

lemma dupconn_opens:
  assumes "unix_ok U opened"
  shows "dupconn U c v = ((f, None), v') \<Longrightarrow> f \<notin> opened v \<and> opened v' = insert f (opened v)"
    and "dupconn U c v = ((f, Some e), v') \<Longrightarrow> opened v' = opened v"
proof -
  note du = unix_okD(1,2) [OF assms] and sc = unix_okD(4) [OF assms] and co = unix_okD(5) [OF assms]
  obtain err v1 where s1: "u_SyscallConn U c v = (err, v1)" by fastforce
  obtain arg ec v2 where s2: "u_Control U c v1 = ((arg, ec), v2)" by (metis surj_pair)
  obtain newfd derr v3 where s3: "(case arg of None \<Rightarrow> ((0, None), v2) | Some f \<Rightarrow> u_Dup U f v2) = ((newfd, derr), v3)"
    by (metis surj_pair)
  have eq: "dupconn U c v = (if \<not> u_raw U c then ((-1, Some ErrUnsupported), v)
      else if err \<noteq> None then ((-1, Some ErrUnsupported), v1)
      else if ec \<noteq> None then ((-1, ec), v3) else ((newfd, map_option ErrSys derr), v3))"
    by (simp add: dupconn_def s1 s2 s3)
  note o = sc [OF s1] co [OF s2]
  show "f \<notin> opened v \<and> opened v' = insert f (opened v)" if "dupconn U c v = ((f, None), v')"
  proof -
    from that eq have "ec = None" "newfd = f" "derr = None" "v3 = v'" by (auto split: if_splits)
    moreover from this o obtain g where "arg = Some g" by auto
    ultimately show ?thesis using s3 o du(1) [of g v2 f v'] by simp
  qed
  have "opened v3 = opened v" if "derr = Some d \<or> ec \<noteq> None" for d
  proof (cases arg)
    case None
    with s3 o show ?thesis by simp
  next
    case (Some g)
    with that o s3 du(2) [of g v2 newfd d v3] show ?thesis by simp
  qed
  with eq o(1) show "opened v' = opened v" if "dupconn U c v = ((f, Some e), v')"
    using that by (cases derr) (auto split: if_splits)
qed

end
