(* ===== verification/Poller_Linux.thy ===== *)
theory Poller_Linux
  imports Poller_Common
begin

text \<open>
  The epoll poller of \<open>src/aio_linux.go\<close> and the affinity call of \<open>src/affinity_linux.go\<close>. The
  system calls are parameters; \<open>Wait\<close> is a loop over its body \<open>linux_Wait_once\<close>.
\<close>

section \<open>State and system calls\<close>

record epoll_event =
  ee_Events :: "32 word"
  ee_Fd :: int

definition EPOLLIN :: "32 word" where "EPOLLIN = 0x1"
definition EPOLLOUT :: "32 word" where "EPOLLOUT = 0x4"
definition EPOLLERR :: "32 word" where "EPOLLERR = 0x8"
definition EPOLLHUP :: "32 word" where "EPOLLHUP = 0x10"
definition EPOLLRDHUP :: "32 word" where "EPOLLRDHUP = 0x2000"
definition EPOLLET :: "32 word" where "EPOLLET = 0x80000000"

text \<open>The \<open>die\<close> channel is a flag: closed or not.\<close>

record linux_poller =
  lp_cpuid :: int
  lp_pfd :: int
  lp_efd :: int
  lp_die :: bool

text \<open>
  \<open>l_EpollWait pfd n\<close> returns an error or the events that it stored at the start of an array of \<open>n\<close>. It waits for
  an event without a time limit: \<open>None\<close> when there is none and no more comes. (What other goroutines do while it
  waits has happened before the call, in the model.)
\<close>

record 'w linux_sys =
  l_EpollCreate1 :: "'w \<Rightarrow> (errno + int) \<times> 'w"
  l_EVENTFD2 :: "'w \<Rightarrow> (errno + int) \<times> 'w"
  l_EpollCtlAdd :: "int \<Rightarrow> int \<Rightarrow> epoll_event \<Rightarrow> 'w \<Rightarrow> errno option \<times> 'w"
  l_EpollWait :: "int \<Rightarrow> nat \<Rightarrow> 'w \<Rightarrow> ((errno + epoll_event list) \<times> 'w) option"
  l_Write :: "int \<Rightarrow> byte list \<Rightarrow> 'w \<Rightarrow> errno option \<times> 'w"
  l_Read :: "int \<Rightarrow> nat \<Rightarrow> 'w \<Rightarrow> 'w"
  l_Close :: "int \<Rightarrow> 'w \<Rightarrow> 'w"

section \<open>Operations\<close>

definition linux_openPoll :: "'w linux_sys \<Rightarrow> 'w \<Rightarrow> (gerr + linux_poller) \<times> 'w" where
  "linux_openPoll S v =
     (case l_EpollCreate1 S v of
        (Inl err, v1) \<Rightarrow> (Inl (ErrSys err), v1)
      | (Inr pfd, v1) \<Rightarrow>
          (case l_EVENTFD2 S v1 of
             (Inl e0, v2) \<Rightarrow> (Inl (ErrSys e0), l_Close S pfd v2)
           | (Inr r0, v2) \<Rightarrow>
               (case l_EpollCtlAdd S pfd r0 \<lparr>ee_Events = or EPOLLIN EPOLLET, ee_Fd = int32 r0\<rparr> v2 of
                  (Some err, v3) \<Rightarrow> (Inl (ErrSys err), l_Close S r0 (l_Close S pfd v3))
                | (None, v3) \<Rightarrow> (Inr \<lparr>lp_cpuid = -1, lp_pfd = pfd, lp_efd = r0, lp_die = False\<rparr>, v3))))"

text \<open>The eight bytes of \<open>uint64(1)\<close> on a little-endian machine.\<close>

definition linux_wakeup :: "'w linux_sys \<Rightarrow> linux_poller \<Rightarrow> 'w \<Rightarrow> gerr option \<times> 'w" where
  "linux_wakeup S p v =
     (if lp_efd p = -1 then (Some ErrPollerClosed, v)
      else case l_Write S (lp_efd p) [1, 0, 0, 0, 0, 0, 0, 0] v of (e, v1) \<Rightarrow> (map_option ErrSys e, v1))"

definition linux_Close :: "'w linux_sys \<Rightarrow> linux_poller \<Rightarrow> 'w \<Rightarrow> gerr option \<times> linux_poller \<times> 'w" where
  "linux_Close S p v = (let p1 = p\<lparr>lp_die := True\<rparr>; (e, v1) = linux_wakeup S p1 v in (e, p1, v1))"

definition linux_Watch :: "'w linux_sys \<Rightarrow> linux_poller \<Rightarrow> int \<Rightarrow> 'w \<Rightarrow> gerr option \<times> 'w" where
  "linux_Watch S p f v =
     (case l_EpollCtlAdd S (lp_pfd p) f
        \<lparr>ee_Events = or (or (or EPOLLRDHUP EPOLLIN) EPOLLOUT) EPOLLET, ee_Fd = int32 f\<rparr> v of
        (e, v1) \<Rightarrow> (map_option ErrSys e, v1))"

text \<open>Actions of other goroutines on the poller.\<close>

fun linux_act :: "'w linux_sys \<Rightarrow> pact \<Rightarrow> linux_poller \<times> 'w \<Rightarrow> linux_poller \<times> 'w" where
  "linux_act S (PWatch f) (p, v) = (p, snd (linux_Watch S p f v))"
| "linux_act S PWakeup (p, v) = (p, snd (linux_wakeup S p v))"
| "linux_act S PClose (p, v) = snd (linux_Close S p v)"
| "linux_act S (PCpuid c) (p, v) = (p\<lparr>lp_cpuid := c\<rparr>, v)"

definition linux_others :: "'w linux_sys \<Rightarrow> 'w runtime \<Rightarrow> linux_poller \<times> 'w \<Rightarrow> linux_poller \<times> 'w" where
  "linux_others S G x = (case x of (p, v) \<Rightarrow> case g_others G v of (acts, v1) \<Rightarrow> fold (linux_act S) acts (p, v1))"

section \<open>Waiting for events\<close>

definition linux_event :: "epoll_event \<Rightarrow> event" where
  "linux_event ev =
     (let rSet = or EPOLLIN EPOLLRDHUP; wSet = EPOLLOUT; eSet = or EPOLLERR EPOLLHUP;
          e0 = \<lparr>ev_ident = ee_Fd ev, ev_ev = 0\<rparr>;
          e1 = (if and (ee_Events ev) eSet \<noteq> 0 then e0\<lparr>ev_ev := or (ev_ev e0) (or EV_READ EV_WRITE)\<rparr> else e0);
          e2 = (if and (ee_Events ev) rSet \<noteq> 0 then e1\<lparr>ev_ev := or (ev_ev e1) EV_READ\<rparr> else e1)
      in if and (ee_Events ev) wSet \<noteq> 0 then e2\<lparr>ev_ev := or (ev_ev e2) EV_WRITE\<rparr> else e2)"

text \<open>One event of a batch: a wake-up is drained and a CPU number applied, all others are collected.\<close>

definition linux_scan ::
  "'w linux_sys \<Rightarrow> 'w runtime \<Rightarrow> epoll_event \<Rightarrow> linux_poller \<times> pollerEvents \<times> 'w \<Rightarrow> linux_poller \<times> pollerEvents \<times> 'w" where
  "linux_scan S G ev x =
     (case x of (p, eventSet, v) \<Rightarrow>
        if ee_Fd ev = lp_efd p then
          let v1 = l_Read S (lp_efd p) 8 v
          in if lp_cpuid p \<noteq> -1 then (p\<lparr>lp_cpuid := -1\<rparr>, eventSet, g_setAffinity G (lp_cpuid p) v1)
             else (p, eventSet, v1)
        else (p, eventSet @ [linux_event ev], v))"

text \<open>The deferred function: close both descriptors.\<close>

definition linux_Wait_exit :: "'w linux_sys \<Rightarrow> linux_poller \<Rightarrow> 'w \<Rightarrow> linux_poller \<times> 'w" where
  "linux_Wait_exit S p v = (p\<lparr>lp_pfd := -1, lp_efd := -1\<rparr>, l_Close S (lp_efd p) (l_Close S (lp_pfd p) v))"

text \<open>
  Between the test of \<open>die\<close> and the system call other goroutines may run again, and close the poller.
  Hand a batch to the watcher and wait until it has been processed, unless the poller is closed.
\<close>

definition linux_notify ::
  "'w linux_sys \<Rightarrow> 'w runtime \<Rightarrow> linux_poller \<Rightarrow> pollerEvents \<Rightarrow> 'w
     \<Rightarrow> (linux_poller \<times> pollerEvents \<times> 'w) + (linux_poller \<times> 'w)" where
  "linux_notify S G p eventSet v =
     (case linux_others S G (p, v) of (p1, v1) \<Rightarrow>
      case select_die G (lp_die p1) v1 of (sent, v2) \<Rightarrow>
        if \<not> sent then Inr (linux_Wait_exit S p1 v2)
        else let v3 = g_send G \<lparr>sig_events = eventSet, sig_err = None\<rparr> v2
             in case linux_others S G (p1, v3) of (p4, v4) \<Rightarrow>
                case select_die G (lp_die p4) v4 of (fin, v5) \<Rightarrow>
                  if \<not> fin then Inr (linux_Wait_exit S p4 v5) else Inl (p4, [], v5))"

definition linux_Wait_once ::
  "'w linux_sys \<Rightarrow> 'w runtime \<Rightarrow> linux_poller \<times> pollerEvents \<times> 'w
     \<Rightarrow> ((linux_poller \<times> pollerEvents \<times> 'w) + (linux_poller \<times> 'w)) option" where
  "linux_Wait_once S G x =
     (case x of (p0, eventSet, v0) \<Rightarrow>
        case linux_others S G (p0, v0) of (pa, va) \<Rightarrow>
          if lp_die pa then Some (Inr (linux_Wait_exit S pa va))
          else case linux_others S G (pa, va) of (p, v) \<Rightarrow>
            case l_EpollWait S (lp_pfd p) maxEvents v of
              None \<Rightarrow> None
            | Some (Inl err, v1) \<Rightarrow> Some (if err = EINTR then Inl (p, eventSet, v1) else Inr (linux_Wait_exit S p v1))
            | Some (Inr events, v1) \<Rightarrow>
                (case fold (linux_scan S G) events (p, eventSet, v1) of (p2, eventSet2, v2) \<Rightarrow>
                   Some (linux_notify S G p2 eventSet2 v2)))"

text \<open>The \<open>for\<close> loop from the start of any of its iterations, and the whole call.\<close>

definition linux_Wait_loop ::
  "'w linux_sys \<Rightarrow> 'w runtime \<Rightarrow> linux_poller \<times> pollerEvents \<times> 'w \<Rightarrow> (linux_poller \<times> 'w) option" where
  "linux_Wait_loop S G = go_loop (linux_Wait_once S G)"

definition linux_Wait :: "'w linux_sys \<Rightarrow> 'w runtime \<Rightarrow> linux_poller \<Rightarrow> 'w \<Rightarrow> (linux_poller \<times> 'w) option" where
  "linux_Wait S G p v = linux_Wait_loop S G (p, [], v)"

section \<open>Affinity\<close>

text \<open>\<open>CPUSet.Set\<close> of \<open>golang.org/x/sys/unix\<close> and the two calls are parameters.\<close>

record 'w linux_cpu =
  cpu_Set :: "int \<Rightarrow> nat set \<Rightarrow> nat set"
  cpu_LockOSThread :: "'w \<Rightarrow> 'w"
  cpu_SchedSetaffinity :: "nat set \<Rightarrow> 'w \<Rightarrow> 'w"

definition linux_setAffinity :: "'w linux_cpu \<Rightarrow> int \<Rightarrow> 'w \<Rightarrow> 'w" where
  "linux_setAffinity C cpuId v =
     (let newMask = cpu_Set C cpuId {} in cpu_SchedSetaffinity C newMask (cpu_LockOSThread C v))"

section \<open>The events that are reported\<close>

text \<open>
  C30. The flags of a reported event are those of the kernel's: readers are woken exactly by input, a closed
  peer, an error or a hang-up, writers exactly by room for output, an error or a hang-up.
\<close>

theorem linux_event_flags:
  "ev_ident (linux_event ev) = ee_Fd ev
   \<and> readable (linux_event ev) = (bit (ee_Events ev) 0 \<or> bit (ee_Events ev) 13 \<or> bit (ee_Events ev) 3 \<or> bit (ee_Events ev) 4)
   \<and> writable (linux_event ev) = (bit (ee_Events ev) 2 \<or> bit (ee_Events ev) 3 \<or> bit (ee_Events ev) 4)"
proof -
  let ?x = "ee_Events ev"
  have m: "and ?x EPOLLIN \<noteq> 0 \<longleftrightarrow> bit ?x 0" "and ?x EPOLLRDHUP \<noteq> 0 \<longleftrightarrow> bit ?x 13" "and ?x EPOLLOUT \<noteq> 0 \<longleftrightarrow> bit ?x 2"
    "and ?x EPOLLERR \<noteq> 0 \<longleftrightarrow> bit ?x 3" "and ?x EPOLLHUP \<noteq> 0 \<longleftrightarrow> bit ?x 4"
    using and_bit [of ?x 0] and_bit [of ?x 13] and_bit [of ?x 2] and_bit [of ?x 3] and_bit [of ?x 4]
    by (simp_all add: EPOLLIN_def EPOLLRDHUP_def EPOLLOUT_def EPOLLERR_def EPOLLHUP_def)
  show ?thesis
    unfolding linux_event_def Let_def and_or_mask m
    by (simp add: readable_def writable_def EV_READ_def EV_WRITE_def)
qed

lemma linux_event_ident: "ev_ident (linux_event ev) = ee_Fd ev"
  by (simp add: linux_event_def Let_def)

lemma linux_scan_fold:
  "\<exists>p' v'. fold (linux_scan S G) events (p, es, v) = (p', es @ map linux_event (filter (\<lambda>ev. ee_Fd ev \<noteq> lp_efd p) events), v')
    \<and> p' = p\<lparr>lp_cpuid := lp_cpuid p'\<rparr> \<and> lp_cpuid p' = (if lp_efd p \<in> ee_Fd ` set events then -1 else lp_cpuid p)"
proof (induction events arbitrary: p es v)
  case (Cons ev events)
  show ?case
  proof (cases "ee_Fd ev = lp_efd p")
    case True
    let ?p = "p\<lparr>lp_cpuid := -1\<rparr>"
    obtain v1 where "linux_scan S G ev (p, es, v) = (?p, es, v1)"
      using True by (cases "lp_cpuid p = -1") (auto simp: linux_scan_def Let_def)
    with Cons.IH [of ?p es v1] True show ?thesis by (auto split: if_splits)
  next
    case False
    with Cons.IH [of p "es @ [linux_event ev]" v] show ?thesis by (simp add: linux_scan_def image_iff)
  qed
qed simp

text \<open>
  C31. Every batch that the poller hands to the watcher is the kernel's batch, in its order, translated event
  by event, without the wake-ups of the poller itself; it is no longer than the kernel's. A pending CPU number
  is consumed by a wake-up and by nothing else.
\<close>

theorem linux_batch_is_translated:
  assumes "linux_others S G (p0, v0) = (pa, va)" and "\<not> lp_die pa" and "linux_others S G (pa, va) = (p, v)"
    and "l_EpollWait S (lp_pfd p) maxEvents v = Some (Inr events, v1)"
    and "length events \<le> maxEvents"
  shows "\<exists>p2 v2 batch. linux_Wait_once S G (p0, [], v0) = Some (linux_notify S G p2 batch v2)
    \<and> batch = map linux_event (filter (\<lambda>ev. ee_Fd ev \<noteq> lp_efd p) events) \<and> length batch \<le> 4096
    \<and> p2 = p\<lparr>lp_cpuid := (if lp_efd p \<in> ee_Fd ` set events then -1 else lp_cpuid p)\<rparr>"
proof -
  obtain p2 v2 where f: "fold (linux_scan S G) events (p, [], v1) = (p2, map linux_event (filter (\<lambda>ev. ee_Fd ev \<noteq> lp_efd p) events), v2)"
    and p2: "p2 = p\<lparr>lp_cpuid := lp_cpuid p2\<rparr>" "lp_cpuid p2 = (if lp_efd p \<in> ee_Fd ` set events then -1 else lp_cpuid p)"
    using linux_scan_fold [of S G events p "[]" v1] by auto
  have "p2 = p\<lparr>lp_cpuid := (if lp_efd p \<in> ee_Fd ` set events then -1 else lp_cpuid p)\<rparr>"
    using p2(1) unfolding p2(2) .
  moreover have "length (filter (\<lambda>ev. ee_Fd ev \<noteq> lp_efd p) events) \<le> 4096"
    using order_trans [OF length_filter_le assms(5)] by (simp add: maxEvents_def)
  moreover have "linux_Wait_once S G (p0, [], v0)
      = Some (linux_notify S G p2 (map linux_event (filter (\<lambda>ev. ee_Fd ev \<noteq> lp_efd p) events)) v2)"
    using assms(1-4) f by (simp add: linux_Wait_once_def)
  ultimately show ?thesis unfolding length_map [of linux_event, symmetric] by blast
qed

section \<open>Opening and closing\<close>

text \<open>
  What the system does with the set of open descriptors: the two calls that create one return one that was
  not open; \<open>close\<close> closes the one it is given; the others leave the set alone.
\<close>

definition linux_fds :: "'w linux_sys \<Rightarrow> ('w \<Rightarrow> int set) \<Rightarrow> bool" where
  "linux_fds S opened \<longleftrightarrow>
     (\<forall>v. case l_EpollCreate1 S v of (Inl e, v') \<Rightarrow> opened v' = opened v | (Inr f, v') \<Rightarrow> f \<notin> opened v \<and> opened v' = insert f (opened v))
     \<and> (\<forall>v. case l_EVENTFD2 S v of (Inl e, v') \<Rightarrow> opened v' = opened v | (Inr f, v') \<Rightarrow> f \<notin> opened v \<and> opened v' = insert f (opened v))
     \<and> (\<forall>a b e v. opened (snd (l_EpollCtlAdd S a b e v)) = opened v)
     \<and> (\<forall>f v. opened (l_Close S f v) = opened v - {f})"

text \<open>
  C32. Opening the poller is all or nothing: with an error no descriptor is left open; with success exactly
  the epoll descriptor and the event descriptor are new, and the end of \<open>Wait\<close> closes exactly these two.
\<close>

theorem linux_openPoll_all_or_nothing:
  assumes "linux_fds S opened"
  shows "case linux_openPoll S v of
      (Inl e, v') \<Rightarrow> opened v' = opened v
    | (Inr p, v') \<Rightarrow> opened v' = opened v \<union> {lp_pfd p, lp_efd p} \<and> lp_pfd p \<notin> opened v \<and> lp_efd p \<notin> opened v
        \<and> lp_pfd p \<noteq> lp_efd p \<and> lp_cpuid p = -1 \<and> \<not> lp_die p \<and> opened (snd (linux_Wait_exit S p v')) = opened v"
proof -
  have s: "case l_EpollCreate1 S v of (Inl e, v') \<Rightarrow> opened v' = opened v | (Inr f, v') \<Rightarrow> f \<notin> opened v \<and> opened v' = insert f (opened v)"
    "case l_EVENTFD2 S v of (Inl e, v') \<Rightarrow> opened v' = opened v | (Inr f, v') \<Rightarrow> f \<notin> opened v \<and> opened v' = insert f (opened v)"
    "opened (snd (l_EpollCtlAdd S a b e v)) = opened v" "opened (l_Close S f v) = opened v - {f}" for v a b e f
    using assms by (simp_all add: linux_fds_def)
  obtain r1 v1 where c: "l_EpollCreate1 S v = (r1, v1)" by fastforce
  show ?thesis
  proof (cases r1)
    case (Inl e)
    with s(1) [of v] c show ?thesis by (simp add: linux_openPoll_def)
  next
    case (Inr pfd)
    obtain r2 v2 where d: "l_EVENTFD2 S v1 = (r2, v2)" by fastforce
    show ?thesis
    proof (cases r2)
      case (Inl e)
      with s(1) [of v] s(2) [of v1] c d \<open>r1 = Inr pfd\<close> show ?thesis by (simp add: linux_openPoll_def s(4))
    next
      case (Inr efd)
      let ?ev = "\<lparr>ee_Events = or EPOLLIN EPOLLET, ee_Fd = int32 efd\<rparr>"
      obtain r3 v3 where e: "l_EpollCtlAdd S pfd efd ?ev v2 = (r3, v3)" by fastforce
      have "opened v3 = opened v2" using s(3) [of pfd efd ?ev v2] e by simp
      with s(1) [of v] s(2) [of v1] c d e Inr \<open>r1 = Inr pfd\<close> show ?thesis
        by (cases r3) (auto simp: linux_openPoll_def linux_Wait_exit_def s(4))
    qed
  qed
qed

section \<open>Closing a poller that waits\<close>

text \<open>A closed poller with its two descriptors still open; other goroutines and the scan of a batch leave it so.\<close>

definition closed_poller :: "int \<Rightarrow> int \<Rightarrow> linux_poller \<Rightarrow> bool" where
  "closed_poller pfd efd p \<longleftrightarrow> lp_die p \<and> lp_pfd p = pfd \<and> lp_efd p = efd"

lemma linux_act_fields:
  "lp_die (fst x) \<Longrightarrow> lp_die (fst (linux_act S a x))" "lp_pfd (fst (linux_act S a x)) = lp_pfd (fst x)"
  "lp_efd (fst (linux_act S a x)) = lp_efd (fst x)"
  by (cases x; cases a; simp add: linux_Close_def Let_def split: prod.splits)+

lemma linux_others_fields:
  assumes "linux_others S G (p, v) = (p', v')"
  shows "lp_die p \<Longrightarrow> lp_die p'" "lp_pfd p' = lp_pfd p" "lp_efd p' = lp_efd p"
proof -
  have run: "(lp_die (fst x) \<longrightarrow> lp_die (fst (fold (linux_act S) acts x))) \<and> lp_pfd (fst (fold (linux_act S) acts x)) = lp_pfd (fst x)
      \<and> lp_efd (fst (fold (linux_act S) acts x)) = lp_efd (fst x)" for acts x
    by (induction acts arbitrary: x) (simp_all add: linux_act_fields)
  obtain acts v1 where "g_others G v = (acts, v1)" by fastforce
  with assms run [of "(p, v1)" acts] show "lp_die p \<Longrightarrow> lp_die p'" "lp_pfd p' = lp_pfd p" "lp_efd p' = lp_efd p"
    by (simp_all add: linux_others_def)
qed

lemma closed_others: "closed_poller pfd efd p \<Longrightarrow> linux_others S G (p, v) = (p', v') \<Longrightarrow> closed_poller pfd efd p'"
  using linux_others_fields [of S G p v p' v'] by (simp add: closed_poller_def)

lemma linux_notify_closed:
  assumes "closed_poller pfd efd p"
  shows "\<exists>p' v'. closed_poller pfd efd p' \<and> (linux_notify S G p es v = Inr (linux_Wait_exit S p' v') \<or> linux_notify S G p es v = Inl (p', [], v'))"
proof -
  obtain p1 v1 where 1: "linux_others S G (p, v) = (p1, v1)" by fastforce
  obtain sent v2 where 2: "select_die G (lp_die p1) v1 = (sent, v2)" by fastforce
  let ?v3 = "g_send G \<lparr>sig_events = es, sig_err = None\<rparr> v2"
  obtain p4 v4 where 4: "linux_others S G (p1, ?v3) = (p4, v4)" by fastforce
  obtain fin v5 where 5: "select_die G (lp_die p4) v4 = (fin, v5)" by fastforce
  have "closed_poller pfd efd p1" by (rule closed_others [OF assms 1])
  moreover from this have "closed_poller pfd efd p4" by (rule closed_others [OF _ 4])
  ultimately show ?thesis using 1 2 4 5 by (cases sent; cases fin) (auto simp: linux_notify_def Let_def)
qed

lemma linux_Wait_closed:
  assumes "closed_poller pfd efd p"
  shows "\<exists>p' v'. closed_poller pfd efd p' \<and> linux_Wait_loop S G (p, es, v) = Some (linux_Wait_exit S p' v')"
proof -
  obtain p' v' where o: "linux_others S G (p, v) = (p', v')" by fastforce
  have c: "closed_poller pfd efd p'" by (rule closed_others [OF assms o])
  with o have "linux_Wait_once S G (p, es, v) = Some (Inr (linux_Wait_exit S p' v'))"
    by (simp add: linux_Wait_once_def closed_poller_def)
  with c show ?thesis unfolding linux_Wait_loop_def by (subst go_loop.simps) auto
qed

text \<open>
  What the system promises of the event descriptor \<open>efd\<close>, which is registered with the epoll descriptor \<open>pfd\<close>;
  \<open>pend v\<close>: its counter is not 0. A write of 1 adds to the counter, and is refused only when the counter is at its
  maximum; registering a descriptor does not change it; \<open>epoll_wait\<close> does not wait while an event is there to be
  reported.
\<close>

definition eventfd_ok :: "'w linux_sys \<Rightarrow> int \<Rightarrow> int \<Rightarrow> ('w \<Rightarrow> bool) \<Rightarrow> bool" where
  "eventfd_ok S pfd efd pend \<longleftrightarrow>
     (\<forall>v. pend (snd (l_Write S efd [1, 0, 0, 0, 0, 0, 0, 0] v)))
     \<and> (\<forall>f ev v. pend v \<longrightarrow> pend (snd (l_EpollCtlAdd S pfd f ev v)))
     \<and> (\<forall>n v. 0 < n \<longrightarrow> pend v \<longrightarrow> l_EpollWait S pfd n v \<noteq> None)"

lemma close_is_pending:
  assumes "eventfd_ok S pfd efd pend" and "efd \<noteq> -1" and "lp_pfd p = pfd" "lp_efd p = efd" and "\<not> lp_die p"
    and "linux_others S G (p, v) = (p', v')" and "lp_die p'"
  shows "pend v'"
proof -
  let ?J = "\<lambda>x. lp_pfd (fst x) = pfd \<and> lp_efd (fst x) = efd \<and> (lp_die (fst x) \<longrightarrow> pend (snd x))"
  note e = assms(1) [unfolded eventfd_ok_def]
  have wake: "pend (snd (linux_wakeup S q u))" if "lp_efd q = efd" for q u
    using conjunct1 [OF e, THEN spec, of u] that assms(2) by (auto simp: linux_wakeup_def split: prod.splits)
  have watch: "pend (snd (linux_Watch S q f u))" if "lp_pfd q = pfd" "pend u" for q f u
  proof -
    let ?ev = "\<lparr>ee_Events = or (or (or EPOLLRDHUP EPOLLIN) EPOLLOUT) EPOLLET, ee_Fd = int32 f\<rparr>"
    have "pend (snd (l_EpollCtlAdd S pfd f ?ev u))" using e that(2) by simp
    with that(1) show ?thesis by (auto simp: linux_Watch_def split: prod.splits)
  qed
  have "?J (linux_act S a x)" if "?J x" for a x
  proof (cases x)
    case (Pair q u)
    have "lp_efd (q\<lparr>lp_die := True\<rparr>) = lp_efd q" by simp
    with that Pair wake [of q u] wake [of "q\<lparr>lp_die := True\<rparr>" u] watch [of q u] show ?thesis
      by (cases a) (auto simp: linux_Close_def Let_def split: prod.splits)
  qed
  then have run: "?J x \<Longrightarrow> ?J (fold (linux_act S) acts x)" for acts x
    by (induction acts arbitrary: x) simp_all
  obtain acts v1 where "g_others G v = (acts, v1)" by fastforce
  with assms(3-7) run [of "(p, v1)" acts] show ?thesis by (simp add: linux_others_def)
qed

text \<open>
  C33. Closing ends the poller, also while it sleeps in \<open>epoll_wait\<close>: if \<open>Close\<close> has been called before an
  iteration of \<open>Wait\<close>, or is called by another goroutine before the \<open>epoll_wait\<close> of that iteration returns, then
  \<open>Wait\<close> returns; both descriptors are closed in the system, and from then on a wake-up reports \<open>ErrPollerClosed\<close>
  without a system call.
\<close>

theorem linux_Close_ends_Wait:
  assumes "eventfd_ok S pfd efd pend" and "\<forall>f v. opened (l_Close S f v) = opened v - {f}"
    and "lp_pfd p0 = pfd" and "lp_efd p0 = efd" and "efd \<noteq> -1"
    and "linux_others S G (p0, v0) = (pa, va)" and "linux_others S G (pa, va) = (p, v)" and "lp_die p"
  shows "\<exists>p2 v2. linux_Wait_loop S G (p0, es, v0) = Some (p2, v2) \<and> {pfd, efd} \<inter> opened v2 = {}
    \<and> linux_wakeup S p2 u = (Some ErrPollerClosed, u)"
proof -
  have f: "lp_pfd pa = pfd" "lp_efd pa = efd" "lp_pfd p = pfd" "lp_efd p = efd"
    using linux_others_fields [OF assms(6)] linux_others_fields [OF assms(7)] assms(3,4) by simp_all
  have "\<exists>q u. closed_poller pfd efd q \<and> linux_Wait_loop S G (p0, es, v0) = Some (linux_Wait_exit S q u)"
  proof (cases "lp_die pa")
    case True
    then have "linux_Wait_once S G (p0, es, v0) = Some (Inr (linux_Wait_exit S pa va))"
      using assms(6) by (simp add: linux_Wait_once_def)
    with True f show ?thesis unfolding linux_Wait_loop_def closed_poller_def by (subst go_loop.simps) auto
  next
    case False
    have c: "closed_poller pfd efd p" using f assms(8) by (simp add: closed_poller_def)
    have "pend v" by (rule close_is_pending [OF assms(1,5) f(1,2) False assms(7,8)])
    then obtain res v1 where w: "l_EpollWait S pfd maxEvents v = Some (res, v1)"
      using assms(1) by (fastforce simp: eventfd_ok_def maxEvents_def)
    then have once: "linux_Wait_once S G (p0, es, v0) = (case res of
        Inl err \<Rightarrow> Some (if err = EINTR then Inl (p, es, v1) else Inr (linux_Wait_exit S p v1))
      | Inr events \<Rightarrow> (case fold (linux_scan S G) events (p, es, v1) of (p2, es2, v2) \<Rightarrow> Some (linux_notify S G p2 es2 v2)))"
      using f False assms(6,7) by (simp add: linux_Wait_once_def split: sum.splits)
    have "closed_poller pfd efd p2" if "fold (linux_scan S G) events (p, es, v1) = (p2, es2, v2)" for events p2 es2 v2
    proof -
      have "p2 = p\<lparr>lp_cpuid := lp_cpuid p2\<rparr>" using linux_scan_fold [of S G events p es v1] that by auto
      then show ?thesis using c unfolding closed_poller_def by (metis linux_poller.ext_inject linux_poller.surjective linux_poller.update_convs(1))
    qed
    then consider q u where "closed_poller pfd efd q" "linux_Wait_once S G (p0, es, v0) = Some (Inr (linux_Wait_exit S q u))"
      | q u es' where "closed_poller pfd efd q" "linux_Wait_once S G (p0, es, v0) = Some (Inl (q, es', u))"
      using once c linux_notify_closed [of pfd efd _ S G] by (cases res) (auto split: if_splits prod.splits, metis+)
    then show ?thesis
    proof cases
      case 1
      then show ?thesis unfolding linux_Wait_loop_def by (subst go_loop.simps) auto
    next
      case 2
      then have "linux_Wait_loop S G (p0, es, v0) = linux_Wait_loop S G (q, es', u)"
        unfolding linux_Wait_loop_def by (subst go_loop.simps) simp
      with linux_Wait_closed [OF 2(1), of S G es' u] show ?thesis by simp
    qed
  qed
  then obtain q u' where q: "closed_poller pfd efd q" "linux_Wait_loop S G (p0, es, v0) = Some (linux_Wait_exit S q u')" by blast
  then show ?thesis using assms(2) by (auto simp: linux_Wait_exit_def linux_wakeup_def closed_poller_def)
qed

section \<open>Example\<close>

text \<open>A system that numbers descriptors upwards; its first batch holds a wake-up and a hang-up.\<close>

type_synonym linux_world = "int \<times> int list \<times> Signal list"

definition sample_linux :: "linux_world linux_sys" where
  "sample_linux =
     \<lparr>l_EpollCreate1 = (\<lambda>(n, fs, ss). (Inr n, (n + 1, n # filter (\<lambda>f. f < n) fs, ss))),
      l_EVENTFD2 = (\<lambda>(n, fs, ss). (Inr n, (n + 1, n # filter (\<lambda>f. f < n) fs, ss))),
      l_EpollCtlAdd = (\<lambda>a b e v. (None, v)),
      l_EpollWait = (\<lambda>a n v. Some (Inr [\<lparr>ee_Events = 0x1, ee_Fd = 4\<rparr>, \<lparr>ee_Events = 0x10, ee_Fd = 9\<rparr>], v)),
      l_Write = (\<lambda>f bs v. (None, v)),
      l_Read = (\<lambda>f n v. v),
      l_Close = (\<lambda>f (n, fs, ss). (n, removeAll f fs, ss))\<rparr>"

definition sample_runtime :: "linux_world runtime" where
  "sample_runtime =
     \<lparr>g_others = (\<lambda>v. ([], v)), g_select = (\<lambda>v. (True, v)), g_send = (\<lambda>s (n, fs, ss). (n, fs, ss @ [s])),
      g_setAffinity = (\<lambda>c v. v)\<rparr>"

definition linux_opened :: "linux_world \<Rightarrow> int set" where
  "linux_opened v = (case v of (n, fs, ss) \<Rightarrow> {f \<in> set fs. f < n})"

theorem linux_batch_is_translated_witness:
  "\<exists>p2 v2. linux_Wait_once sample_linux sample_runtime (\<lparr>lp_cpuid = 2, lp_pfd = 3, lp_efd = 4, lp_die = False\<rparr>, [], (5, [3, 4], []))
     = Some (linux_notify sample_linux sample_runtime p2 [\<lparr>ev_ident = 9, ev_ev = 3\<rparr>] v2) \<and> lp_cpuid p2 = -1"
proof -
  let ?p = "\<lparr>lp_cpuid = 2, lp_pfd = 3, lp_efd = 4, lp_die = False\<rparr>" and ?v = "(5, [3, 4], []) :: linux_world"
  let ?es = "[\<lparr>ee_Events = 0x1, ee_Fd = 4\<rparr>, \<lparr>ee_Events = 0x10, ee_Fd = 9\<rparr>]"
  have h: "linux_others sample_linux sample_runtime (?p, ?v) = (?p, ?v)" "\<not> lp_die ?p"
    "linux_others sample_linux sample_runtime (?p, ?v) = (?p, ?v)"
    "l_EpollWait sample_linux (lp_pfd ?p) maxEvents ?v = Some (Inr ?es, ?v)" "length ?es \<le> maxEvents"
    by (simp_all add: linux_others_def sample_runtime_def sample_linux_def maxEvents_def)
  have "map linux_event (filter (\<lambda>ev. ee_Fd ev \<noteq> lp_efd ?p) ?es) = [\<lparr>ev_ident = 9, ev_ev = 3\<rparr>]"
    by (simp add: linux_event_def EPOLLIN_def EPOLLRDHUP_def EPOLLOUT_def EPOLLERR_def EPOLLHUP_def EV_READ_def EV_WRITE_def)
  with linux_batch_is_translated [OF h] show ?thesis by force
qed

lemma sample_linux_fds: "linux_fds sample_linux linux_opened"
  by (auto simp: linux_fds_def sample_linux_def linux_opened_def)

theorem linux_openPoll_all_or_nothing_witness:
  "case linux_openPoll sample_linux (3, [], []) of (Inl e, v') \<Rightarrow> False | (Inr p, v') \<Rightarrow> linux_opened v' = {3, 4}"
proof -
  have "linux_openPoll sample_linux (3, [], []) = (Inr \<lparr>lp_cpuid = -1, lp_pfd = 3, lp_efd = 4, lp_die = False\<rparr>, (5, [4, 3], []))"
    by (simp add: linux_openPoll_def sample_linux_def)
  with linux_openPoll_all_or_nothing [OF sample_linux_fds, of "(3, [], [])"] show ?thesis
    by (auto simp: linux_opened_def)
qed

text \<open>
  A system whose \<open>epoll_wait\<close> returns only when the event descriptor has been written to, and a schedule in which
  another goroutine closes the poller while it sleeps. The world: the number of scheduling points passed, the
  counter of the event descriptor and the open descriptors.
\<close>

definition sleepy_linux :: "(nat \<times> nat \<times> int set) linux_sys" where
  "sleepy_linux =
     \<lparr>l_EpollCreate1 = (\<lambda>v. (Inr 3, v)), l_EVENTFD2 = (\<lambda>v. (Inr 4, v)), l_EpollCtlAdd = (\<lambda>a b e v. (None, v)),
      l_EpollWait = (\<lambda>a n (k, c, fs). if c = 0 then None else Some (Inr [\<lparr>ee_Events = 1, ee_Fd = 4\<rparr>], (k, c, fs))),
      l_Write = (\<lambda>f bs (k, c, fs). (None, (k, Suc c, fs))), l_Read = (\<lambda>f n (k, c, fs). (k, 0, fs)),
      l_Close = (\<lambda>f (k, c, fs). (k, c, fs - {f}))\<rparr>"

definition closing_runtime :: "(nat \<times> nat \<times> int set) runtime" where
  "closing_runtime =
     \<lparr>g_others = (\<lambda>(k, c, fs). (if k = 1 then [PClose] else [], (Suc k, c, fs))), g_select = (\<lambda>v. (True, v)),
      g_send = (\<lambda>s v. v), g_setAffinity = (\<lambda>c v. v)\<rparr>"

theorem linux_Close_ends_Wait_witness:
  "l_EpollWait sleepy_linux 3 maxEvents (0, 0, {3, 4}) = None
   \<and> (\<exists>p2 v2. linux_Wait_loop sleepy_linux closing_runtime (\<lparr>lp_cpuid = -1, lp_pfd = 3, lp_efd = 4, lp_die = False\<rparr>, [], (0, 0, {3, 4}))
        = Some (p2, v2) \<and> {3, 4} \<inter> snd (snd v2) = {})"
proof -
  let ?p = "\<lparr>lp_cpuid = -1, lp_pfd = 3, lp_efd = 4, lp_die = False\<rparr>"
  have e: "eventfd_ok sleepy_linux 3 4 (\<lambda>(k, c, fs). c \<noteq> 0)"
    by (auto simp: eventfd_ok_def sleepy_linux_def split: prod.splits)
  have o: "\<forall>f v. snd (snd (l_Close sleepy_linux f v)) = snd (snd v) - {f}" by (auto simp: sleepy_linux_def split: prod.splits)
  have a: "linux_others sleepy_linux closing_runtime (?p, (0, 0, {3, 4})) = (?p, (1, 0, {3, 4}))"
    "linux_others sleepy_linux closing_runtime (?p, (1, 0, {3, 4})) = (?p\<lparr>lp_die := True\<rparr>, (2, 1, {3, 4}))"
    by (simp_all add: linux_others_def closing_runtime_def linux_Close_def linux_wakeup_def sleepy_linux_def numeral_2_eq_2)
  have "l_EpollWait sleepy_linux 3 maxEvents (0, 0, {3, 4}) = None" by (simp add: sleepy_linux_def)
  moreover have h: "lp_pfd ?p = 3" "lp_efd ?p = 4" "(4 :: int) \<noteq> -1" "lp_die (?p\<lparr>lp_die := True\<rparr>)" by simp_all
  from linux_Close_ends_Wait [where opened = "\<lambda>v. snd (snd v)", OF e o h(1-3) a h(4)]
  have "\<exists>p2 v2. linux_Wait_loop sleepy_linux closing_runtime (?p, [], (0, 0, {3, 4})) = Some (p2, v2) \<and> {3, 4} \<inter> snd (snd v2) = {}"
    by blast
  ultimately show ?thesis by blast
qed

end
