(* ===== verification/Poller_Bsd.thy ===== *)
theory Poller_Bsd
  imports Poller_Common
begin

text \<open>
  The kqueue poller of \<open>src/aio_bsd.go\<close>. Sockets are handed over through a queue that \<open>Wait\<close>
  turns into a list of changes for the next \<open>kevent\<close> call. CPU affinity is a no-op there
  (\<open>src/affinity_other.go\<close>).
\<close>

section \<open>State and system calls\<close>

datatype kfilter = EVFILT_READ | EVFILT_WRITE | EVFILT_USER | EVFILT_OTHER

record kevent =
  kv_Ident :: "64 word"
  kv_Filter :: kfilter
  kv_Flags :: "16 word"
  kv_Fflags :: "32 word"

definition EV_ADD :: "16 word" where "EV_ADD = 0x1"
definition EV_CLEAR :: "16 word" where "EV_CLEAR = 0x20"
definition EV_ERROR :: "16 word" where "EV_ERROR = 0x4000"
definition EV_EOF :: "16 word" where "EV_EOF = 0x8000"
definition NOTE_TRIGGER :: "32 word" where "NOTE_TRIGGER = 0x1000000"

record bsd_poller =
  bp_cpuid :: int
  bp_fd :: int
  bp_watchQueue :: "int list"
  bp_die :: bool

text \<open>
  \<open>b_Kevent kq changes n\<close> applies the changes and returns an error or the events that it stored at the
  start of an array of \<open>n\<close>; with \<open>n = 0\<close> it does not wait.
\<close>

record 'w bsd_sys =
  b_Kqueue :: "'w \<Rightarrow> (errno + int) \<times> 'w"
  b_Kevent :: "int \<Rightarrow> kevent list \<Rightarrow> nat \<Rightarrow> 'w \<Rightarrow> (errno + kevent list) \<times> 'w"
  b_Close :: "int \<Rightarrow> 'w \<Rightarrow> 'w"

section \<open>Operations\<close>

definition bsd_openPoll :: "'w bsd_sys \<Rightarrow> 'w \<Rightarrow> (gerr + bsd_poller) \<times> 'w" where
  "bsd_openPoll S v =
     (case b_Kqueue S v of
        (Inl err, v1) \<Rightarrow> (Inl (ErrSys err), v1)
      | (Inr f, v1) \<Rightarrow>
          (case b_Kevent S f [\<lparr>kv_Ident = 0, kv_Filter = EVFILT_USER, kv_Flags = or EV_ADD EV_CLEAR, kv_Fflags = 0\<rparr>] 0 v1 of
             (Inl err, v2) \<Rightarrow> (Inl (ErrSys err), v2)
           | (Inr _, v2) \<Rightarrow> (Inr \<lparr>bp_cpuid = -1, bp_fd = f, bp_watchQueue = [], bp_die = False\<rparr>, v2)))"

definition bsd_wakeup :: "'w bsd_sys \<Rightarrow> bsd_poller \<Rightarrow> 'w \<Rightarrow> gerr option \<times> 'w" where
  "bsd_wakeup S p v =
     (if bp_fd p = -1 then (Some ErrPollerClosed, v)
      else case b_Kevent S (bp_fd p) [\<lparr>kv_Ident = 0, kv_Filter = EVFILT_USER, kv_Flags = 0, kv_Fflags = NOTE_TRIGGER\<rparr>] 0 v of
             (Inl err, v1) \<Rightarrow> (Some (ErrSys err), v1)
           | (Inr _, v1) \<Rightarrow> (None, v1))"

definition bsd_Close :: "'w bsd_sys \<Rightarrow> bsd_poller \<Rightarrow> 'w \<Rightarrow> gerr option \<times> bsd_poller \<times> 'w" where
  "bsd_Close S p v = (let p1 = p\<lparr>bp_die := True\<rparr>; (e, v1) = bsd_wakeup S p1 v in (e, p1, v1))"

definition bsd_Watch :: "'w bsd_sys \<Rightarrow> bsd_poller \<Rightarrow> int \<Rightarrow> 'w \<Rightarrow> gerr option \<times> bsd_poller \<times> 'w" where
  "bsd_Watch S p f v =
     (let p1 = p\<lparr>bp_watchQueue := bp_watchQueue p @ [f]\<rparr>; (e, v1) = bsd_wakeup S p1 v in (e, p1, v1))"

fun bsd_act :: "'w bsd_sys \<Rightarrow> pact \<Rightarrow> bsd_poller \<times> 'w \<Rightarrow> bsd_poller \<times> 'w" where
  "bsd_act S (PWatch f) (p, v) = snd (bsd_Watch S p f v)"
| "bsd_act S PWakeup (p, v) = (p, snd (bsd_wakeup S p v))"
| "bsd_act S PClose (p, v) = snd (bsd_Close S p v)"
| "bsd_act S (PCpuid c) (p, v) = (p\<lparr>bp_cpuid := c\<rparr>, v)"

definition bsd_others :: "'w bsd_sys \<Rightarrow> 'w runtime \<Rightarrow> bsd_poller \<times> 'w \<Rightarrow> bsd_poller \<times> 'w" where
  "bsd_others S G x = (case x of (p, v) \<Rightarrow> case g_others G v of (acts, v1) \<Rightarrow> fold (bsd_act S) acts (p, v1))"

section \<open>Waiting for events\<close>

definition bsd_event :: "kevent \<Rightarrow> event" where
  "bsd_event ev =
     (let e = \<lparr>ev_ident = sint (kv_Ident ev), ev_ev = 0\<rparr>
      in if and (kv_Flags ev) EV_ERROR \<noteq> 0 then e\<lparr>ev_ev := or (ev_ev e) (or EV_READ EV_WRITE)\<rparr>
         else if kv_Filter ev = EVFILT_READ then
           let e1 = e\<lparr>ev_ev := or (ev_ev e) EV_READ\<rparr>
           in if and (kv_Flags ev) EV_EOF \<noteq> 0 then e1\<lparr>ev_ev := or (ev_ev e1) EV_WRITE\<rparr> else e1
         else if kv_Filter ev = EVFILT_WRITE then e\<lparr>ev_ev := or (ev_ev e) EV_WRITE\<rparr>
         else e)"

definition bsd_scan :: "kevent list \<Rightarrow> pollerEvents \<Rightarrow> pollerEvents" where
  "bsd_scan events eventSet = fold (\<lambda>ev es. if kv_Ident ev \<noteq> 0 then es @ [bsd_event ev] else es) events eventSet"

text \<open>The two changes that register a socket.\<close>

definition bsd_change :: "int \<Rightarrow> kevent list" where
  "bsd_change f =
     [\<lparr>kv_Ident = word_of_int f, kv_Filter = EVFILT_READ, kv_Flags = or EV_ADD EV_CLEAR, kv_Fflags = 0\<rparr>,
      \<lparr>kv_Ident = word_of_int f, kv_Filter = EVFILT_WRITE, kv_Flags = or EV_ADD EV_CLEAR, kv_Fflags = 0\<rparr>]"

definition bsd_Wait_exit :: "'w bsd_sys \<Rightarrow> bsd_poller \<Rightarrow> 'w \<Rightarrow> bsd_poller \<times> 'w" where
  "bsd_Wait_exit S p v = (p\<lparr>bp_fd := -1\<rparr>, b_Close S (bp_fd p) v)"

definition bsd_notify ::
  "'w bsd_sys \<Rightarrow> 'w runtime \<Rightarrow> bsd_poller \<Rightarrow> pollerEvents \<Rightarrow> kevent list \<Rightarrow> 'w
     \<Rightarrow> (bsd_poller \<times> pollerEvents \<times> kevent list \<times> 'w) + (bsd_poller \<times> 'w)" where
  "bsd_notify S G p eventSet changes v =
     (case bsd_others S G (p, v) of (p1, v1) \<Rightarrow>
      case select_die G (bp_die p1) v1 of (sent, v2) \<Rightarrow>
        if \<not> sent then Inr (bsd_Wait_exit S p1 v2)
        else let v3 = g_send G \<lparr>sig_events = eventSet, sig_err = None\<rparr> v2
             in case bsd_others S G (p1, v3) of (p4, v4) \<Rightarrow>
                case select_die G (bp_die p4) v4 of (fin, v5) \<Rightarrow>
                  if \<not> fin then Inr (bsd_Wait_exit S p4 v5) else Inl (p4, [], changes, v5))"

text \<open>The queue is turned into changes, which are kept when the call is interrupted.\<close>

definition bsd_Wait_once ::
  "'w bsd_sys \<Rightarrow> 'w runtime \<Rightarrow> bsd_poller \<times> pollerEvents \<times> kevent list \<times> 'w
     \<Rightarrow> (bsd_poller \<times> pollerEvents \<times> kevent list \<times> 'w) + (bsd_poller \<times> 'w)" where
  "bsd_Wait_once S G x =
     (case x of (p0, eventSet, changes0, v0) \<Rightarrow>
        case bsd_others S G (p0, v0) of (pa, va) \<Rightarrow>
          if bp_die pa then Inr (bsd_Wait_exit S pa va)
          else case bsd_others S G (pa, va) of (pb, vb) \<Rightarrow>
            let changes = changes0 @ concat (map bsd_change (bp_watchQueue pb));
                pc = pb\<lparr>bp_watchQueue := []\<rparr>;
                (p, v) = (if bp_cpuid pc \<noteq> -1 then (pc\<lparr>bp_cpuid := -1\<rparr>, g_setAffinity G (bp_cpuid pc) vb) else (pc, vb))
            in case b_Kevent S (bp_fd p) changes maxEvents v of
                 (Inl err, v1) \<Rightarrow> if err = EINTR then Inl (p, eventSet, changes, v1) else Inr (bsd_Wait_exit S p v1)
               | (Inr events, v1) \<Rightarrow> bsd_notify S G p (bsd_scan events eventSet) [] v1)"

definition bsd_Wait :: "'w bsd_sys \<Rightarrow> 'w runtime \<Rightarrow> bsd_poller \<Rightarrow> 'w \<Rightarrow> (bsd_poller \<times> 'w) option" where
  "bsd_Wait S G p v = go_loop (\<lambda>x. Some (bsd_Wait_once S G x)) (p, [], [], v)"

definition other_setAffinity :: "int \<Rightarrow> 'w \<Rightarrow> 'w" where
  "other_setAffinity cpuId v = v"

text \<open>The file has its own copy of the two raw calls.\<close>

definition bsd_rawRead :: "'w unix \<Rightarrow> int \<Rightarrow> nat \<Rightarrow> 'w \<Rightarrow> (int \<times> errno option \<times> byte list) \<times> 'w" where
  "bsd_rawRead U f n v =
     (case u_READ U f n v of ((r0, e1, bs), v') \<Rightarrow> (if e1 \<noteq> None then (-1, e1, bs) else (sint r0, None, bs), v'))"

definition bsd_rawWrite :: "'w unix \<Rightarrow> int \<Rightarrow> byte list \<Rightarrow> 'w \<Rightarrow> (int \<times> errno option) \<times> 'w" where
  "bsd_rawWrite U f bs v =
     (case u_WRITE U f bs v of ((r0, e1), v') \<Rightarrow> (if e1 \<noteq> None then (-1, e1) else (sint r0, None), v'))"

section \<open>Registration\<close>

text \<open>
  The system's side: \<open>taken v\<close> are the changes that the kernel has processed, each with its kqueue. A call of
  \<open>kevent\<close> that succeeds has processed all its changes (one that it refuses is reported as an event with the flag
  \<open>EV_ERROR\<close>); of a call that fails nothing is assumed. The other goroutines do not undo it.
\<close>

definition kevent_ok :: "'w bsd_sys \<Rightarrow> 'w runtime \<Rightarrow> ('w \<Rightarrow> (int \<times> kevent) set) \<Rightarrow> bool" where
  "kevent_ok S G taken \<longleftrightarrow>
     (\<forall>kq cs n v. case b_Kevent S kq cs n v of
        (Inl e, v') \<Rightarrow> taken v \<subseteq> taken v'
      | (Inr events, v') \<Rightarrow> taken v \<union> Pair kq ` set cs \<subseteq> taken v')
     \<and> (\<forall>v. taken v \<subseteq> taken (snd (g_others G v))) \<and> (\<forall>v. taken v \<subseteq> taken (snd (g_select G v)))
     \<and> (\<forall>s v. taken v \<subseteq> taken (g_send G s v)) \<and> (\<forall>c v. taken v \<subseteq> taken (g_setAffinity G c v))"

lemma kevent_okD:
  assumes "kevent_ok S G taken"
  shows "b_Kevent S kq cs n v = (Inl e, v') \<Longrightarrow> taken v \<subseteq> taken v'"
    "b_Kevent S kq cs n v = (Inr events, v') \<Longrightarrow> taken v \<subseteq> taken v'"
    "b_Kevent S kq cs n v = (Inr events, v') \<Longrightarrow> Pair kq ` set cs \<subseteq> taken v'"
    "taken v \<subseteq> taken (snd (g_others G v))" "taken v \<subseteq> taken (snd (g_select G v))"
    "taken v \<subseteq> taken (g_send G s v)" "taken v \<subseteq> taken (g_setAffinity G c v)"
proof -
  have "case b_Kevent S kq cs n v of (Inl e, v') \<Rightarrow> taken v \<subseteq> taken v' | (Inr events, v') \<Rightarrow> taken v \<union> Pair kq ` set cs \<subseteq> taken v'"
    using assms by (simp add: kevent_ok_def)
  then show "b_Kevent S kq cs n v = (Inl e, v') \<Longrightarrow> taken v \<subseteq> taken v'"
    "b_Kevent S kq cs n v = (Inr events, v') \<Longrightarrow> taken v \<subseteq> taken v'"
    "b_Kevent S kq cs n v = (Inr events, v') \<Longrightarrow> Pair kq ` set cs \<subseteq> taken v'" by simp_all
qed (use assms in \<open>simp_all add: kevent_ok_def\<close>)

lemma bsd_wakeup_taken: "kevent_ok S G taken \<Longrightarrow> taken v \<subseteq> taken (snd (bsd_wakeup S p v))"
  by (auto simp: bsd_wakeup_def split: prod.splits sum.splits dest: kevent_okD(1,2) [THEN subsetD])

lemma bsd_act_kept:
  assumes "kevent_ok S G taken"
  shows "set (bp_watchQueue (fst x)) \<subseteq> set (bp_watchQueue (fst (bsd_act S a x)))" "bp_fd (fst (bsd_act S a x)) = bp_fd (fst x)"
    "taken (snd x) \<subseteq> taken (snd (bsd_act S a x))"
proof -
  show "set (bp_watchQueue (fst x)) \<subseteq> set (bp_watchQueue (fst (bsd_act S a x)))" "bp_fd (fst (bsd_act S a x)) = bp_fd (fst x)"
    by (cases x; cases a; auto simp: bsd_Watch_def bsd_Close_def Let_def split: prod.splits)+
  have w: "taken v \<subseteq> taken v'" if "bsd_wakeup S p v = (e, v')" for p v e v' using bsd_wakeup_taken [OF assms, of v p] that by simp
  show "taken (snd x) \<subseteq> taken (snd (bsd_act S a x))"
    by (cases x; cases a) (auto simp: bsd_Watch_def bsd_Close_def Let_def split: prod.splits dest: w [THEN subsetD] bsd_wakeup_taken [OF assms, THEN subsetD])
qed

lemma bsd_others_kept:
  assumes "kevent_ok S G taken" and "bsd_others S G (p, v) = (p', v')"
  shows "set (bp_watchQueue p) \<subseteq> set (bp_watchQueue p')" "bp_fd p' = bp_fd p" "taken v \<subseteq> taken v'"
proof -
  have run: "set (bp_watchQueue (fst x)) \<subseteq> set (bp_watchQueue (fst (fold (bsd_act S) acts x)))
      \<and> bp_fd (fst (fold (bsd_act S) acts x)) = bp_fd (fst x) \<and> taken (snd x) \<subseteq> taken (snd (fold (bsd_act S) acts x))" for acts x
  proof (induction acts arbitrary: x)
    case (Cons a acts)
    from Cons [of "bsd_act S a x"] bsd_act_kept [OF assms(1), where x = x and a = a] show ?case by fastforce
  qed simp
  obtain acts v1 where g: "g_others G v = (acts, v1)" by fastforce
  then have "taken v \<subseteq> taken v1" using kevent_okD(4) [OF assms(1), of v] by simp
  with g assms(2) run [of "(p, v1)" acts] show "set (bp_watchQueue p) \<subseteq> set (bp_watchQueue p')" "bp_fd p' = bp_fd p" "taken v \<subseteq> taken v'"
    by (auto simp: bsd_others_def)
qed

lemma bsd_notify_kept:
  assumes k: "kevent_ok S G taken" and "bsd_notify S G p es cs v = Inl (p', es', cs', v')"
  shows "bp_fd p' = bp_fd p" "taken v \<subseteq> taken v'"
proof -
  obtain p1 v1 where 1: "bsd_others S G (p, v) = (p1, v1)" by fastforce
  obtain sent v2 where 2: "select_die G (bp_die p1) v1 = (sent, v2)" by fastforce
  let ?v3 = "g_send G \<lparr>sig_events = es, sig_err = None\<rparr> v2"
  obtain p4 v4 where 4: "bsd_others S G (p1, ?v3) = (p4, v4)" by fastforce
  obtain fin v5 where 5: "select_die G (bp_die p4) v4 = (fin, v5)" by fastforce
  have sel: "taken u \<subseteq> taken u'" if "select_die G b u = (x, u')" for b u x u'
    using that kevent_okD(5) [OF k, of u] by (auto simp: select_die_def split: if_splits)
  have "p' = p4" "v' = v5" using assms(2) 1 2 4 5 by (auto simp: bsd_notify_def Let_def split: if_splits)
  then show "bp_fd p' = bp_fd p" using bsd_others_kept(2) [OF k 1] bsd_others_kept(2) [OF k 4] by simp
  have "taken v \<subseteq> taken ?v3" using bsd_others_kept(3) [OF k 1] sel [OF 2] kevent_okD(6) [OF k, of v2] by blast
  also have "\<dots> \<subseteq> taken v5" using bsd_others_kept(3) [OF k 4] sel [OF 5] by blast
  finally show "taken v \<subseteq> taken v'" by (simp add: \<open>v' = v5\<close>)
qed

text \<open>One iteration: what was queued or among the changes is among the changes again, or was processed.\<close>

lemma bsd_iteration:
  assumes k: "kevent_ok S G taken" and it: "bsd_Wait_once S G (p0, es, cs, v0) = Inl (p', es', cs', v')"
    and c: "c \<in> set cs \<or> c \<in> set (bsd_change f) \<and> f \<in> set (bp_watchQueue p0) \<or> (bp_fd p0, c) \<in> taken v0"
  shows "bp_fd p' = bp_fd p0" "c \<in> set cs' \<or> (bp_fd p0, c) \<in> taken v'"
proof -
  obtain pa va where a: "bsd_others S G (p0, v0) = (pa, va)" by fastforce
  obtain pb vb where b: "bsd_others S G (pa, va) = (pb, vb)" by fastforce
  note ka = bsd_others_kept [OF k a] and kb = bsd_others_kept [OF k b]
  let ?cs = "cs @ concat (map bsd_change (bp_watchQueue pb))" and ?pc = "pb\<lparr>bp_watchQueue := []\<rparr>"
  obtain p v where d: "(if bp_cpuid ?pc \<noteq> -1 then (?pc\<lparr>bp_cpuid := -1\<rparr>, g_setAffinity G (bp_cpuid ?pc) vb) else (?pc, vb)) = (p, v)"
    by fastforce
  have p: "bp_fd p = bp_fd p0" "taken v0 \<subseteq> taken v"
    using d ka(2,3) kb(2,3) kevent_okD(7) [OF k, where v = vb] by (auto split: if_splits)
  have "set (bp_watchQueue p0) \<subseteq> set (bp_watchQueue pb)" using ka(1) kb(1) by blast
  then have c': "c \<in> set ?cs \<or> (bp_fd p0, c) \<in> taken v" using c p(2) by auto
  obtain r v1 where e: "b_Kevent S (bp_fd p) ?cs maxEvents v = (r, v1)" by fastforce
  have die: "\<not> bp_die pa" using it a by (auto simp: bsd_Wait_once_def)
  have "bp_fd p' = bp_fd p0 \<and> (c \<in> set cs' \<or> (bp_fd p0, c) \<in> taken v')"
  proof (cases r)
    case (Inl err)
    with it a b d e die have "p' = p" "cs' = ?cs" "v' = v1" by (auto simp: bsd_Wait_once_def Let_def split: if_splits)
    with p(1) c' kevent_okD(1) [OF k e [unfolded Inl]] show ?thesis by (auto dest: subsetD)
  next
    case (Inr events)
    with it a b d e die have n: "bsd_notify S G p (bsd_scan events es) [] v1 = Inl (p', es', cs', v')"
      by (auto simp: bsd_Wait_once_def Let_def)
    have "(bp_fd p0, c) \<in> taken v1"
      using kevent_okD(2,3) [OF k e [unfolded Inr]] c' p(1) by auto
    with bsd_notify_kept [OF k n] p(1) show ?thesis by auto
  qed
  then show "bp_fd p' = bp_fd p0" "c \<in> set cs' \<or> (bp_fd p0, c) \<in> taken v'"
    by blast+
qed

text \<open>
  C34. No registration is lost: after \<open>Watch f\<close> and any positive number of iterations of \<open>Wait\<close>, both the read and
  the write filter of \<open>f\<close>, edge triggered (flags 1 and 32), have been processed by the kernel or are among the changes
  of the next call; so an interrupted call loses nothing, and once no changes are left the socket is registered.
\<close>

theorem bsd_registration_not_lost:
  assumes "kevent_ok S G taken" and "bsd_Watch S p f v = (e, p0, v0)"
    and "(\<lambda>x y. bsd_Wait_once S G x = Inl y)\<^sup>+\<^sup>+ (p0, es, cs, v0) (p', es', cs', v')"
    and "flt = EVFILT_READ \<or> flt = EVFILT_WRITE"
  shows "\<lparr>kv_Ident = word_of_int f, kv_Filter = flt, kv_Flags = 0x21, kv_Fflags = 0\<rparr> \<in> set cs'
    \<or> (bp_fd p, \<lparr>kv_Ident = word_of_int f, kv_Filter = flt, kv_Flags = 0x21, kv_Fflags = 0\<rparr>) \<in> taken v'"
proof -
  let ?c = "\<lparr>kv_Ident = word_of_int f, kv_Filter = flt, kv_Flags = 0x21, kv_Fflags = 0\<rparr>"
  have c: "?c \<in> set (bsd_change f)" using assms(4) by (auto simp: bsd_change_def EV_ADD_def EV_CLEAR_def)
  have q: "f \<in> set (bp_watchQueue p0)" "bp_fd p0 = bp_fd p" using assms(2) by (auto simp: bsd_Watch_def Let_def split: prod.splits)
  let ?J = "\<lambda>y. bp_fd (fst y) = bp_fd p \<and> (?c \<in> set (fst (snd (snd y))) \<or> (bp_fd p, ?c) \<in> taken (snd (snd (snd y))))"
  from assms(3) have "?J (p', es', cs', v')"
  proof (induction rule: tranclp_induct)
    case (base y)
    then show ?case using bsd_iteration [OF assms(1), of p0 es cs v0 _ _ _ _ ?c f] c q by (cases y) fastforce
  next
    case (step y z)
    then show ?case
      using bsd_iteration [OF assms(1), of "fst y" "fst (snd y)" "fst (snd (snd y))" "snd (snd (snd y))" _ _ _ _ ?c f] by (cases z) fastforce
  qed
  then show ?thesis by simp
qed

section \<open>The events that are reported\<close>

lemma bsd_scan_eq: "bsd_scan events es = es @ map bsd_event (filter (\<lambda>ev. kv_Ident ev \<noteq> 0) events)"
  unfolding bsd_scan_def by (induction events arbitrary: es) simp_all

text \<open>
  C35. A reported batch is the kernel's batch, in its order, without the events of identity 0. An error wakes
  both sides, a read event wakes the readers and, at the end of the stream, the writers too, a write event the
  writers. A descriptor comes back as it was registered, on the 64 bits of an \<open>int\<close>.
\<close>

theorem bsd_batch_is_translated:
  "bsd_scan events [] = map bsd_event (filter (\<lambda>ev. kv_Ident ev \<noteq> 0) events)
   \<and> readable (bsd_event ev) = (bit (kv_Flags ev) 14 \<or> kv_Filter ev = EVFILT_READ)
   \<and> writable (bsd_event ev) = (bit (kv_Flags ev) 14 \<or> kv_Filter ev = EVFILT_WRITE \<or> kv_Filter ev = EVFILT_READ \<and> bit (kv_Flags ev) 15)
   \<and> map (\<lambda>c. ev_ident (bsd_event c)) (bsd_change f) = [signed_take_bit 63 f, signed_take_bit 63 f]"
proof -
  let ?x = "kv_Flags ev"
  have m: "and ?x EV_ERROR \<noteq> 0 \<longleftrightarrow> bit ?x 14" "and ?x EV_EOF \<noteq> 0 \<longleftrightarrow> bit ?x 15"
    using and_bit [of ?x 14] and_bit [of ?x 15] by (simp_all add: EV_ERROR_def EV_EOF_def)
  have "readable (bsd_event ev) = (bit ?x 14 \<or> kv_Filter ev = EVFILT_READ)"
    "writable (bsd_event ev) = (bit ?x 14 \<or> kv_Filter ev = EVFILT_WRITE \<or> kv_Filter ev = EVFILT_READ \<and> bit ?x 15)"
    unfolding bsd_event_def Let_def m by (auto simp: readable_def writable_def EV_READ_def EV_WRITE_def)
  moreover have "ev_ident (bsd_event c) = sint (kv_Ident c)" for c by (simp add: bsd_event_def Let_def)
  ultimately show ?thesis by (simp add: bsd_scan_eq bsd_change_def signed_of_int)
qed

text \<open>
  A flaw of the code: descriptor 0 cannot be watched. It is accepted and its filters are registered
  under identity 0, but identity 0 also stands for the wake-up, so no batch of events that \<open>Wait\<close> reports has one
  of descriptor 0.
\<close>

lemma bsd_descriptor_0_unheard:
  "bp_watchQueue (fst (snd (bsd_Watch S p 0 v))) = bp_watchQueue p @ [0] \<and> map kv_Ident (bsd_change 0) = [0, 0]
   \<and> 0 \<notin> ev_ident ` set (bsd_scan events [])"
proof (intro conjI)
  show "bp_watchQueue (fst (snd (bsd_Watch S p 0 v))) = bp_watchQueue p @ [0]" "map kv_Ident (bsd_change 0) = [0, 0]"
    by (simp_all add: bsd_Watch_def Let_def bsd_change_def split: prod.splits)
  have "ev_ident (bsd_event ev) \<noteq> 0" if "kv_Ident ev \<noteq> 0" for ev
    using that by (simp add: bsd_event_def Let_def signed_eq_0_iff)
  then show "0 \<notin> ev_ident ` set (bsd_scan events [])" by (auto simp: bsd_scan_eq)
qed

section \<open>Opening\<close>

text \<open>
  A flaw of the code: when the wake-up event cannot be registered, \<open>openPoll\<close> returns the error and
  leaves the new kqueue descriptor open, with no reference to it left.
\<close>

lemma bsd_openPoll_leaks:
  assumes "b_Kqueue S v = (Inr f, v1)" and "f \<notin> opened v" and "opened v1 = insert f (opened v)"
    and "b_Kevent S f [\<lparr>kv_Ident = 0, kv_Filter = EVFILT_USER, kv_Flags = 0x21, kv_Fflags = 0\<rparr>] 0 v1 = (Inl err, v2)"
    and "opened v2 = opened v1"
  shows "bsd_openPoll S v = (Inl (ErrSys err), v2) \<and> f \<in> opened v2 - opened v"
proof -
  have "or EV_ADD EV_CLEAR = 0x21" by (simp add: EV_ADD_def EV_CLEAR_def)
  with assms show ?thesis by (simp add: bsd_openPoll_def)
qed

section \<open>Example\<close>

text \<open>A system in which registering the wake-up fails, and one in which every call is interrupted.\<close>

definition full_bsd :: "int set bsd_sys" where
  "full_bsd = \<lparr>b_Kqueue = (\<lambda>v. (Inr 3, insert 3 v)), b_Kevent = (\<lambda>k cs n v. (Inl (Errno 12), v)), b_Close = (\<lambda>f v. v - {f})\<rparr>"

lemma bsd_openPoll_leaks_witness: "bsd_openPoll full_bsd {} = (Inl (ErrSys (Errno 12)), {3})"
proof -
  have "b_Kqueue full_bsd {} = (Inr 3, {3})"
    "b_Kevent full_bsd 3 [\<lparr>kv_Ident = 0, kv_Filter = EVFILT_USER, kv_Flags = 0x21, kv_Fflags = 0\<rparr>] 0 {3} = (Inl (Errno 12), {3})"
    by (simp_all add: full_bsd_def)
  from bsd_openPoll_leaks [where opened = "\<lambda>v. v", OF this(1) _ _ this(2)] show ?thesis by simp
qed

text \<open>A kernel that records the changes it has processed and is interrupted in its first call.\<close>

definition busy_bsd :: "(nat \<times> (int \<times> kevent) list) bsd_sys" where
  "busy_bsd = \<lparr>b_Kqueue = (\<lambda>v. (Inr 3, v)),
     b_Kevent = (\<lambda>k cs n (i, ts). if n \<noteq> 0 \<and> i = 0 then (Inl EINTR, (Suc i, ts)) else (Inr [], (i, ts @ map (Pair k) cs))),
     b_Close = (\<lambda>f v. v)\<rparr>"

definition busy_runtime :: "(nat \<times> (int \<times> kevent) list) runtime" where
  "busy_runtime = \<lparr>g_others = (\<lambda>v. ([], v)), g_select = (\<lambda>v. (True, v)), g_send = (\<lambda>s v. v), g_setAffinity = (\<lambda>c v. v)\<rparr>"

theorem bsd_registration_not_lost_witness:
  "\<exists>p0 v0 p' es' v'. bsd_Watch busy_bsd \<lparr>bp_cpuid = -1, bp_fd = 3, bp_watchQueue = [], bp_die = False\<rparr> 9 (0, []) = (None, p0, v0)
     \<and> (\<lambda>x y. bsd_Wait_once busy_bsd busy_runtime x = Inl y)\<^sup>+\<^sup>+ (p0, [], [], v0) (p', es', [], v')
     \<and> (3, \<lparr>kv_Ident = 9, kv_Filter = EVFILT_WRITE, kv_Flags = 0x21, kv_Fflags = 0\<rparr>) \<in> set (snd v')"
proof -
  let ?p = "\<lparr>bp_cpuid = -1, bp_fd = 3, bp_watchQueue = [], bp_die = False\<rparr>" and ?v = "(0, []) :: nat \<times> (int \<times> kevent) list"
  let ?t = "[(3, \<lparr>kv_Ident = 0, kv_Filter = EVFILT_USER, kv_Flags = 0, kv_Fflags = NOTE_TRIGGER\<rparr>)]"
  have k: "kevent_ok busy_bsd busy_runtime (\<lambda>v. set (snd v))"
    by (auto simp: kevent_ok_def busy_bsd_def busy_runtime_def split: prod.splits)
  have w: "bsd_Watch busy_bsd ?p 9 ?v = (None, ?p\<lparr>bp_watchQueue := [9]\<rparr>, (0, ?t))"
    by (simp add: bsd_Watch_def bsd_wakeup_def busy_bsd_def Let_def)
  let ?x = "(?p, [], bsd_change 9, (1, ?t))" and ?y = "(?p, [], [], (1, ?t @ map (Pair 3) (bsd_change 9)))"
  have s: "bsd_Wait_once busy_bsd busy_runtime (?p\<lparr>bp_watchQueue := [9]\<rparr>, [], [], (0, ?t)) = Inl ?x"
    "bsd_Wait_once busy_bsd busy_runtime ?x = Inl ?y"
    by (simp_all add: bsd_Wait_once_def bsd_others_def busy_runtime_def busy_bsd_def maxEvents_def bsd_notify_def select_die_def bsd_scan_def Let_def)
  then have t: "(\<lambda>x y. bsd_Wait_once busy_bsd busy_runtime x = Inl y)\<^sup>+\<^sup>+ (?p\<lparr>bp_watchQueue := [9]\<rparr>, [], [], (0, ?t)) ?y"
    by (meson tranclp.r_into_trancl tranclp.trancl_into_trancl)
  from bsd_registration_not_lost [OF k w t, of EVFILT_WRITE] w t show ?thesis by fastforce
qed

end
