(* ===== verification/Poller_Windows.thy ===== *)
theory Poller_Windows
  imports Poller_Common
begin

text \<open>
  The WSAPoll poller of \<open>src/aio_windows.go\<close> and the affinity call of
  \<open>src/affinity_windows.go\<close>. The poll set is an array with a map from sockets to positions; it is
  shown to implement a set. Procedures of the system libraries are parameters. A socket is a
  \<open>uintptr\<close> of 64 bits.
\<close>

section \<open>Constants, state and system calls\<close>

type_synonym socket = "64 word"

definition POLLRDNORM :: "16 word" where "POLLRDNORM = 0x100"
definition POLLWRNORM :: "16 word" where "POLLWRNORM = 0x10"
definition POLLERR :: "16 word" where "POLLERR = 0x1"
definition POLLHUP :: "16 word" where "POLLHUP = 0x2"
definition POLLNVAL :: "16 word" where "POLLNVAL = 0x4"
definition WSAEWOULDBLOCK :: int where "WSAEWOULDBLOCK = 10035"
definition WSAEINTR :: int where "WSAEINTR = 10004"
definition INVALID_SOCKET :: socket where "INVALID_SOCKET = not 0"

record wsaPollFd =
  pf_fd :: socket
  pf_events :: "16 word"
  pf_revents :: "16 word"

record win_poller =
  wp_cpuid :: int
  wp_pollFds :: "wsaPollFd list"
  wp_fdMap :: "socket \<Rightarrow> nat option"
  wp_wakeupReader :: socket
  wp_wakeupWriter :: socket
  wp_die :: bool

text \<open>
  The procedures report success by their first result and a Windows error number otherwise.
  \<open>ws_WSAPoll\<close> gets the array and returns it with its \<open>revents\<close> filled in; \<open>ws_WSARecv s n\<close>
  gets the 32-bit length of the buffer and returns the number of bytes with the bytes;
  \<open>ws_errtext\<close> is the text of an error number. The protocol information that goes from
  \<open>WSADuplicateSocketW\<close> to \<open>WSASocketW\<close> is opaque.
\<close>

record 'w win_sys =
  ws_WSAPoll :: "wsaPollFd list \<Rightarrow> 'w \<Rightarrow> (int + nat \<times> wsaPollFd list) \<times> 'w"
  ws_WSARecv :: "socket \<Rightarrow> 32 word \<Rightarrow> 'w \<Rightarrow> (int + 32 word \<times> byte list) \<times> 'w"
  ws_WSASend :: "socket \<Rightarrow> byte list \<Rightarrow> 'w \<Rightarrow> (int + 32 word) \<times> 'w"
  ws_closesocket :: "socket \<Rightarrow> 'w \<Rightarrow> int option \<times> 'w"
  ws_WSADuplicateSocketW :: "socket \<Rightarrow> 'w \<Rightarrow> (int + nat) \<times> 'w"
  ws_WSASocketW :: "nat \<Rightarrow> 'w \<Rightarrow> (socket \<times> int) \<times> 'w"
  ws_ioctlsocket :: "socket \<Rightarrow> 'w \<Rightarrow> int option \<times> 'w"
  ws_errtext :: "int \<Rightarrow> string"

text \<open>The Go errors of a Windows error number.\<close>

abbreviation werr :: "int \<Rightarrow> gerr" where
  "werr c \<equiv> ErrSys (Errno c)"

section \<open>Sockets\<close>

definition closeSocket :: "'w win_sys \<Rightarrow> socket \<Rightarrow> 'w \<Rightarrow> gerr option \<times> 'w" where
  "closeSocket S f v = (case ws_closesocket S f v of (e, v') \<Rightarrow> (map_option werr e, v'))"

definition duplicateSocket :: "'w win_sys \<Rightarrow> socket \<Rightarrow> 'w \<Rightarrow> (gerr + socket) \<times> 'w" where
  "duplicateSocket S f v =
     (case ws_WSADuplicateSocketW S f v of
        (Inl errno, v1) \<Rightarrow> (Inl (werr errno), v1)
      | (Inr protocolInfo, v1) \<Rightarrow>
          (case ws_WSASocketW S protocolInfo v1 of
             ((r0, errno), v2) \<Rightarrow> (if r0 = INVALID_SOCKET then Inl (werr errno) else Inr r0, v2)))"

definition setNonBlocking :: "'w win_sys \<Rightarrow> socket \<Rightarrow> 'w \<Rightarrow> gerr option \<times> 'w" where
  "setNonBlocking S f v = (case ws_ioctlsocket S f v of (e, v') \<Rightarrow> (map_option werr e, v'))"

text \<open>
  \<open>createSocketPair\<close>. The calls of package \<open>net\<close> are parameters: \<open>n_listen\<close>, \<open>n_accept\<close>,
  \<open>n_dial\<close> with their errors, the raw sockets of the two connections (\<open>None\<close>: there is none, or
  \<open>Control\<close> did not run its argument), and \<open>Close\<close> of the listener and of a connection. \<open>Dial\<close> runs in a goroutine
  of its own; \<open>Accept\<close> is taken to return, although with a failed \<open>Dial\<close> it may wait forever.
\<close>

record 'w win_net =
  n_listen :: "'w \<Rightarrow> gerr option \<times> 'w"
  n_accept :: "'w \<Rightarrow> gerr option \<times> 'w"
  n_dial :: "'w \<Rightarrow> gerr option \<times> 'w"
  n_acceptedRaw :: "'w \<Rightarrow> socket option \<times> 'w"
  n_dialedRaw :: "'w \<Rightarrow> socket option \<times> 'w"
  n_closeAccepted :: "'w \<Rightarrow> 'w"
  n_closeDialed :: "'w \<Rightarrow> 'w"
  n_closeListener :: "'w \<Rightarrow> 'w"

text \<open>A duplicate of a raw socket, 0 when there is none.\<close>

definition raw_duplicate :: "'w win_sys \<Rightarrow> socket option \<Rightarrow> 'w \<Rightarrow> socket \<times> 'w" where
  "raw_duplicate S raw v =
     (case raw of
        None \<Rightarrow> (0, v)
      | Some f \<Rightarrow> (case duplicateSocket S f v of (Inl _, v') \<Rightarrow> (0, v') | (Inr s, v') \<Rightarrow> (s, v')))"

text \<open>The end of \<open>createSocketPair\<close>: both or none.\<close>

definition finish_pair :: "'w win_sys \<Rightarrow> socket \<Rightarrow> socket \<Rightarrow> 'w \<Rightarrow> (gerr + socket \<times> socket) \<times> 'w" where
  "finish_pair S rfd wfd v =
     (if rfd = 0 \<or> wfd = 0 then
        let v1 = (if rfd \<noteq> 0 then snd (closeSocket S rfd v) else v);
            v2 = (if wfd \<noteq> 0 then snd (closeSocket S wfd v1) else v1)
        in (Inl (ErrText ''failed to create socket pair''), v2)
      else case setNonBlocking S rfd v of
             (Some e, v1) \<Rightarrow> (Inl e, snd (closeSocket S wfd (snd (closeSocket S rfd v1))))
           | (None, v1) \<Rightarrow>
               (case setNonBlocking S wfd v1 of
                  (Some e, v2) \<Rightarrow> (Inl e, snd (closeSocket S wfd (snd (closeSocket S rfd v2))))
                | (None, v2) \<Rightarrow> (Inr (rfd, wfd), v2)))"

definition createSocketPair :: "'w win_sys \<Rightarrow> 'w win_net \<Rightarrow> 'w \<Rightarrow> (gerr + socket \<times> socket) \<times> 'w" where
  "createSocketPair S N v =
     (case n_listen N v of
        (Some e, v1) \<Rightarrow> (Inl e, v1)
      | (None, v1) \<Rightarrow>
          let (derr, v2) = n_dial N v1
          in case n_accept N v2 of
               (Some e, v3) \<Rightarrow> (Inl e, n_closeListener N v3)
             | (None, v3) \<Rightarrow>
                 (case derr of
                    Some e \<Rightarrow> (Inl e, n_closeListener N (n_closeAccepted N v3))
                  | None \<Rightarrow>
                      let (araw, v4) = n_acceptedRaw N v3;
                          (rfd, v5) = raw_duplicate S araw v4;
                          (draw, v6) = n_dialedRaw N (n_closeAccepted N v5);
                          (wfd, v7) = raw_duplicate S draw v6;
                          (res, v8) = finish_pair S rfd wfd (n_closeDialed N v7)
                      in (res, n_closeListener N v8)))"

section \<open>The poll set\<close>

definition win_openPoll :: "'w win_sys \<Rightarrow> 'w win_net \<Rightarrow> 'w \<Rightarrow> (gerr + win_poller) \<times> 'w" where
  "win_openPoll S N v =
     (case createSocketPair S N v of
        (Inl e, v1) \<Rightarrow> (Inl e, v1)
      | (Inr (reader, writer), v1) \<Rightarrow>
          (Inr \<lparr>wp_cpuid = -1, wp_pollFds = [\<lparr>pf_fd = reader, pf_events = POLLRDNORM, pf_revents = 0\<rparr>],
             wp_fdMap = [reader \<mapsto> 0], wp_wakeupReader = reader, wp_wakeupWriter = writer, wp_die = False\<rparr>, v1))"

definition win_wakeup :: "'w win_sys \<Rightarrow> win_poller \<Rightarrow> 'w \<Rightarrow> gerr option \<times> 'w" where
  "win_wakeup S p v =
     (if wp_wakeupWriter p = 0 then (Some ErrPollerClosed, v)
      else (None, snd (ws_WSASend S (wp_wakeupWriter p) [1] v)))"

definition win_Close :: "'w win_sys \<Rightarrow> win_poller \<Rightarrow> 'w \<Rightarrow> gerr option \<times> win_poller \<times> 'w" where
  "win_Close S p v = (let p1 = p\<lparr>wp_die := True\<rparr>; (e, v1) = win_wakeup S p1 v in (e, p1, v1))"

definition watch_set :: "socket \<Rightarrow> win_poller \<Rightarrow> win_poller" where
  "watch_set s p =
     p\<lparr>wp_pollFds := wp_pollFds p @ [\<lparr>pf_fd = s, pf_events = or POLLRDNORM POLLWRNORM, pf_revents = 0\<rparr>],
       wp_fdMap := (wp_fdMap p)(s \<mapsto> length (wp_pollFds p))\<rparr>"

definition win_Watch :: "'w win_sys \<Rightarrow> win_poller \<Rightarrow> int \<Rightarrow> 'w \<Rightarrow> gerr option \<times> win_poller \<times> 'w" where
  "win_Watch S p f v =
     (let s = word_of_int f
      in if wp_fdMap p s \<noteq> None then (None, p, v)
         else let p1 = watch_set s p in (None, p1, snd (win_wakeup S p1 v)))"

definition unwatch :: "socket \<Rightarrow> win_poller \<Rightarrow> win_poller" where
  "unwatch s p =
     (case wp_fdMap p s of
        None \<Rightarrow> p
      | Some idx \<Rightarrow>
          if idx = 0 then p
          else let lastIdx = length (wp_pollFds p) - 1;
                   p1 = (if idx \<noteq> lastIdx
                         then let fds = (wp_pollFds p)[idx := wp_pollFds p ! lastIdx]
                              in p\<lparr>wp_pollFds := fds, wp_fdMap := (wp_fdMap p)(pf_fd (fds ! idx) \<mapsto> idx)\<rparr>
                         else p)
               in p1\<lparr>wp_pollFds := take lastIdx (wp_pollFds p1), wp_fdMap := (wp_fdMap p1)(s := None)\<rparr>)"

fun win_act :: "'w win_sys \<Rightarrow> pact \<Rightarrow> win_poller \<times> 'w \<Rightarrow> win_poller \<times> 'w" where
  "win_act S (PWatch f) (p, v) = snd (win_Watch S p f v)"
| "win_act S PWakeup (p, v) = (p, snd (win_wakeup S p v))"
| "win_act S PClose (p, v) = snd (win_Close S p v)"
| "win_act S (PCpuid c) (p, v) = (p\<lparr>wp_cpuid := c\<rparr>, v)"

definition win_others :: "'w win_sys \<Rightarrow> 'w runtime \<Rightarrow> win_poller \<times> 'w \<Rightarrow> win_poller \<times> 'w" where
  "win_others S G x = (case x of (p, v) \<Rightarrow> case g_others G v of (acts, v1) \<Rightarrow> fold (win_act S) acts (p, v1))"

section \<open>Waiting for events\<close>

definition win_event :: "wsaPollFd \<Rightarrow> event" where
  "win_event pfd =
     (let e0 = \<lparr>ev_ident = sint (pf_fd pfd), ev_ev = 0\<rparr>;
          e1 = (if and (pf_revents pfd) (or (or POLLRDNORM POLLHUP) POLLERR) \<noteq> 0 then e0\<lparr>ev_ev := or (ev_ev e0) EV_READ\<rparr> else e0)
      in if and (pf_revents pfd) (or POLLWRNORM POLLERR) \<noteq> 0 then e1\<lparr>ev_ev := or (ev_ev e1) EV_WRITE\<rparr> else e1)"

text \<open>Drain the wake-up socket, 128 bytes at a time.\<close>

definition win_drain :: "'w win_sys \<Rightarrow> socket \<Rightarrow> 'w \<Rightarrow> 'w option" where
  "win_drain S s =
     go_loop (\<lambda>v. Some (case ws_WSARecv S s 128 v of
        (Inl _, v1) \<Rightarrow> Inr v1
      | (Inr (received, _), v1) \<Rightarrow> if received = 0 then Inr v1 else Inl v1))"

text \<open>
  One entry of the snapshot. Other goroutines may have changed the poll set since the snapshot was taken.
\<close>

definition win_scan1 ::
  "'w win_sys \<Rightarrow> 'w runtime \<Rightarrow> wsaPollFd \<Rightarrow> win_poller \<times> pollerEvents \<times> 'w \<Rightarrow> (win_poller \<times> pollerEvents \<times> 'w) option" where
  "win_scan1 S G pfd x =
     (case x of (p0, es, v0) \<Rightarrow>
        case win_others S G (p0, v0) of (p, v) \<Rightarrow>
          if pf_revents pfd = 0 then Some (p, es, v)
          else if pf_fd pfd = wp_wakeupReader p then map_option (\<lambda>v1. (p, es, v1)) (win_drain S (wp_wakeupReader p) v)
          else if and (pf_revents pfd) POLLNVAL \<noteq> 0 then Some (unwatch (pf_fd pfd) p, es, v)
          else if ev_ev (win_event pfd) \<noteq> 0 then Some (p, es @ [win_event pfd], v)
          else Some (p, es, v))"

fun win_scan ::
  "'w win_sys \<Rightarrow> 'w runtime \<Rightarrow> wsaPollFd list \<Rightarrow> win_poller \<times> pollerEvents \<times> 'w \<Rightarrow> (win_poller \<times> pollerEvents \<times> 'w) option" where
  "win_scan S G [] x = Some x"
| "win_scan S G (pfd # pfds) x = do { x1 \<leftarrow> win_scan1 S G pfd x; win_scan S G pfds x1 }"

definition win_Wait_exit :: "'w win_sys \<Rightarrow> win_poller \<Rightarrow> 'w \<Rightarrow> win_poller \<times> 'w" where
  "win_Wait_exit S p v =
     (let v1 = (if wp_wakeupReader p \<noteq> 0 then snd (closeSocket S (wp_wakeupReader p) v) else v);
          v2 = (if wp_wakeupWriter p \<noteq> 0 then snd (closeSocket S (wp_wakeupWriter p) v1) else v1)
      in (p\<lparr>wp_wakeupReader := 0, wp_wakeupWriter := 0\<rparr>, v2))"

text \<open>
  The variables of the loop: the poller, the batch under construction, and the events in \<open>sig\<close>, which are those of
  the last batch that was sent.
\<close>

type_synonym 'w win_loop = "win_poller \<times> pollerEvents \<times> pollerEvents \<times> 'w"

definition win_notify ::
  "'w win_sys \<Rightarrow> 'w runtime \<Rightarrow> win_poller \<Rightarrow> pollerEvents \<Rightarrow> pollerEvents \<Rightarrow> 'w \<Rightarrow> 'w win_loop + (win_poller \<times> 'w)" where
  "win_notify S G p eventSet sigEvents v =
     (if eventSet = [] then Inl (p, eventSet, sigEvents, v)
      else case win_others S G (p, v) of (p1, v1) \<Rightarrow>
           case select_die G (wp_die p1) v1 of (sent, v2) \<Rightarrow>
             if \<not> sent then Inr (win_Wait_exit S p1 v2)
             else let v3 = g_send G \<lparr>sig_events = eventSet, sig_err = None\<rparr> v2
                  in case win_others S G (p1, v3) of (p4, v4) \<Rightarrow>
                     case select_die G (wp_die p4) v4 of (fin, v5) \<Rightarrow>
                       if \<not> fin then Inr (win_Wait_exit S p4 v5) else Inl (p4, [], eventSet, v5))"

text \<open>A failed poll is reported to the watcher, unless the poller is closed.\<close>

definition win_fail ::
  "'w win_sys \<Rightarrow> 'w runtime \<Rightarrow> win_poller \<Rightarrow> pollerEvents \<Rightarrow> int \<Rightarrow> 'w \<Rightarrow> win_poller \<times> 'w" where
  "win_fail S G p sigEvents code v =
     (case win_others S G (p, v) of (p1, v1) \<Rightarrow>
      case select_die G (wp_die p1) v1 of (sent, v2) \<Rightarrow>
        win_Wait_exit S p1
          (if sent then g_send G \<lparr>sig_events = sigEvents, sig_err = Some (ErrText (''WSAPoll failed: '' @ ws_errtext S code))\<rparr> v2
           else v2))"

definition win_Wait_once ::
  "'w win_sys \<Rightarrow> 'w runtime \<Rightarrow> 'w win_loop \<Rightarrow> ('w win_loop + (win_poller \<times> 'w)) option" where
  "win_Wait_once S G x =
     (case x of (p0, eventSet, sigEvents, v0) \<Rightarrow>
        case win_others S G (p0, v0) of (pa, va) \<Rightarrow>
          if wp_die pa then Some (Inr (win_Wait_exit S pa va))
          else case win_others S G (pa, va) of (p, v) \<Rightarrow>
            if wp_pollFds p = [] then Some (Inl (p, eventSet, sigEvents, v))
            else case ws_WSAPoll S (wp_pollFds p) v of
                   (Inl code, v1) \<Rightarrow>
                     if code = WSAEINTR then Some (Inl (p, eventSet, sigEvents, v1)) else Some (Inr (win_fail S G p sigEvents code v1))
                 | (Inr (n, copy), v1) \<Rightarrow>
                     if int32 (int n) \<le> 0 then Some (Inl (p, eventSet, sigEvents, v1))
                     else let (p2, v2) = (if wp_cpuid p \<noteq> -1 then (p\<lparr>wp_cpuid := -1\<rparr>, g_setAffinity G (wp_cpuid p) v1) else (p, v1))
                          in do { (p3, eventSet3, v3) \<leftarrow> win_scan S G copy (p2, eventSet, v2); Some (win_notify S G p3 eventSet3 sigEvents v3) })"

definition win_Wait :: "'w win_sys \<Rightarrow> 'w runtime \<Rightarrow> win_poller \<Rightarrow> 'w \<Rightarrow> (win_poller \<times> 'w) option" where
  "win_Wait S G p v = go_loop (win_Wait_once S G) (p, [], [], v)"

section \<open>Reading, writing, connections\<close>

text \<open>The length of a buffer goes through 32 bits.\<close>

definition win_rawRead :: "'w win_sys \<Rightarrow> int \<Rightarrow> nat \<Rightarrow> 'w \<Rightarrow> (int \<times> errno option \<times> byte list) \<times> 'w" where
  "win_rawRead S f n v =
     (if n = 0 then ((0, None, []), v)
      else case ws_WSARecv S (word_of_int f) (of_nat n) v of
             (Inl errno, v1) \<Rightarrow> ((-1, Some (if errno = WSAEWOULDBLOCK then EAGAIN else Errno errno), []), v1)
           | (Inr (received, bs), v1) \<Rightarrow> ((uint received, None, bs), v1))"

definition win_rawWrite :: "'w win_sys \<Rightarrow> int \<Rightarrow> byte list \<Rightarrow> 'w \<Rightarrow> (int \<times> errno option) \<times> 'w" where
  "win_rawWrite S f bs v =
     (if bs = [] then ((0, None), v)
      else case ws_WSASend S (word_of_int f) (take (unat (of_nat (length bs) :: 32 word)) bs) v of
             (Inl errno, v1) \<Rightarrow> ((-1, Some (if errno = WSAEWOULDBLOCK then EAGAIN else Errno errno)), v1)
           | (Inr sent, v1) \<Rightarrow> ((uint sent, None), v1))"

text \<open>The methods of a connection, as on Unix.\<close>

record 'w win_conn =
  wc_raw :: "net_conn \<Rightarrow> bool"
  wc_SyscallConn :: "net_conn \<Rightarrow> 'w \<Rightarrow> gerr option \<times> 'w"
  wc_Control :: "net_conn \<Rightarrow> 'w \<Rightarrow> (socket option \<times> gerr option) \<times> 'w"

text \<open>The function that \<open>dupconn\<close> passes to \<open>Control\<close>: the handle and the error.\<close>

definition win_dup :: "'w win_sys \<Rightarrow> socket \<Rightarrow> 'w \<Rightarrow> (socket \<times> gerr option) \<times> 'w" where
  "win_dup S f v =
     (case duplicateSocket S f v of
        (Inl e, v1) \<Rightarrow> ((0, Some e), v1)
      | (Inr h, v1) \<Rightarrow>
          (case setNonBlocking S h v1 of
             (Some e, v2) \<Rightarrow> ((0, Some e), snd (closeSocket S h v2))
           | (None, v2) \<Rightarrow> ((h, None), v2)))"

definition win_dupconn :: "'w win_sys \<Rightarrow> 'w win_conn \<Rightarrow> net_conn \<Rightarrow> 'w \<Rightarrow> (int \<times> gerr option) \<times> 'w" where
  "win_dupconn S K conn v =
     (if \<not> wc_raw K conn then ((-1, Some ErrUnsupported), v)
      else let (err, v1) = wc_SyscallConn K conn v
           in if err \<noteq> None then ((-1, Some ErrUnsupported), v1)
              else let ((arg, ec), v2) = wc_Control K conn v1;
                       ((dupHandle, dupErr), v3) = (case arg of None \<Rightarrow> ((0, None), v2) | Some f \<Rightarrow> win_dup S f v2)
                   in if ec \<noteq> None then ((-1, ec), v3)
                      else if dupErr \<noteq> None then ((-1, dupErr), v3)
                      else ((sint dupHandle, None), v3))"

definition win_closeFd :: "'w win_sys \<Rightarrow> int \<Rightarrow> 'w \<Rightarrow> gerr option \<times> 'w" where
  "win_closeFd S f v = closeSocket S (word_of_int f) v"

text \<open>
  \<open>setAffinity\<close> of \<open>src/affinity_windows.go\<close>: \<open>mask_at\<close> is the address of the local variable, which
  is what the code passes where the procedure expects the mask.
\<close>

record 'w win_cpu =
  wc_LockOSThread :: "'w \<Rightarrow> 'w"
  wc_GetCurrentThread :: "'w \<Rightarrow> 64 word \<times> 'w"
  wc_mask_at :: "'w \<Rightarrow> 64 word"
  wc_SetThreadAffinityMask :: "64 word \<Rightarrow> 64 word \<Rightarrow> 'w \<Rightarrow> 'w"

definition win_setAffinity :: "'w win_cpu \<Rightarrow> int \<Rightarrow> 'w \<Rightarrow> 'w" where
  "win_setAffinity C cpuId v =
     (let v1 = wc_LockOSThread C v;
          (thread, v2) = wc_GetCurrentThread C v1;
          mask = push_bit (unat (word_of_int cpuId :: 64 word)) (1 :: 64 word)
      in wc_SetThreadAffinityMask C thread (wc_mask_at C v2) v2)"

section \<open>The poll set is a set\<close>

text \<open>
  The contract of a poll set: sockets are added and removed, and one of them, the root, stays. Its client
  sees a set after any sequence of operations.
\<close>

locale socket_set =
  fixes invar :: "'p \<Rightarrow> bool" and members :: "'p \<Rightarrow> socket set" and root :: "'p \<Rightarrow> socket"
    and add :: "socket \<Rightarrow> 'p \<Rightarrow> 'p" and remove :: "socket \<Rightarrow> 'p \<Rightarrow> 'p"
  assumes root_in: "invar p \<Longrightarrow> root p \<in> members p"
    and add_invar: "invar p \<Longrightarrow> invar (add s p)"
    and add_members: "invar p \<Longrightarrow> members (add s p) = insert s (members p)"
    and add_root: "invar p \<Longrightarrow> root (add s p) = root p"
    and remove_invar: "invar p \<Longrightarrow> invar (remove s p)"
    and remove_members: "invar p \<Longrightarrow> members (remove s p) = members p - ({s} - {root p})"
    and remove_root: "invar p \<Longrightarrow> root (remove s p) = root p"
begin

text \<open>A sequence of operations: \<open>Inl s\<close> adds, \<open>Inr s\<close> removes.\<close>

lemma run_refines:
  "invar p \<Longrightarrow> invar (fold (case_sum add remove) ops p) \<and> root (fold (case_sum add remove) ops p) = root p
     \<and> members (fold (case_sum add remove) ops p) = fold (case_sum insert (\<lambda>s A. A - ({s} - {root p}))) ops (members p)"
proof (induction ops arbitrary: p)
  case (Cons x ops)
  let ?p = "case_sum add remove x p"
  have "invar ?p" "root ?p = root p"
    using Cons.prems by (auto simp: add_invar remove_invar add_root remove_root split: sum.splits)
  with Cons.IH [of ?p] Cons.prems show ?case by (cases x) (simp_all add: add_members remove_members)
qed simp

end

definition poll_ok :: "win_poller \<Rightarrow> bool" where
  "poll_ok p \<longleftrightarrow> wp_pollFds p \<noteq> [] \<and> (\<forall>s i. wp_fdMap p s = Some i \<longleftrightarrow> i < length (wp_pollFds p) \<and> pf_fd (wp_pollFds p ! i) = s)"

definition polled :: "win_poller \<Rightarrow> socket set" where
  "polled p = pf_fd ` set (wp_pollFds p)"

definition poll_root :: "win_poller \<Rightarrow> socket" where
  "poll_root p = pf_fd (wp_pollFds p ! 0)"

text \<open>The effect of \<open>Watch\<close> on the poll set.\<close>

definition win_add :: "socket \<Rightarrow> win_poller \<Rightarrow> win_poller" where
  "win_add s p = (if wp_fdMap p s \<noteq> None then p else watch_set s p)"

lemma win_Watch_add: "fst (snd (win_Watch S p f v)) = win_add (word_of_int f) p"
  by (simp add: win_Watch_def win_add_def Let_def)

lemma polled_iff:
  assumes "poll_ok p" shows "s \<in> polled p \<longleftrightarrow> wp_fdMap p s \<noteq> None"
proof -
  have "s \<in> polled p \<longleftrightarrow> (\<exists>i < length (wp_pollFds p). pf_fd (wp_pollFds p ! i) = s)"
    unfolding polled_def by (metis (no_types, lifting) image_iff in_set_conv_nth)
  also have "\<dots> \<longleftrightarrow> (\<exists>i. wp_fdMap p s = Some i)" using assms by (simp add: poll_ok_def)
  finally show ?thesis by simp
qed

lemma poll_inj:
  "poll_ok p \<Longrightarrow> i < length (wp_pollFds p) \<Longrightarrow> j < length (wp_pollFds p) \<Longrightarrow>
   pf_fd (wp_pollFds p ! i) = pf_fd (wp_pollFds p ! j) \<Longrightarrow> i = j"
  unfolding poll_ok_def by (metis option.inject)

lemma win_add_ok:
  assumes "poll_ok p"
  shows "poll_ok (win_add s p)" "polled (win_add s p) = insert s (polled p)" "poll_root (win_add s p) = poll_root p"
proof -
  show "polled (win_add s p) = insert s (polled p)"
    using polled_iff [OF assms, of s] by (auto simp: win_add_def watch_set_def polled_def)
  show "poll_root (win_add s p) = poll_root p"
    using assms by (simp add: win_add_def watch_set_def poll_root_def nth_append poll_ok_def)
  show "poll_ok (win_add s p)"
  proof (cases "wp_fdMap p s")
    case None
    with assms have "pf_fd (wp_pollFds p ! i) \<noteq> s" if "i < length (wp_pollFds p)" for i
      using that by (metis option.distinct(1) poll_ok_def)
    with assms None show ?thesis
      by (auto simp: win_add_def watch_set_def poll_ok_def nth_append less_Suc_eq)
  qed (use assms in \<open>simp add: win_add_def\<close>)
qed

text \<open>Removal: the last entry moves to the position of the removed one.\<close>

lemma unwatch_eq:
  assumes ok: "poll_ok p" and i: "wp_fdMap p s = Some idx" "idx \<noteq> 0"
  shows "wp_pollFds (unwatch s p) = take (length (wp_pollFds p) - 1) ((wp_pollFds p)[idx := last (wp_pollFds p)])"
    and "wp_fdMap (unwatch s p) = (\<lambda>t. if t = s then None else if t = pf_fd (last (wp_pollFds p)) then Some idx else wp_fdMap p t)"
proof -
  let ?L = "wp_pollFds p" and ?n = "length (wp_pollFds p) - 1"
  have b: "idx < length ?L" "pf_fd (?L ! idx) = s" using ok i by (auto simp: poll_ok_def)
  then have l: "last ?L = ?L ! ?n" by (metis last_conv_nth length_0_conv not_less0)
  show "wp_pollFds (unwatch s p) = take ?n (?L[idx := last ?L])"
    using i b l by (auto simp: unwatch_def Let_def list_update_id)
  show "wp_fdMap (unwatch s p) = (\<lambda>t. if t = s then None else if t = pf_fd (last ?L) then Some idx else wp_fdMap p t)"
    using i b l by (auto simp: unwatch_def Let_def fun_eq_iff)
qed

lemma unwatch_ok:
  assumes ok: "poll_ok p" and i: "wp_fdMap p s = Some idx" "idx \<noteq> 0"
  shows "poll_ok (unwatch s p)" "poll_root (unwatch s p) = poll_root p"
proof -
  let ?L = "wp_pollFds p" and ?n = "length (wp_pollFds p) - 1"
  note u = unwatch_eq [OF assms]
  have b: "idx < length ?L" "pf_fd (?L ! idx) = s" using ok i by (auto simp: poll_ok_def)
  moreover have "?L \<noteq> []" using ok by (simp add: poll_ok_def)
  ultimately have l: "last ?L = ?L ! ?n" "idx \<le> ?n" "0 < ?n" using i(2) by (auto simp: last_conv_nth)
  have nth: "wp_pollFds (unwatch s p) ! j = (if j = idx then ?L ! ?n else ?L ! j)" if "j < ?n" for j
    using that b l by (simp add: u nth_list_update)
  have len: "length (wp_pollFds (unwatch s p)) = ?n" by (simp add: u)
  show "poll_root (unwatch s p) = poll_root p" using nth [OF l(3)] i(2) by (simp add: poll_root_def)
  have "wp_fdMap (unwatch s p) t = Some j \<longleftrightarrow> j < ?n \<and> pf_fd (wp_pollFds (unwatch s p) ! j) = t" for t j
  proof -
    have m: "wp_fdMap p t = Some j \<longleftrightarrow> j < length ?L \<and> pf_fd (?L ! j) = t" using ok by (simp add: poll_ok_def)
    have inj: "pf_fd (?L ! j) = pf_fd (?L ! k) \<longleftrightarrow> j = k" if "j < length ?L" "k < length ?L" for j k
      using poll_inj [OF ok] that by blast
    have n: "?n < length ?L" using l by simp
    consider "j < ?n" "j = idx" | "j < ?n" "j \<noteq> idx" | "\<not> j < ?n" by blast
    then show ?thesis
    proof cases
      case 1
      then show ?thesis using nth [of j] inj [OF b(1) n] b(2) m l(1) by (auto simp: u(2))
    next
      case 2
      then have "j < length ?L" by simp
      with 2 show ?thesis using nth [of j] inj [OF _ n, of j] inj [OF _ b(1), of j] b(2) m l(1) by (auto simp: u(2))
    next
      case 3
      have "wp_fdMap (unwatch s p) t \<noteq> Some j"
      proof
        assume "wp_fdMap (unwatch s p) t = Some j"
        then consider "t \<noteq> s" "t = pf_fd (?L ! ?n)" "j = idx" | "t \<noteq> pf_fd (?L ! ?n)" "wp_fdMap p t = Some j"
          unfolding u(2) l(1) by (metis option.distinct(1) option.inject)
        then show False
        proof cases
          case 1
          with 3 l(2) have "idx = ?n" by simp
          with 1 b(2) show False by simp
        next
          case 2
          then have "j < length ?L" using m by blast
          with 3 have "j = ?n" by linarith
          with 2 m show False by simp
        qed
      qed
      with 3 show ?thesis by simp
    qed
  qed
  with len l(3) show "poll_ok (unwatch s p)" by (auto simp: poll_ok_def)
qed

lemma unwatch_members:
  assumes ok: "poll_ok p"
  shows "polled (unwatch s p) = polled p - ({s} - {poll_root p})"
proof (cases "wp_fdMap p s")
  case None
  with polled_iff [OF ok, of s] show ?thesis by (auto simp: unwatch_def)
next
  case (Some idx)
  show ?thesis
  proof (cases "idx = 0")
    case True
    with Some ok have "poll_root p = s" by (auto simp: poll_ok_def poll_root_def)
    with True Some show ?thesis by (simp add: unwatch_def)
  next
    case False
    note u = unwatch_eq(2) [OF ok Some False] and ok' = unwatch_ok(1) [OF ok Some False]
    have "poll_root p \<noteq> s" using poll_inj [OF ok, of 0 idx] ok Some False by (auto simp: poll_ok_def poll_root_def)
    moreover have "pf_fd (last (wp_pollFds p)) \<in> polled p" using ok by (auto simp: polled_def poll_ok_def)
    ultimately show ?thesis using polled_iff [OF ok] polled_iff [OF ok'] by (auto simp: u split: if_splits)
  qed
qed

lemma unwatch_cases: "poll_ok p \<Longrightarrow> poll_ok (unwatch s p)" "poll_ok p \<Longrightarrow> poll_root (unwatch s p) = poll_root p"
  using unwatch_ok by (cases "wp_fdMap p s"; fastforce simp: unwatch_def)+

lemma root_polled: "poll_ok p \<Longrightarrow> poll_root p \<in> polled p"
  by (auto simp: poll_ok_def poll_root_def polled_def)

interpretation win_set: socket_set poll_ok polled poll_root win_add unwatch
  by unfold_locales (simp_all add: root_polled win_add_ok unwatch_members unwatch_cases)

text \<open>
  C14. The poll set implements a set: after opening the poller and any sequence of registrations and
  removals, the array holds exactly the sockets of the set obtained by the same insertions and deletions, each
  once and at the position the map says, and the wake-up socket, at position 0, is never removed.
\<close>

theorem win_poll_set_refines:
  assumes "win_openPoll S N v = (Inr p, v1)"
  shows "poll_ok (fold (case_sum win_add unwatch) ops p) \<and> poll_root (fold (case_sum win_add unwatch) ops p) = wp_wakeupReader p
    \<and> polled (fold (case_sum win_add unwatch) ops p)
      = fold (case_sum insert (\<lambda>s A. A - ({s} - {wp_wakeupReader p}))) ops {wp_wakeupReader p}"
proof -
  have "poll_ok p" "poll_root p = wp_wakeupReader p" "polled p = {wp_wakeupReader p}"
    using assms by (auto simp: win_openPoll_def poll_ok_def poll_root_def polled_def split: prod.splits sum.splits if_splits)
  with win_set.run_refines [OF this(1), of ops] show ?thesis by simp
qed

section \<open>Stale entries\<close>

text \<open>
  C36. A flaw of the code: a live socket can drop out of the poll set. The poller has found that a handle is
  invalid; before it removes the entry, the system gives the same handle to a new connection, whose
  \<open>Watch\<close> finds the entry and reports success; the removal then takes away the registration of the new
  connection, whose events are never seen.
\<close>

theorem win_stale_entry_drops_live_socket:
  assumes "poll_ok p" and "word_of_int f \<in> polled p" and "word_of_int f \<noteq> poll_root p" and "word_of_int f \<noteq> wp_wakeupReader p"
    and "g_others G v = ([PWatch f], v1)" and "pf_fd pfd = word_of_int f" and "bit (pf_revents pfd) 2"
  shows "fst (win_Watch S p f v1) = None
    \<and> (\<exists>p'. win_scan1 S G pfd (p, es, v) = Some (p', es, v1) \<and> word_of_int f \<notin> polled p')"
proof -
  have m: "wp_fdMap p (word_of_int f) \<noteq> None" using assms(1,2) polled_iff by blast
  then have w: "win_Watch S p f v1 = (None, p, v1)" by (simp add: win_Watch_def Let_def)
  have r: "and (pf_revents pfd) POLLNVAL \<noteq> 0" using assms(7) and_bit [of "pf_revents pfd" 2] by (simp add: POLLNVAL_def)
  then have "pf_revents pfd \<noteq> 0" by auto
  with w r assms(4-6) have "win_scan1 S G pfd (p, es, v) = Some (unwatch (word_of_int f) p, es, v1)"
    by (simp add: win_scan1_def win_others_def)
  moreover have "word_of_int f \<notin> polled (unwatch (word_of_int f) p)"
    using unwatch_members [OF assms(1)] assms(3) by simp
  ultimately show ?thesis using w by simp
qed

section \<open>The wake-up pair\<close>

text \<open>
  What the system does with the set of open sockets. \<open>WSASocketW\<close> returns \<open>INVALID_SOCKET\<close> or a socket that was not
  open; any other value is a valid handle, 0 too. The calls that neither create nor close a socket leave the set alone.
\<close>

definition win_fds :: "'w win_sys \<Rightarrow> 'w win_net \<Rightarrow> ('w \<Rightarrow> socket set) \<Rightarrow> bool" where
  "win_fds S N opened \<longleftrightarrow>
     (\<forall>i v. case ws_WSASocketW S i v of ((r, e), v') \<Rightarrow>
        if r = INVALID_SOCKET then opened v' = opened v else r \<notin> opened v \<and> opened v' = insert r (opened v))
     \<and> (\<forall>f v. opened (snd (ws_WSADuplicateSocketW S f v)) = opened v)
     \<and> (\<forall>f v. opened (snd (ws_ioctlsocket S f v)) = opened v)
     \<and> (\<forall>v. opened (snd (n_listen N v)) = opened v) \<and> (\<forall>v. opened (snd (n_accept N v)) = opened v)
     \<and> (\<forall>v. opened (snd (n_dial N v)) = opened v) \<and> (\<forall>v. opened (snd (n_acceptedRaw N v)) = opened v)
     \<and> (\<forall>v. opened (snd (n_dialedRaw N v)) = opened v) \<and> (\<forall>v. opened (n_closeAccepted N v) = opened v)
     \<and> (\<forall>v. opened (n_closeDialed N v) = opened v) \<and> (\<forall>v. opened (n_closeListener N v) = opened v)"

text \<open>
  \<open>closesocket\<close> closes the socket when it reports success; when it reports an error the socket may stay open.
  \<open>refused v\<close> are the sockets for which it has reported an error so far.
\<close>

definition win_close_ok :: "'w win_sys \<Rightarrow> 'w win_net \<Rightarrow> ('w \<Rightarrow> socket set) \<Rightarrow> ('w \<Rightarrow> socket set) \<Rightarrow> bool" where
  "win_close_ok S N opened refused \<longleftrightarrow>
     (\<forall>f v. case ws_closesocket S f v of
        (None, v') \<Rightarrow> opened v' = opened v - {f} \<and> refused v' = refused v
      | (Some e, v') \<Rightarrow> opened v - {f} \<subseteq> opened v' \<and> opened v' \<subseteq> opened v \<and> refused v' = insert f (refused v))
     \<and> (\<forall>v. refused (n_closeListener N v) = refused v)"

lemma closeSocket_effect:
  assumes "win_close_ok S N opened refused"
  shows "opened v - {f} \<subseteq> opened (snd (closeSocket S f v))" "opened (snd (closeSocket S f v)) \<subseteq> opened v"
    "f \<in> opened (snd (closeSocket S f v)) \<Longrightarrow> f \<in> refused (snd (closeSocket S f v))"
    "refused v \<subseteq> refused (snd (closeSocket S f v))"
proof -
  obtain r v' where c: "ws_closesocket S f v = (r, v')" by fastforce
  have "case ws_closesocket S f v of (None, v') \<Rightarrow> opened v' = opened v - {f} \<and> refused v' = refused v
      | (Some e, v') \<Rightarrow> opened v - {f} \<subseteq> opened v' \<and> opened v' \<subseteq> opened v \<and> refused v' = insert f (refused v)"
    using assms by (simp add: win_close_ok_def)
  with c show "opened v - {f} \<subseteq> opened (snd (closeSocket S f v))" "opened (snd (closeSocket S f v)) \<subseteq> opened v"
    "f \<in> opened (snd (closeSocket S f v)) \<Longrightarrow> f \<in> refused (snd (closeSocket S f v))"
    "refused v \<subseteq> refused (snd (closeSocket S f v))"
    by (cases r; auto simp: closeSocket_def)+
qed



lemma duplicateSocket_opened:
  assumes "win_fds S N opened" and "duplicateSocket S f v = (r, v')"
  shows "case r of Inl e \<Rightarrow> opened v' = opened v | Inr s \<Rightarrow> s \<notin> opened v \<and> opened v' = insert s (opened v)"
proof -
  obtain d v1 where d: "ws_WSADuplicateSocketW S f v = (d, v1)" by fastforce
  have "opened (snd (ws_WSADuplicateSocketW S f v)) = opened v" using assms(1) by (simp add: win_fds_def)
  then have o: "opened v1 = opened v" by (simp add: d)
  show ?thesis
  proof (cases d)
    case (Inl e)
    with assms(2) d o show ?thesis by (auto simp: duplicateSocket_def)
  next
    case (Inr i)
    obtain q e v2 where w: "ws_WSASocketW S i v1 = ((q, e), v2)" by (metis surj_pair)
    have "case ws_WSASocketW S i v1 of ((r, e), v') \<Rightarrow>
        if r = INVALID_SOCKET then opened v' = opened v1 else r \<notin> opened v1 \<and> opened v' = insert r (opened v1)"
      by (rule assms(1) [unfolded win_fds_def, THEN conjunct1, THEN spec, THEN spec])
    with assms(2) d o w Inr show ?thesis by (auto simp: duplicateSocket_def split: if_splits)
  qed
qed

text \<open>The value 0 stands for no socket, but may also be one.\<close>

lemma raw_duplicate_opened:
  assumes "win_fds S N opened" and "raw_duplicate S raw v = (s, v')"
  shows "opened v \<subseteq> opened v'" "opened v' \<subseteq> insert s (opened v)" "s \<noteq> 0 \<Longrightarrow> s \<notin> opened v \<and> opened v' = insert s (opened v)"
proof -
  have "opened v \<subseteq> opened v' \<and> opened v' \<subseteq> insert s (opened v) \<and> (s \<noteq> 0 \<longrightarrow> s \<notin> opened v \<and> opened v' = insert s (opened v))"
  proof (cases raw)
    case None
    with assms(2) show ?thesis by (auto simp: raw_duplicate_def)
  next
    case (Some f)
    obtain r v1 where d: "duplicateSocket S f v = (r, v1)" by fastforce
    with duplicateSocket_opened [OF assms(1) d] assms(2) Some show ?thesis
      by (cases r) (auto simp: raw_duplicate_def)
  qed
  then show "opened v \<subseteq> opened v'" "opened v' \<subseteq> insert s (opened v)" "s \<noteq> 0 \<Longrightarrow> s \<notin> opened v \<and> opened v' = insert s (opened v)"
    by blast+
qed



text \<open>
  C38. A flaw of the code: a wake-up socket with the handle 0 is lost. Winsock may return any handle but
  \<open>INVALID_SOCKET\<close>; when the duplicate of the accepted connection gets the handle 0, \<open>openPoll\<close> takes it for a failure,
  closes the other end and returns an error, and the socket 0 stays open with no reference to it.
\<close>

theorem win_openPoll_leaks_handle_0:
  assumes "win_fds S N opened" and "win_close_ok S N opened refused"
    and "n_listen N v = (None, v1)" and "n_dial N v1 = (None, v2)" and "n_accept N v2 = (None, v3)"
    and "n_acceptedRaw N v3 = (Some a, v4)" and "ws_WSADuplicateSocketW S a v4 = (Inr i, v5)" and "ws_WSASocketW S i v5 = ((0, e), v6)"
  shows "\<exists>v'. win_openPoll S N v = (Inl (ErrText ''failed to create socket pair''), v') \<and> 0 \<in> opened v' \<and> 0 \<notin> opened v"
proof -
  note w = assms(1)
  have net: "opened (snd (n_listen N v)) = opened v" "opened (snd (n_accept N v)) = opened v" "opened (snd (n_dial N v)) = opened v"
    "opened (snd (n_acceptedRaw N v)) = opened v" "opened (snd (n_dialedRaw N v)) = opened v"
    "opened (n_closeAccepted N v) = opened v" "opened (n_closeDialed N v) = opened v" "opened (n_closeListener N v) = opened v" for v
    using w by (simp_all add: win_fds_def)
  have "(0 :: socket) \<noteq> INVALID_SOCKET" by (simp add: INVALID_SOCKET_def)
  then have d: "duplicateSocket S a v4 = (Inr 0, v6)" using assms(7,8) by (simp add: duplicateSocket_def)
  have "0 \<notin> opened v4" and o6: "0 \<in> opened v6" using duplicateSocket_opened [OF w d] by simp_all
  moreover have "opened v4 = opened v" using net(1) [of v] net(3) [of v1] net(2) [of v2] net(4) [of v3] by (simp add: assms(3-6))
  moreover obtain draw v7 where s7: "n_dialedRaw N (n_closeAccepted N v6) = (draw, v7)" by fastforce
  obtain q v8 where s8: "raw_duplicate S draw v7 = (q, v8)" by fastforce
  let ?v9 = "n_closeDialed N v8"
  have "0 \<in> opened ?v9" using o6 net(5) [of "n_closeAccepted N v6"] raw_duplicate_opened(1) [OF w s8] by (auto simp: net s7)
  then have "0 \<in> opened (if q \<noteq> 0 then snd (closeSocket S q ?v9) else ?v9)"
    using closeSocket_effect(1) [OF assms(2), where v = "?v9" and f = q] by auto
  moreover have "createSocketPair S N v = (Inl (ErrText ''failed to create socket pair''),
      n_closeListener N (if q \<noteq> 0 then snd (closeSocket S q ?v9) else ?v9))"
    using assms(3-6) d s7 s8 by (simp add: createSocketPair_def raw_duplicate_def finish_pair_def)
  ultimately show ?thesis by (simp add: win_openPoll_def net)
qed

section \<open>Example\<close>

text \<open>A system that hands out the sockets \<open>a\<close> and \<open>b\<close>.\<close>

definition win_system :: "socket \<Rightarrow> socket \<Rightarrow> socket list win_sys" where
  "win_system a b =
     \<lparr>ws_WSAPoll = (\<lambda>fds v. (Inr (0, fds), v)),
      ws_WSARecv = (\<lambda>s n v. (Inl 10035, v)),
      ws_WSASend = (\<lambda>s bs v. (Inr 1, v)),
      ws_closesocket = (\<lambda>s fs. (None, removeAll s fs)),
      ws_WSADuplicateSocketW = (\<lambda>s v. (Inr 0, v)),
      ws_WSASocketW = (\<lambda>i fs. if a \<notin> set fs then ((a, 0), a # fs) else if b \<notin> set fs then ((b, 0), b # fs)
         else ((INVALID_SOCKET, 10024), fs)),
      ws_ioctlsocket = (\<lambda>s v. (None, v)),
      ws_errtext = (\<lambda>c. [])\<rparr>"

abbreviation win_sample :: "socket list win_sys" where
  "win_sample \<equiv> win_system 1 2"

definition win_sample_net :: "socket list win_net" where
  "win_sample_net =
     \<lparr>n_listen = (\<lambda>v. (None, v)), n_accept = (\<lambda>v. (None, v)), n_dial = (\<lambda>v. (None, v)),
      n_acceptedRaw = (\<lambda>v. (Some 90, v)), n_dialedRaw = (\<lambda>v. (Some 91, v)),
      n_closeAccepted = (\<lambda>v. v), n_closeDialed = (\<lambda>v. v), n_closeListener = (\<lambda>v. v)\<rparr>"

lemma win_system_ok:
  assumes "a \<noteq> INVALID_SOCKET" and "b \<noteq> INVALID_SOCKET"
  shows "win_fds (win_system a b) win_sample_net set" "win_close_ok (win_system a b) win_sample_net set (\<lambda>_. {})"
  using assms unfolding win_fds_def win_close_ok_def by (auto simp: win_system_def win_sample_net_def)

lemma small_valid: "(0 :: socket) \<noteq> INVALID_SOCKET" "(1 :: socket) \<noteq> INVALID_SOCKET" "(2 :: socket) \<noteq> INVALID_SOCKET"
  by (simp_all add: INVALID_SOCKET_def)

lemma win_sample_open:
  "win_openPoll win_sample win_sample_net [] =
     (Inr \<lparr>wp_cpuid = -1, wp_pollFds = [\<lparr>pf_fd = 1, pf_events = POLLRDNORM, pf_revents = 0\<rparr>], wp_fdMap = [1 \<mapsto> 0],
        wp_wakeupReader = 1, wp_wakeupWriter = 2, wp_die = False\<rparr>, [2, 1])"
  by (simp add: win_openPoll_def createSocketPair_def win_system_def win_sample_net_def raw_duplicate_def duplicateSocket_def
      finish_pair_def setNonBlocking_def INVALID_SOCKET_def)


theorem win_openPoll_leaks_handle_0_witness:
  "\<exists>v'. win_openPoll (win_system 0 1) win_sample_net [] = (Inl (ErrText ''failed to create socket pair''), v') \<and> 0 \<in> set v'"
proof -
  have s: "n_listen win_sample_net [] = (None, [])" "n_dial win_sample_net [] = (None, [])" "n_accept win_sample_net [] = (None, [])"
    "n_acceptedRaw win_sample_net [] = (Some 90, [])" "ws_WSADuplicateSocketW (win_system 0 1) 90 [] = (Inr 0, [])"
    "ws_WSASocketW (win_system 0 1) 0 [] = ((0, 0), [0])"
    by (simp_all add: win_system_def win_sample_net_def)
  from win_openPoll_leaks_handle_0 [OF win_system_ok [OF small_valid(1,2)] s] show ?thesis by blast
qed

theorem win_poll_set_refines_witness:
  "\<exists>p v1. win_openPoll win_sample win_sample_net [] = (Inr p, v1)
     \<and> polled (fold (case_sum win_add unwatch) [Inl 7, Inl 8, Inr 7, Inr 1] p) = {1, 8}"
proof -
  have "fold (case_sum insert (\<lambda>s A. A - ({s} - {1}))) [Inl 7, Inl 8, Inr 7, Inr 1] {1 :: socket} = {1, 8}" by auto
  with win_poll_set_refines [OF win_sample_open, of "[Inl 7, Inl 8, Inr 7, Inr 1]"] win_sample_open show ?thesis by simp
qed

definition watching_7 :: win_poller where
  "watching_7 = \<lparr>wp_cpuid = -1, wp_pollFds = [\<lparr>pf_fd = 1, pf_events = POLLRDNORM, pf_revents = 0\<rparr>, \<lparr>pf_fd = 7, pf_events = 0x110, pf_revents = 0\<rparr>],
     wp_fdMap = [1 \<mapsto> 0, 7 \<mapsto> 1], wp_wakeupReader = 1, wp_wakeupWriter = 2, wp_die = False\<rparr>"

definition reuse_runtime :: "socket list runtime" where
  "reuse_runtime = \<lparr>g_others = (\<lambda>v. ([PWatch 7], v)), g_select = (\<lambda>v. (True, v)), g_send = (\<lambda>s v. v), g_setAffinity = (\<lambda>c v. v)\<rparr>"

theorem win_stale_entry_drops_live_socket_witness:
  "fst (win_Watch win_sample watching_7 7 []) = None
   \<and> (\<exists>p'. win_scan1 win_sample reuse_runtime \<lparr>pf_fd = 7, pf_events = 0x110, pf_revents = 4\<rparr> (watching_7, [], [])
        = Some (p', [], []) \<and> 7 \<notin> polled p')"
proof -
  have p: "poll_ok watching_7"
    by (auto simp: poll_ok_def watching_7_def less_Suc_eq nth_Cons split: if_splits nat.splits)
  have "(word_of_int 7 :: socket) \<in> polled watching_7" "(word_of_int 7 :: socket) \<noteq> poll_root watching_7"
    "(word_of_int 7 :: socket) \<noteq> wp_wakeupReader watching_7" "g_others reuse_runtime [] = ([PWatch 7], [])"
    "pf_fd \<lparr>pf_fd = 7, pf_events = 0x110, pf_revents = 4\<rparr> = word_of_int 7"
    "bit (pf_revents \<lparr>pf_fd = 7, pf_events = 0x110, pf_revents = 4\<rparr>) 2"
    by (simp_all add: polled_def poll_root_def watching_7_def reuse_runtime_def)
  from win_stale_entry_drops_live_socket [OF p this, of win_sample "[]"] show ?thesis by simp
qed

end
