(* ===== verification/Platforms.thy ===== *)
theory Platforms
  imports Poller_Linux Poller_Bsd Poller_Windows Sample_World
begin

text \<open>
  The watcher on its platforms: the environment of the watcher (its calls of \<open>openPoll\<close>,
  \<open>Watch\<close>, \<open>wakeup\<close>, \<open>dupconn\<close>, \<open>rawRead\<close> and so on) is built from the platform files,
  and shown to satisfy what the theorems about the watcher assume of it. What is left to the system is
  stated about system calls.
\<close>

section \<open>Building an environment\<close>









section \<open>The assumptions of the watcher hold\<close>
















section \<open>A failing poller\<close>

text \<open>
  C39. A flaw of the code: on Linux a failing \<open>epoll_wait\<close> is not reported. \<open>Wait\<close> closes its two
  descriptors and returns; no signal is sent, so the watcher goes on accepting requests whose readiness it
  will never learn of. (On Windows the failure is sent to the watcher, which closes.)
\<close>

theorem linux_poll_failure_is_silent:
  assumes "linux_others S G (p0, v0) = (pa, va)" and "\<not> lp_die pa" and "linux_others S G (pa, va) = (p, v)"
    and "l_EpollWait S (lp_pfd p) maxEvents v = Some (Inl err, v1)" and "err \<noteq> EINTR"
    and "win_others W G (q0, u0) = (qa, ua)" and "\<not> wp_die qa" and "win_others W G (qa, ua) = (q, u)" and "wp_pollFds q \<noteq> []"
    and "ws_WSAPoll W (wp_pollFds q) u = (Inl code, u1)" and "code \<noteq> 10004" and "win_others W G (q, u1) = (q2, u2)" and "\<not> wp_die q2"
  shows "linux_Wait S G p0 v0 = Some (p\<lparr>lp_pfd := -1, lp_efd := -1\<rparr>, l_Close S (lp_efd p) (l_Close S (lp_pfd p) v1))
    \<and> win_Wait W G q0 u0 = Some (win_Wait_exit W q2
        (g_send G \<lparr>sig_events = [], sig_err = Some (ErrText (''WSAPoll failed: '' @ ws_errtext W code))\<rparr> u2))"
proof
  have "linux_Wait_once S G (p0, [], v0) = Some (Inr (linux_Wait_exit S p v1))"
    using assms(1-5) by (simp add: linux_Wait_once_def)
  then show "linux_Wait S G p0 v0 = Some (p\<lparr>lp_pfd := -1, lp_efd := -1\<rparr>, l_Close S (lp_efd p) (l_Close S (lp_pfd p) v1))"
    unfolding linux_Wait_def linux_Wait_loop_def by (subst go_loop.simps) (simp add: linux_Wait_exit_def)
  have "win_Wait_once W G (q0, [], [], u0) = Some (Inr (win_Wait_exit W q2
      (g_send G \<lparr>sig_events = [], sig_err = Some (ErrText (''WSAPoll failed: '' @ ws_errtext W code))\<rparr> u2)))"
    using assms(6-13) by (simp add: win_Wait_once_def win_fail_def select_die_def WSAEINTR_def)
  then show "win_Wait W G q0 u0 = Some (win_Wait_exit W q2
        (g_send G \<lparr>sig_events = [], sig_err = Some (ErrText (''WSAPoll failed: '' @ ws_errtext W code))\<rparr> u2))"
    unfolding win_Wait_def by (subst go_loop.simps) simp
qed

section \<open>CPU numbers and descriptors on 32 bits\<close>

lemma int32_exact: "- (2 ^ 31) \<le> n \<Longrightarrow> n < 2 ^ 31 \<Longrightarrow> int32 n = n"
  unfolding int32_def sint_sbintrunc' by (simp add: signed_take_bit_int_eq_self)

text \<open>
  C40. The conversions to 32 bits lose nothing: \<open>SetPollerAffinity\<close> refuses a number outside the CPUs of
  the machine with no effect, stores any other unchanged and, when the poller cannot be woken, withdraws it;
  and on Linux a watched descriptor comes back in the events as itself.
\<close>

theorem conversions_to_int32_are_exact:
  assumes "e_NumCPU E \<le> 2 ^ 31" and "0 \<le> f" and "f < 2 ^ 31"
  shows "SetPollerAffinity E c w =
      (if c < 0 \<or> e_NumCPU E \<le> c then (Some ErrCPUID, w)
       else case e_wakeup E (e_set_cpuid E c (os w)) of
              (None, v) \<Rightarrow> (None, w\<lparr>os := v\<rparr>)
            | (Some e, v) \<Rightarrow> (Some e, w\<lparr>os := e_set_cpuid E (-1) v\<rparr>))
    \<and> (\<exists>ev. linux_Watch S p f u = (case l_EpollCtlAdd S (lp_pfd p) f ev u of (e, u') \<Rightarrow> (map_option ErrSys e, u'))
         \<and> ev_ident (linux_event ev) = f \<and> bit (ee_Events ev) 31)"
proof
  have "int32 c = c" if "\<not> c < 0" "\<not> e_NumCPU E \<le> c" using that assms(1) by (intro int32_exact) auto
  then show "SetPollerAffinity E c w =
      (if c < 0 \<or> e_NumCPU E \<le> c then (Some ErrCPUID, w)
       else case e_wakeup E (e_set_cpuid E c (os w)) of
              (None, v) \<Rightarrow> (None, w\<lparr>os := v\<rparr>)
            | (Some e, v) \<Rightarrow> (Some e, w\<lparr>os := e_set_cpuid E (-1) v\<rparr>))"
    by (auto simp: SetPollerAffinity_def Let_def split: prod.splits option.splits)
  let ?ev = "\<lparr>ee_Events = or (or (or EPOLLRDHUP EPOLLIN) EPOLLOUT) EPOLLET, ee_Fd = int32 f\<rparr>"
  have "int32 f = f" using assms(2,3) by (intro int32_exact) auto
  moreover have "bit (ee_Events ?ev) 31" by (simp add: EPOLLET_def EPOLLRDHUP_def EPOLLIN_def EPOLLOUT_def)
  ultimately show "\<exists>ev. linux_Watch S p f u = (case l_EpollCtlAdd S (lp_pfd p) f ev u of (e, u') \<Rightarrow> (map_option ErrSys e, u'))
      \<and> ev_ident (linux_event ev) = f \<and> bit (ee_Events ev) 31"
    by (intro exI [of _ ?ev]) (simp add: linux_Watch_def linux_event_ident)
qed

section \<open>Example\<close>


definition world_linux :: "world linux_sys" where
  "world_linux =
     \<lparr>l_EpollCreate1 = (\<lambda>v. (Inr 3, v)), l_EVENTFD2 = (\<lambda>v. (Inr 4, v)), l_EpollCtlAdd = (\<lambda>a b e v. (None, v)),
      l_EpollWait = (\<lambda>a n v. Some (Inl (Errno 9), v)), l_Write = (\<lambda>f bs v. (None, v)), l_Read = (\<lambda>f n v. v), l_Close = (\<lambda>f v. v)\<rparr>"











text \<open>A system whose polls fail; the world is the list of the signals that were sent.\<close>

definition bad_linux :: "Signal list linux_sys" where
  "bad_linux =
     \<lparr>l_EpollCreate1 = (\<lambda>v. (Inr 3, v)), l_EVENTFD2 = (\<lambda>v. (Inr 4, v)), l_EpollCtlAdd = (\<lambda>a b e v. (None, v)),
      l_EpollWait = (\<lambda>a n v. Some (Inl (Errno 9), v)), l_Write = (\<lambda>f bs v. (None, v)), l_Read = (\<lambda>f n v. v), l_Close = (\<lambda>f v. v)\<rparr>"

definition bad_win :: "Signal list win_sys" where
  "bad_win =
     \<lparr>ws_WSAPoll = (\<lambda>fds v. (Inl 10022, v)), ws_WSARecv = (\<lambda>s n v. (Inl 10035, v)), ws_WSASend = (\<lambda>s bs v. (Inr 1, v)),
      ws_closesocket = (\<lambda>s v. (None, v)), ws_WSADuplicateSocketW = (\<lambda>s v. (Inr 0, v)), ws_WSASocketW = (\<lambda>i v. ((1, 0), v)),
      ws_ioctlsocket = (\<lambda>s v. (None, v)), ws_errtext = (\<lambda>c. ''invalid'')\<rparr>"

definition quiet_runtime :: "Signal list runtime" where
  "quiet_runtime = \<lparr>g_others = (\<lambda>v. ([], v)), g_select = (\<lambda>v. (True, v)), g_send = (\<lambda>s v. v @ [s]), g_setAffinity = (\<lambda>c v. v)\<rparr>"

theorem linux_poll_failure_is_silent_witness:
  "(\<exists>p'. linux_Wait bad_linux quiet_runtime \<lparr>lp_cpuid = -1, lp_pfd = 3, lp_efd = 4, lp_die = False\<rparr> [] = Some (p', []))
   \<and> (\<exists>q'. win_Wait bad_win quiet_runtime watching_7 []
        = Some (q', [\<lparr>sig_events = [], sig_err = Some (ErrText ''WSAPoll failed: invalid'')\<rparr>]))"
proof -
  let ?p = "\<lparr>lp_cpuid = -1, lp_pfd = 3, lp_efd = 4, lp_die = False\<rparr>"
  have o: "linux_others bad_linux quiet_runtime (?p, []) = (?p, [])" "win_others bad_win quiet_runtime (watching_7, []) = (watching_7, [])"
    by (simp_all add: linux_others_def win_others_def quiet_runtime_def)
  have h: "\<not> lp_die ?p" "l_EpollWait bad_linux (lp_pfd ?p) maxEvents [] = Some (Inl (Errno 9), [])" "Errno 9 \<noteq> EINTR"
    "\<not> wp_die watching_7" "wp_pollFds watching_7 \<noteq> []" "ws_WSAPoll bad_win (wp_pollFds watching_7) [] = (Inl 10022, [])" "(10022 :: int) \<noteq> 10004"
    by (simp_all add: bad_linux_def bad_win_def watching_7_def)
  from linux_poll_failure_is_silent [OF o(1) h(1) o(1) h(2,3) o(2) h(4) o(2) h(5,6,7) o(2) h(4)] show ?thesis
    by (simp add: bad_linux_def bad_win_def quiet_runtime_def win_Wait_exit_def closeSocket_def watching_7_def Let_def)
qed

theorem conversions_to_int32_are_exact_witness:
  "fst (SetPollerAffinity sample_env 9 (sample_new 8 sample_world)) = Some ErrCPUID
   \<and> fst (SetPollerAffinity sample_env 7 (sample_new 8 sample_world)) = None
   \<and> (\<exists>ev. linux_Watch world_linux \<lparr>lp_cpuid = -1, lp_pfd = 3, lp_efd = 4, lp_die = False\<rparr> 9 sample_world
        = (case l_EpollCtlAdd world_linux 3 9 ev sample_world of (e, u') \<Rightarrow> (map_option ErrSys e, u'))
        \<and> ev_ident (linux_event ev) = 9 \<and> bit (ee_Events ev) 31)"
proof -
  have "e_NumCPU sample_env \<le> 2 ^ 31" "(0 :: int) \<le> 9" "(9 :: int) < 2 ^ 31" by (simp_all add: sample_env_def)
  note c = conversions_to_int32_are_exact [OF this]
  have "fst (SetPollerAffinity sample_env 9 (sample_new 8 sample_world)) = Some ErrCPUID"
    "fst (SetPollerAffinity sample_env 7 (sample_new 8 sample_world)) = None"
    unfolding conjunct1 [OF c] by (simp_all add: sample_env_def)
  with conjunct2 [OF c, of world_linux "\<lparr>lp_cpuid = -1, lp_pfd = 3, lp_efd = 4, lp_die = False\<rparr>" sample_world] show ?thesis by simp
qed

end
