(* ===== verification/Loop_Returns.thy ===== *)
theory Loop_Returns
  imports Side_Invariants
begin

text \<open>
  Totality of the loop's handlers. The model answers \<open>None\<close> where the code panics (a slice expression or
  an index out of range, a missing record) and where a loop of the code does not end. The locale
  \<open>sends_return\<close> adds to the contract of the loop that a delivery returns and derives that releasing
  connections, the collection of finalized ones and the end of the loop return; \<open>loop_returns\<close> adds
  the same of the attempts and derives that every handler returns.
\<close>

section \<open>Deliveries\<close>

locale sends_return = loop_moves +
  assumes send_ret: "F r (r # H) Q w \<Longrightarrow> \<exists>w'. deliver E r w = Some w'"
begin

lemma fail_all_ret:
  assumes "I H Q w" and "Q d s = es"
  shows "\<exists>w'. fail_all E es w = Some w'"
  using assms
proof (induction es arbitrary: w Q)
  case (Cons x xs)
  let ?r = "el_Value x" and ?Q = "qdrop d s (el_id x) Q"
  have x: "x \<in> set (Q d s)" using Cons.prems(2) by simp
  have I1: "I (?r # H) ?Q (set_err ?r ErrClosedPipe w)" by (rule fail [OF take [OF Cons.prems(1) x]])
  obtain w1 where w1: "deliver E ?r (set_err ?r ErrClosedPipe w) = Some w1" using send_ret [OF I_F [OF I1]] by blast
  have "distinct (map el_id (x # xs))" using own_queueD(8) [OF I_own [OF Cons.prems(1)] x] Cons.prems(2) by simp
  from list_Remove_head [OF this] have "?Q d s = xs" using Cons.prems(2) by (simp add: qdrop_def)
  with Cons.IH [OF send [OF I_F [OF I1] w1]] w1 show ?case by auto
qed simp

lemma releaseConn_ret:
  assumes "I H (qs w) w"
  shows "\<exists>w'. releaseConn E f w = Some w'"
proof (cases "descs w f")
  case (Some d)
  let ?Q = "(qs w)(d := (qs w d)(Reader := []))"
  obtain w1 where w1: "fail_all E (fd_readers (fdDescs w d)) w = Some w1"
    using fail_all_ret [OF assms, of d Reader] by (auto simp: qs_def queue_of_def)
  from fail_all_inv [OF w1 assms, of d Reader] have i: "I H ?Q w1" "loop_frame (set H) w w1" by (simp_all add: qs_def queue_of_def)
  have "?Q d Writer = fd_writers (fdDescs w1 d)" using loop_frameD(2) [OF i(2)] by (simp add: qs_def queue_of_def)
  from fail_all_ret [OF i(1) this] obtain w2 where "fail_all E (fd_writers (fdDescs w1 d)) w1 = Some w2" ..
  with w1 Some show ?thesis by (simp add: releaseConn_def)
qed (simp add: releaseConn_def)

lemma release_conns_ret: "I [] (qs w) w \<Longrightarrow> \<exists>w'. release_conns E cs w = Some w'"
proof (induction cs arbitrary: w)
  case (Cons c cs)
  show ?case
  proof (cases "connIdents w c")
    case (Some f)
    obtain w1 where "releaseConn E f w = Some w1" using releaseConn_ret [OF Cons.prems] by blast
    with Some Cons.IH [OF releaseConn_inv(1) [OF this Cons.prems]] show ?thesis by simp
  qed (use Cons in simp)
qed simp

lemma handleGC_ret:
  assumes "I [] (qs w) w"
  shows "\<exists>w'. handleGC E (w\<lparr>gcNotify := False\<rparr>) = Some w'"
proof -
  have "I [] (qs (w\<lparr>gcNotify := False, gcLocked := True\<rparr>)) (w\<lparr>gcNotify := False, gcLocked := True\<rparr>)"
    using collecting [OF assms] by (simp add: qs_def)
  from release_conns_ret [OF this, of "gc w"] show ?thesis by (auto simp: handleGC_def)
qed

lemma release_all_ret: "I [] (qs w) w \<Longrightarrow> \<exists>w'. release_all E fs w = Some w'"
proof (induction fs arbitrary: w)
  case (Cons f fs)
  obtain w1 where "releaseConn E f w = Some w1" using releaseConn_ret [OF Cons.prems] by blast
  with Cons.IH [OF releaseConn_inv(1) [OF this Cons.prems]] show ?case by simp
qed simp

end

text \<open>Other goroutines only take results out of the channel, so the deferred drain ends.\<close>

lemma yield_chResults: "length (chResults (yield E w)) \<le> length (chResults w)"
proof -
  have act: "length (chResults (exec_act E a w)) \<le> length (chResults w)" for a and w :: "'a watcher"
    by (cases a)
      (auto simp: Read_def ReadTimeout_def ReadFull_def Write_def WriteTimeout_def Free_def aioCreate_def aiocbPool_Get_def
        aiocbPool_Put_def set_cb_def notifyPending_def Let_def WaitIO_enter_def fold_Put WaitIO_recv_def WaitIO_more_def
        WaitIO_drained_def WaitIO_notify_def notifyShouldSwap_def stop_def conn_finalizer_def
        split: option.splits prod.splits list.splits)
  have "length (chResults (fold (exec_act E) acts w)) \<le> length (chResults w)" for acts and w :: "'a watcher"
  proof (induction acts arbitrary: w)
    case (Cons a acts)
    from Cons.IH [of "exec_act E a w"] act [of a w] show ?case by simp
  qed simp
  from this [of "fst (e_sched E (os w))" "w\<lparr>os := snd (e_sched E (os w))\<rparr>"] show ?thesis
    by (cases "e_sched E (os w)") (simp add: yield_def run_acts_def)
qed

lemma drain_loop_ret: "\<exists>w'. drain_loop E w = Some w'"
  unfolding drain_loop_def
proof (rule go_loop_total [where I = "\<lambda>_. True" and m = "\<lambda>w. length (chResults w)"])
  show "(\<exists>r. Some (drain_once E w) = Some (Inr r))
      \<or> (\<exists>w'. Some (drain_once E w) = Some (Inl w') \<and> True \<and> length (chResults w') < length (chResults w))" for w
    using yield_chResults [of E w] by (cases "chResults (yield E w)") (auto simp: drain_once_def Let_def)
qed simp

context sends_return
begin

lemma loop_exit_ret:
  assumes "I [] (qs w) w"
  shows "\<exists>w'. loop_exit E order w = Some w'"
proof -
  obtain w1 where "release_all E order w = Some w1" using release_all_ret [OF assms] by blast
  moreover obtain w2 where "drain_loop E w1 = Some w2" using drain_loop_ret by blast
  ultimately show ?thesis by (simp add: loop_exit_def)
qed

end

section \<open>Attempts\<close>

locale loop_returns = sends_return E owned I F + timer_blind E owned I F
  for E :: "'w env" and owned :: "'w \<Rightarrow> fd set"
    and I :: "aref list \<Rightarrow> queues \<Rightarrow> 'w watcher \<Rightarrow> bool" and F :: "aref \<Rightarrow> aref list \<Rightarrow> queues \<Rightarrow> 'w watcher \<Rightarrow> bool" +
  assumes read_ret: "I H Q w \<Longrightarrow> r \<in> set H \<union> qset Q \<Longrightarrow> \<exists>x. tryRead E f r w = Some x"
    and write_ret: "I H Q w \<Longrightarrow> r \<in> set H \<union> qset Q \<Longrightarrow> \<exists>x. tryWrite E f r w = Some x"
begin

lemma start_op_ret:
  assumes "I (r # H) Q w"
  shows "\<exists>w'. start_op E f d r w = Some w'"
proof -
  obtain b1 w1 where t: "tryRead E f r w = Some (b1, w1)" using read_ret [OF assms, of r f] by auto
  obtain b2 w2 where u: "tryWrite E f r w = Some (b2, w2)" using write_ret [OF assms, of r f] by auto
  have "b1 \<Longrightarrow> \<exists>w'. deliver E r w1 = Some w'" "b2 \<Longrightarrow> \<exists>w'. deliver E r w2 = Some w'"
    using t u read_done [OF assms, of r f w1] write_done [OF assms, of r f w2] send_ret by auto
  with t u show ?thesis by (cases "cb_op (aiocbs w r)") (auto simp: start_op_def)
qed

lemma handle_request_ret:
  assumes "I (r # H) (qs w) w"
  shows "\<exists>w'. handle_request E r w = Some w'"
  using assms
proof (cases rule: handle_request_cases)
  case (release f)
  with releaseConn_ret [OF assms, of f] show ?thesis by simp
next
  case (start f d v)
  with start_op_ret [OF start(1), of f d] show ?thesis by simp
next
  case (refuse v)
  with send_ret [OF I_F [OF refuse(1)]] show ?thesis by simp
qed

lemma handlePending_ret:
  assumes "I rs (qs w) w" and "set rs \<inter> set (timeouts w) = {}"
  shows "\<exists>w'. handlePending E rs w = Some w'"
  using assms
proof (induction rs arbitrary: w)
  case (Cons r rs)
  obtain w1 where w1: "handle_request E r w = Some w1" using handle_request_ret [OF Cons.prems(1)] by blast
  have "r \<notin> set rs" using I_own [OF Cons.prems(1)] by (simp add: own_def own_locs_def)
  with handle_request_inv [OF w1 Cons.prems(1)] Cons.prems(2) Cons.IH [of w1] w1 show ?case by auto
qed simp

lemma loop_pending_ret:
  assumes "I [] (qs w) w"
  shows "\<exists>w'. loop_pending E (w\<lparr>chPendingNotify := False\<rparr>) = Some w'"
proof -
  let ?w0 = "w\<lparr>chPendingNotify := False, pendingCreate := [], pendingProcessing := pendingCreate w\<rparr>"
  have "I (pendingCreate w) (qs ?w0) ?w0" using accept [OF assms] by (simp add: qs_def)
  moreover have "set (pendingCreate w) \<inter> set (timeouts ?w0) = {}"
    using I_own [OF assms] by (auto simp: own_def own_heap_def own_locs_def locs_def)
  ultimately obtain w1 where "handlePending E (pendingCreate w) ?w0 = Some w1" using handlePending_ret by blast
  then show ?thesis by (simp add: loop_pending_def)
qed

lemma retry_reads_ret:
  assumes "I [] (qs w) w" and "qs w d Reader = xs"
  shows "\<exists>w'. retry_reads E f d xs w = Some w'"
  using assms
proof (induction xs arbitrary: w)
  case (Cons x xs)
  let ?r = "el_Value x"
  have x: "x \<in> set (qs w d Reader)" using Cons.prems(2) by simp
  have r: "?r \<in> set [] \<union> qset (qs w)" using own_queueD(7) [OF I_own [OF Cons.prems(1)] x] by simp
  obtain fin w1 where t: "tryRead E f ?r w = Some (fin, w1)" using read_ret [OF Cons.prems(1) r, of f] by auto
  have fr: "loop_frame (set [] \<union> qset (qs w)) w w1" by (rule tryRead_frame [OF t I_own [OF Cons.prems(1)] I_os [OF Cons.prems(1)]])
  show ?case
  proof (cases fin)
    case True
    have F1: "F ?r [] (qs w) w1" using read_done [OF Cons.prems(1) r] t True by simp
    obtain w2 where dl: "deliver E ?r (dequeue Reader d (el_id x) w1) = Some w2" using send_ret [OF take_done [OF F1 x]] by blast
    from serve_inv [OF F1 fr Cons.prems(2) dl] have s: "I [] (qs w2) w2" "qs w2 d Reader = xs" by blast+
    from Cons.IH [OF s] t True dl show ?thesis by simp
  qed (use t in simp)
qed simp

lemma retry_writes_ret:
  assumes "I [] (qs w) w" and "qs w d Writer = xs"
  shows "\<exists>w'. retry_writes E f d xs w = Some w'"
  using assms
proof (induction xs arbitrary: w)
  case (Cons x xs)
  let ?r = "el_Value x"
  have x: "x \<in> set (qs w d Writer)" using Cons.prems(2) by simp
  have r: "?r \<in> set [] \<union> qset (qs w)" using own_queueD(7) [OF I_own [OF Cons.prems(1)] x] by simp
  obtain fin w1 where t: "tryWrite E f ?r w = Some (fin, w1)" using write_ret [OF Cons.prems(1) r, of f] by auto
  have fr: "loop_frame (set [] \<union> qset (qs w)) w w1" by (rule tryWrite_frame [OF t I_own [OF Cons.prems(1)] I_os [OF Cons.prems(1)]])
  show ?case
  proof (cases fin)
    case True
    have F1: "F ?r [] (qs w) w1" using write_done [OF Cons.prems(1) r] t True by simp
    obtain w2 where dl: "deliver E ?r (dequeue Writer d (el_id x) w1) = Some w2" using send_ret [OF take_done [OF F1 x]] by blast
    from serve_inv [OF F1 fr Cons.prems(2) dl] have s: "I [] (qs w2) w2" "qs w2 d Writer = xs" by blast+
    from Cons.IH [OF s] t True dl show ?thesis by simp
  qed (use t in simp)
qed simp

lemma handle_event_ret:
  assumes "I [] (qs w) w"
  shows "\<exists>w'. handle_event E e w = Some w'"
proof (cases "descs w (ev_ident e)")
  case (Some d)
  have q: "qs v d Reader = fd_readers (fdDescs v d)" "qs v d Writer = fd_writers (fdDescs v d)" for v :: "'w watcher"
    by (simp_all add: qs_def queue_of_def)
  obtain w1 where r: "retry_reads E (ev_ident e) d (fd_readers (fdDescs w d)) w = Some w1"
    using retry_reads_ret [OF assms q(1)] by blast
  from retry_reads_inv [OF r assms q(1)] retry_writes_ret [OF _ q(2), of w1] retry_writes_ret [OF assms q(2)] r Some
  show ?thesis by (simp add: handle_event_def)
qed (simp add: handle_event_def)

lemma handleEvents_ret: "I [] (qs w) w \<Longrightarrow> \<exists>w'. handleEvents E es w = Some w'"
proof (induction es arbitrary: w)
  case (Cons e es)
  obtain w1 where "handle_event E e w = Some w1" using handle_event_ret [OF Cons.prems] by blast
  with handle_event_inv [OF this Cons.prems] Cons.IH [of w1] show ?case by simp
qed simp

section \<open>The timer\<close>

lemma expire_once_ret:
  assumes I: "I [] (qs w) w"
  shows "\<exists>again w'. expire_once E now w = Some (again, w') \<and> (again \<longrightarrow> card (set (timeouts w')) < card (set (timeouts w)))"
proof (cases "timeouts w")
  case (Cons r rest)
  have ow: "own owned [] (qs w) w" by (rule I_own [OF I])
  have "r \<in> qset (qs w)" and i: "cb_idx (aiocbs w r) \<noteq> -1" using ow Cons by (auto simp: own_def own_heap_def)
  then obtain d s x where x: "x \<in> set (qs w d s)" "el_Value x = r" by (auto simp: qset_def)
  note q = own_queueD [OF ow x(1)]
  show ?thesis
  proof (cases "cb_deadline (aiocbs w r) < now")
    case True
    let ?w2 = "dequeue s d (el_id x) (set_err r ErrDeadline w)" and ?Q = "qdrop d s (el_id x) (qs w)"
    have I2: "I [r] ?Q ?w2" by (rule unlink [OF fail]) (use take [OF I x(1)] x(2) in simp)
    have top: "timeouts ?w2 = r # rest" by (simp add: dequeue_def set_desc_def set_err_def set_cb_def Cons)
    have "timed_ok (aiocbs ?w2, timeouts ?w2)" using I_own [OF I2] by (simp add: own_def own_heap_def)
    then obtain y S T where pop: "timeouts_Pop (aiocbs ?w2, timeouts ?w2) = Some (y, (S, T))"
      using timeouts_Pop_ok [of "(aiocbs ?w2, timeouts ?w2)"] top by (metis list.distinct(1) prod.exhaust snd_conv)
    let ?w3 = "?w2\<lparr>aiocbs := set_idx S r (-1), timeouts := T\<rparr>"
    have I3: "I [r] ?Q ?w3" by (rule popped [OF I2 top pop])
    obtain w' where dl: "deliver E r ?w3 = Some w'" using send_ret [OF I_F [OF I3]] by blast
    have T: "set T = set (timeouts w) - {r}" using own_Pop(3) [OF I_own [OF I2] top pop] top Cons by simp
    have "set (timeouts w') \<subseteq> set T" using loop_frameD(6) [OF deliver_frame(1) [OF dl I_own [OF I3] I_os [OF I3]]] by simp
    then have "set (timeouts w') \<subset> set (timeouts w)" using T Cons by auto
    then have "card (set (timeouts w')) < card (set (timeouts w))" by (simp add: psubset_card_mono)
    moreover have "expire_once E now w = Some (True, w')"
      using Cons i True q(3,4) x(2) pop dl by (simp add: expire_once_def Let_def)
    ultimately show ?thesis by blast
  qed (use Cons i in \<open>auto simp: expire_once_def Let_def\<close>)
qed (auto simp: expire_once_def)

lemma handleTimer_ret:
  assumes "I [] (qs w) w"
  shows "\<exists>w'. handleTimer E (w\<lparr>timerC := False\<rparr>) = Some w'"
proof -
  obtain now wo where n: "e_Now E (os w) = (now, wo)" by fastforce
  let ?w0 = "w\<lparr>timerC := False, os := wo\<rparr>"
  have "I [] (qs w) ?w0" using world [OF timer_read [OF assms]] os_okD(11) [OF I_os [OF assms] n] by simp
  then have "I [] (qs ?w0) ?w0" by (simp add: qs_def)
  then have "\<exists>w'. go_loop (\<lambda>w. map_option (\<lambda>(again, w1). if again then Inl w1 else Inr w1) (expire_once E now w)) ?w0 = Some w'"
  proof (rule go_loop_total [where I = "\<lambda>w. I [] (qs w) w" and m = "\<lambda>w. card (set (timeouts w))"])
    fix v assume v: "I [] (qs v) v"
    from expire_once_ret [OF v, of now] obtain again v' where e: "expire_once E now v = Some (again, v')"
      and m: "again \<longrightarrow> card (set (timeouts v')) < card (set (timeouts v))" by blast
    with expire_once_inv [OF e v]
    show "(\<exists>r. map_option (\<lambda>(again, w1). if again then Inl w1 else Inr w1) (expire_once E now v) = Some (Inr r))
      \<or> (\<exists>s'. map_option (\<lambda>(again, w1). if again then Inl w1 else Inr w1) (expire_once E now v) = Some (Inl s')
          \<and> I [] (qs s') s' \<and> card (set (timeouts s')) < card (set (timeouts v)))"
      by (cases again) simp_all
  qed
  with n show ?thesis by (simp add: handleTimer_def expire_loop_def)
qed

end

end
