(* ===== verification/Buffer_Sizes.thy ===== *)
theory Buffer_Sizes
  imports Swap_Results Loop_Returns
begin

text \<open>
  Sizes and slices. The sizes of the requests, the write position of the shared buffers and the sizes of the
  results in the caller's hands stay within the slices they index, given a kernel that transfers at most what it
  was asked to; so no slice expression of \<open>tryRead\<close> and \<open>tryWrite\<close> is out of range and, when system
  calls are not interrupted forever, both return.
\<close>

section \<open>Sizes\<close>

definition sized_cb :: "aiocb \<Rightarrow> bool" where
  "sized_cb c \<longleftrightarrow> 0 \<le> cb_size c \<and> cb_size c \<le> int (len_of (cb_buffer c)) \<and> (cb_readFull c \<longrightarrow> cb_buffer c \<noteq> None)"

definition sized_result :: "OpResult \<Rightarrow> bool" where
  "sized_result x \<longleftrightarrow> 0 \<le> r_Size x \<and> r_Size x \<le> int (len_of (r_Buffer x))"

definition bufview :: "'w watcher \<Rightarrow> slice \<times> slice \<times> slice \<times> int \<times> nat \<times> OpResult list" where
  "bufview w = (swapBufferFront w, swapBufferMiddle w, swapBufferBack w, bufferOffset w, swapSize w, results w)"

definition sized_bufs :: "'w watcher \<Rightarrow> bool" where
  "sized_bufs w \<longleftrightarrow> (\<forall>b \<in> {swapBufferFront w, swapBufferMiddle w, swapBufferBack w}. s_len b = swapSize w \<and> s_cap b = swapSize w)
     \<and> 0 \<le> bufferOffset w \<and> bufferOffset w \<le> int (swapSize w) \<and> (\<forall>x \<in> set (results w). sized_result x)"

definition sized :: "'w watcher \<Rightarrow> bool" where
  "sized w \<longleftrightarrow> (\<forall>r. sized_cb (aiocbs w r)) \<and> sized_bufs w"

text \<open>The kernel: a successful transfer moves between zero and the requested number of bytes.\<close>

definition transfers_ok :: "'w env \<Rightarrow> bool" where
  "transfers_ok E \<longleftrightarrow>
     (\<forall>f n v nr bs v'. e_rawRead E f n v = ((nr, None, bs), v') \<longrightarrow> 0 \<le> nr \<and> nr \<le> int n)
     \<and> (\<forall>f bs v nw v'. e_rawWrite E f bs v = ((nw, None), v') \<longrightarrow> 0 \<le> nw \<and> nw \<le> int (length bs))"

lemma sized_cb_io: "io c' = io c \<Longrightarrow> sized_cb c' = sized_cb c"
  by (simp add: sized_cb_def io_fields [of c' c])

lemma sized_bufs_view: "bufview w' = bufview w \<Longrightarrow> sized_bufs w' = sized_bufs w"
  by (simp add: bufview_def sized_bufs_def)

lemma sized_frame:
  assumes "sized w" and "\<And>r. io (aiocbs w' r) = io (aiocbs w r)" and "bufview w' = bufview w"
  shows "sized w'"
  using assms sized_cb_io [OF assms(2)] sized_bufs_view [OF assms(3)] by (simp add: sized_def)

lemma sized_data_kept: "sized w \<Longrightarrow> data_kept w w' \<Longrightarrow> sized w'"
  by (erule sized_frame) (simp_all add: data_kept_def tview_def bview_def bufview_def)

lemma sized_aioCreate:
  assumes "sized w" and "full \<longrightarrow> buf \<noteq> None"
  shows "sized (snd (aioCreate E cx oper conn buf dl full w))"
proof (cases rule: aioCreate_shape [of E cx oper conn buf dl full w])
  case refused
  with assms show ?thesis by simp
next
  case (made r ptr)
  have "sized_cb (new_aiocb cx oper ptr buf dl full)" using assms(2) by (simp add: sized_cb_def new_aiocb_def)
  moreover have "sized_bufs (snd (aioCreate E cx oper conn buf dl full w)) = sized_bufs w"
    by (rule sized_bufs_view) (use made(4,5) in \<open>simp add: tview_def bview_def bufview_def\<close>)
  ultimately show ?thesis using assms(1) made(2) by (simp add: sized_def)
qed

lemma sized_exec_act:
  assumes "sized w"
  shows "sized (exec_act E a w)"
proof -
  have sub: "sized (snd (Read E cx conn buf w))" "sized (snd (ReadTimeout E cx conn buf dl w))" "sized (snd (ReadFull E cx conn buf dl w))"
    "sized (snd (Write E cx conn buf w))" "sized (snd (WriteTimeout E cx conn buf dl w))" "sized (snd (Free E conn w))" for cx conn buf dl
    using assms by (auto simp: Read_def ReadTimeout_def ReadFull_def Write_def WriteTimeout_def Free_def len_of_def split: option.splits intro!: sized_aioCreate)
  have fr: "sized w'" if "aiocbs w' = aiocbs w" "bufview w' = bufview w" for w' :: "'a watcher"
    by (rule sized_frame [OF assms]) (simp_all add: that)
  have "sized_result (result_of (aiocbs w r))" for r
    using assms by (simp add: sized_def sized_cb_def sized_result_def result_of_def)
  then have recv: "sized (WaitIO_recv w)"
    using assms by (auto simp: WaitIO_recv_def set_cb_def sized_def sized_bufs_def sized_cb_def split: list.splits)
  have enter: "sized (WaitIO_enter w)" using assms by (simp add: WaitIO_enter_def fold_Put sized_def sized_bufs_def)
  show ?thesis
    by (cases a) (auto simp: sub recv enter assms WaitIO_more_def WaitIO_drained_def WaitIO_notify_def
      notifyShouldSwap_def stop_def conn_finalizer_def bufview_def split: prod.splits intro!: fr)
qed

lemma sized_os: "sized w \<Longrightarrow> sized (w\<lparr>os := v\<rparr>)"
  by (erule sized_frame) (simp_all add: bufview_def)

lemma sized_yield: "sized w \<Longrightarrow> sized (yield E w)"
proof -
  have run: "sized w \<Longrightarrow> sized (fold (exec_act E) acts w)" for acts and w :: "'a watcher"
    by (induction acts arbitrary: w) (simp_all add: sized_exec_act)
  show "sized w \<Longrightarrow> sized (yield E w)"
    by (cases "e_sched E (os w)") (simp add: yield_def run_acts_def run sized_os)
qed

section \<open>Reading\<close>

lemma select_buffer_sized:
  assumes "sized w"
  obtains buf us bb w1 where "select_buffer r w = Some (buf, us, bb, w1)" and "sized w1" and "aiocbs w1 = aiocbs w"
    and "0 \<le> cb_size (aiocbs w r)" "cb_size (aiocbs w r) \<le> int (s_len buf)"
    and "cb_buffer (aiocbs w r) = Some buf \<and> \<not> us \<and> \<not> bb
      \<or> cb_buffer (aiocbs w r) = None \<and> us \<and> s_cap buf = s_len buf \<and> int (s_len buf) = int (swapSize w1) - bufferOffset w1
      \<or> cb_buffer (aiocbs w r) = None \<and> \<not> us \<and> bb"
proof (cases "cb_buffer (aiocbs w r)")
  case (Some b)
  have "sized_cb (aiocbs w r)" using assms by (simp add: sized_def)
  with Some assms show ?thesis by (intro that [of b False False w]) (simp_all add: select_buffer_def sized_cb_def len_of_def)
next
  case None
  let ?w1 = "if shouldSwap w then rotate_buffers w else w"
  have s1: "sized ?w1" and a1: "aiocbs ?w1 = aiocbs w" using assms by (auto simp: sized_def sized_bufs_def rotate_buffers_def)
  have z: "cb_size (aiocbs w r) = 0" using assms None by (auto simp: sized_def sized_cb_def len_of_def dest: spec [of _ r])
  have b: "s_len (swapBufferFront ?w1) = swapSize ?w1" "s_cap (swapBufferFront ?w1) = swapSize ?w1" "0 \<le> bufferOffset ?w1"
    "bufferOffset ?w1 \<le> int (swapSize ?w1)" using s1 unfolding sized_def sized_bufs_def by blast+
  then obtain p where p: "slice_from (swapBufferFront ?w1) (bufferOffset ?w1) = Some p" "s_cap p = s_len p"
    "int (s_len p) = int (swapSize ?w1) - bufferOffset ?w1"
    unfolding slice_from_def by fastforce
  show ?thesis
  proof (cases "0 < s_len p")
    case True
    then have "select_buffer r w = Some (p, True, False, ?w1)" using None p(1) by (simp add: select_buffer_def Let_def)
    then show ?thesis by (rule that [OF _ s1 a1]) (use z None p(2,3) in simp_all)
  next
    case False
    then have "select_buffer r w = Some (mk_slice (Back r) backBufferSize, False, True, ?w1)"
      using None p(1) by (simp add: select_buffer_def Let_def)
    then show ?thesis by (rule that [OF _ s1 a1]) (use z None in simp_all)
  qed
qed

lemma read_once_sized:
  assumes "transfers_ok E" and "0 \<le> cb_size (aiocbs w r)" and "cb_size (aiocbs w r) \<le> int (s_len buf)"
  obtains a w1 z e where "read_once E f buf r w = Some (a, w1)" and "bufview w1 = bufview w"
    and "a = Finished \<and> aiocbs w1 = (aiocbs w)(r := (aiocbs w r)\<lparr>cb_size := z, cb_err := e\<rparr>) \<and> 0 \<le> z \<and> z \<le> int (s_len buf)
       \<or> a \<noteq> Finished \<and> aiocbs w1 = aiocbs w"
    and "a = Retry \<Longrightarrow> \<exists>n nr bs. e_rawRead E f n (os w) = ((nr, Some EINTR, bs), os w1)"
proof -
  let ?c = "aiocbs w r"
  obtain p where p: "slice_from buf (cb_size ?c) = Some p" "int (s_len p) = int (s_len buf) - cb_size ?c"
    using assms(2,3) by (fastforce simp: slice_from_def)
  obtain nr er bs v where k: "e_rawRead E f (s_len p) (os w) = ((nr, er, bs), v)" by (metis prod.exhaust)
  have n: "er = None \<Longrightarrow> 0 \<le> nr \<and> nr \<le> int (s_len p)" using assms(1) k unfolding transfers_ok_def by blast
  let ?w1 = "w\<lparr>os := v, mem := mem_write (mem w) p bs\<rparr>"
  let ?e = "if nr = 0 \<and> er = None then Some EOF else map_option ErrSys er"
    and ?z = "if er = None then cb_size ?c + nr else cb_size ?c"
  consider "er = Some EAGAIN" | "er = Some EINTR" | "er \<noteq> Some EAGAIN" "er \<noteq> Some EINTR" by blast
  then show ?thesis
  proof cases
    case 1
    with p k show ?thesis by (intro that [of WouldBlock ?w1]) (simp_all add: read_once_def bufview_def)
  next
    case 2
    with p k show ?thesis by (intro that [of Retry ?w1]) (auto simp: read_once_def bufview_def)
  next
    case 3
    with p(1) k have "read_once E f buf r w = Some (Finished, set_cb r (?c\<lparr>cb_size := ?z, cb_err := ?e\<rparr>) ?w1)"
      by (simp add: read_once_def Let_def)
    then show ?thesis
      by (rule that [where z = ?z and e = ?e]) (use assms(2,3) p(2) n in \<open>auto simp: bufview_def set_cb_def\<close>)
  qed
qed

text \<open>System calls are not interrupted forever.\<close>

definition interrupts_end :: "'w env \<Rightarrow> bool" where
  "interrupts_end E \<longleftrightarrow>
     (\<exists>m :: 'w \<Rightarrow> nat. \<forall>f n v nr bs v'. e_rawRead E f n v = ((nr, Some EINTR, bs), v') \<longrightarrow> m v' < m v)
     \<and> (\<exists>m :: 'w \<Rightarrow> nat. \<forall>f bs v nw v'. e_rawWrite E f bs v = ((nw, Some EINTR), v') \<longrightarrow> m v' < m v)"

text \<open>What an attempt to read leaves: the request is unchanged, or has a new size within the buffer and a new error.\<close>

definition read_result :: "aref \<Rightarrow> slice \<Rightarrow> 'w watcher \<Rightarrow> attempt \<Rightarrow> 'w watcher \<Rightarrow> bool" where
  "read_result r buf w a w' \<longleftrightarrow> bufview w' = bufview w
     \<and> (\<exists>z e. a = Finished \<and> aiocbs w' = (aiocbs w)(r := (aiocbs w r)\<lparr>cb_size := z, cb_err := e\<rparr>) \<and> 0 \<le> z \<and> z \<le> int (s_len buf)
          \<or> a \<noteq> Finished \<and> aiocbs w' = aiocbs w)"

lemma read_result_trans:
  "bufview w1 = bufview w \<Longrightarrow> aiocbs w1 = aiocbs w \<Longrightarrow> read_result r buf w1 a w' \<Longrightarrow> read_result r buf w a w'"
  by (simp add: read_result_def)

lemma read_once_result:
  assumes "transfers_ok E" and "0 \<le> cb_size (aiocbs w r)" and "cb_size (aiocbs w r) \<le> int (s_len buf)"
  shows "\<exists>a w1. read_once E f buf r w = Some (a, w1) \<and> read_result r buf w a w1
    \<and> (a = Retry \<longrightarrow> (\<exists>n nr bs. e_rawRead E f n (os w) = ((nr, Some EINTR, bs), os w1)))"
  by (rule read_once_sized [OF assms]) (unfold read_result_def, blast)

lemma read_loop_result:
  assumes "transfers_ok E" and "0 \<le> cb_size (aiocbs w r)" and "cb_size (aiocbs w r) \<le> int (s_len buf)"
    and "read_loop E f buf r w = Some (a, w')"
  shows "read_result r buf w a w'"
proof -
  let ?I = "\<lambda>v. bufview v = bufview w \<and> aiocbs v = aiocbs w"
  have o: "read_result r buf w a v'" if "?I v" "read_once E f buf r v = Some (a, v')" for v a v'
    using read_once_result [OF assms(1), of v r buf f] that assms(2,3) by (auto intro: read_result_trans)
  have "case_prod (read_result r buf w) (a, w')"
  proof (rule go_loop_inv [where I = ?I, OF assms(4) [unfolded read_loop_def]])
    show "?I v'" if "?I v" "retry_unless (read_once E f buf r v) = Some (Inl v')" for v v'
      using o [OF that(1), of Retry v'] that(2) by (simp add: retry_unless_cases read_result_def)
    show "case_prod (read_result r buf w) x" if "?I v" "retry_unless (read_once E f buf r v) = Some (Inr x)" for v x
      using o [OF that(1), of "fst x" "snd x"] that(2) by (cases x) (simp add: retry_unless_cases)
  qed simp
  then show ?thesis by simp
qed

lemma read_loop_ret:
  assumes "transfers_ok E" and "0 \<le> cb_size (aiocbs w r)" and "cb_size (aiocbs w r) \<le> int (s_len buf)" and "interrupts_end E"
  shows "\<exists>x. read_loop E f buf r w = Some x"
proof -
  from assms(4) obtain m :: "'a \<Rightarrow> nat" where m: "\<And>f n v nr bs v'. e_rawRead E f n v = ((nr, Some EINTR, bs), v') \<Longrightarrow> m v' < m v"
    unfolding interrupts_end_def by blast
  show ?thesis
    unfolding read_loop_def
  proof (rule go_loop_total [where I = "\<lambda>v. aiocbs v = aiocbs w" and m = "\<lambda>v. m (os v)"])
    fix v :: "'a watcher" assume v: "aiocbs v = aiocbs w"
    have "0 \<le> cb_size (aiocbs v r)" "cb_size (aiocbs v r) \<le> int (s_len buf)" using assms(2,3) by (simp_all add: v)
    from read_once_result [OF assms(1) this, of f] obtain a v1 where o: "read_once E f buf r v = Some (a, v1)"
      and r: "read_result r buf v a v1" and i: "a = Retry \<longrightarrow> (\<exists>n nr bs. e_rawRead E f n (os v) = ((nr, Some EINTR, bs), os v1))"
      by blast
    show "(\<exists>x. retry_unless (read_once E f buf r v) = Some (Inr x))
        \<or> (\<exists>s'. retry_unless (read_once E f buf r v) = Some (Inl s') \<and> aiocbs s' = aiocbs w \<and> m (os s') < m (os v))"
    proof (cases "a = Retry")
      case True
      with i m have "m (os v1) < m (os v)" by blast
      with True o r v show ?thesis by (auto simp: retry_unless_def read_result_def)
    qed (use o in \<open>simp add: retry_unless_def\<close>)
  qed simp
qed

text \<open>The end of \<open>tryRead\<close>: the size fits the slice that becomes the request's buffer.\<close>

lemma finish_read_sized:
  assumes w1: "sized w1" and r: "read_result r buf w1 Finished w2"
    and c: "cb_buffer (aiocbs w1 r) = Some buf \<and> \<not> us \<and> \<not> bb
      \<or> cb_buffer (aiocbs w1 r) = None \<and> us \<and> s_cap buf = s_len buf \<and> int (s_len buf) = int (swapSize w1) - bufferOffset w1
      \<or> cb_buffer (aiocbs w1 r) = None \<and> \<not> us \<and> bb"
  shows "\<exists>fin w'. finish_read buf us bb r w2 = Some (fin, w') \<and> sized w'"
proof -
  obtain z e where a: "aiocbs w2 = (aiocbs w1)(r := (aiocbs w1 r)\<lparr>cb_size := z, cb_err := e\<rparr>)" "0 \<le> z" "z \<le> int (s_len buf)"
    using r by (auto simp: read_result_def)
  have b: "sized_bufs w2" "bufview w2 = bufview w1" using r w1 sized_bufs_view [of w2 w1] by (simp_all add: read_result_def sized_def)
  have s: "sized_cb (aiocbs w1 q)" for q using w1 by (simp add: sized_def)
  have set: "sized (set_cb r x w2)" if "sized_cb x" for x
    using that b(1) s by (simp add: sized_def a(1) set_cb_def sized_bufs_def)
  note c0 = s [of r, unfolded sized_cb_def]
  consider (user) "cb_buffer (aiocbs w1 r) = Some buf" "\<not> us" "\<not> bb"
    | (swap) "cb_buffer (aiocbs w1 r) = None" "us" "s_cap buf = s_len buf" "int (s_len buf) = int (swapSize w1) - bufferOffset w1"
    | (inner) "cb_buffer (aiocbs w1 r) = None" "\<not> us" "bb"
    using c by (elim disjE conjE) simp_all
  then show ?thesis
  proof cases
    case user
    then have "sized_cb (aiocbs w2 q)" for q using s [of q] a by (simp add: sized_cb_def len_of_def)
    with b(1) have "sized w2" by (simp add: sized_def)
    with user show ?thesis by (auto simp: finish_read_def Let_def)
  next
    case swap
    let ?b = "buf\<lparr>s_len := nat z\<rparr>"
    let ?w = "set_cb r ((aiocbs w2 r)\<lparr>cb_useSwap := True, cb_buffer := Some ?b\<rparr>) w2"
    have "sized ?w" by (rule set) (use a c0 in \<open>simp add: sized_cb_def len_of_def\<close>)
    then have "sized (?w\<lparr>bufferOffset := bufferOffset w2 + z\<rparr>)"
      using a(2,3) swap(4) b(2) by (simp add: sized_def sized_bufs_def bufview_def set_cb_def)
    with swap a c0 show ?thesis by (auto simp: finish_read_def Let_def slice_upto_def set_cb_def)
  next
    case inner
    have "sized (set_cb r ((aiocbs w2 r)\<lparr>cb_buffer := Some buf\<rparr>) w2)" by (rule set) (use a c0 in \<open>simp add: sized_cb_def len_of_def\<close>)
    with inner a c0 show ?thesis by (auto simp: finish_read_def Let_def)
  qed
qed

lemma tryRead_result:
  assumes "transfers_ok E" and "sized w"
  shows "tryRead E f r w = Some (fin, w') \<Longrightarrow> sized w'" and "interrupts_end E \<Longrightarrow> \<exists>x. tryRead E f r w = Some x"
proof -
  obtain buf us bb w1 where sb: "select_buffer r (yield E w) = Some (buf, us, bb, w1)" "sized w1" "aiocbs w1 = aiocbs (yield E w)"
    "0 \<le> cb_size (aiocbs (yield E w) r)" "cb_size (aiocbs (yield E w) r) \<le> int (s_len buf)"
    and c: "cb_buffer (aiocbs (yield E w) r) = Some buf \<and> \<not> us \<and> \<not> bb
      \<or> cb_buffer (aiocbs (yield E w) r) = None \<and> us \<and> s_cap buf = s_len buf \<and> int (s_len buf) = int (swapSize w1) - bufferOffset w1
      \<or> cb_buffer (aiocbs (yield E w) r) = None \<and> \<not> us \<and> bb"
    by (rule select_buffer_sized [OF sized_yield [OF assms(2)]]) blast
  note z = sb(4,5) [folded sb(3)]
  have res: "read_result r buf w1 a w2" if "read_loop E f buf r w1 = Some (a, w2)" for a w2
    by (rule read_loop_result [OF assms(1) z that])
  have keep: "sized w2" if "read_result r buf w1 a w2" "a \<noteq> Finished" for a w2
    by (rule sized_frame [OF sb(2)]) (use that in \<open>auto simp: read_result_def\<close>)
  have fin: "\<exists>fin w'. finish_read buf us bb r w2 = Some (fin, w') \<and> sized w'" if "read_loop E f buf r w1 = Some (Finished, w2)" for w2
    by (rule finish_read_sized [OF sb(2) res [OF that] c [folded sb(3)]])
  have nr: "a \<noteq> Retry" if "read_loop E f buf r w1 = Some (a, w2)" for a w2
  proof -
    have "fst (a, w2) \<noteq> Retry"
      by (rule go_loop_inv [where I = "\<lambda>_. True", OF that [unfolded read_loop_def]]) (auto simp: retry_unless_def split: if_splits)
    then show ?thesis by simp
  qed
  show "sized w'" if "tryRead E f r w = Some (fin, w')"
  proof -
    from that sb(1) obtain a w2 where l: "read_loop E f buf r w1 = Some (a, w2)"
      and t: "(if a = WouldBlock then Some (False, w2) else finish_read buf us bb r w2) = Some (fin, w')"
      by (auto simp: tryRead_def elim!: bind_SomeE)
    with keep [OF res [OF l]] nr [OF l] fin [of w2] show ?thesis by (cases a) auto
  qed
  show "\<exists>x. tryRead E f r w = Some x" if "interrupts_end E"
  proof -
    from read_loop_ret [OF assms(1) z that, of f] obtain a w2 where l: "read_loop E f buf r w1 = Some (a, w2)" by auto
    with sb(1) nr [OF l] fin [of w2] show ?thesis by (cases a) (auto simp: tryRead_def)
  qed
qed

section \<open>Writing\<close>

lemma write_once_sized:
  assumes k: "transfers_ok E" and w: "sized w" and b: "cb_buffer (aiocbs w r) = Some buf"
  shows "\<exists>a w1. write_once E f buf r w = Some (a, w1) \<and> sized w1 \<and> cb_buffer (aiocbs w1 r) = Some buf
    \<and> (a = Retry \<longrightarrow> (\<exists>bs nw. e_rawWrite E f bs (os w) = ((nw, Some EINTR), os w1)))"
proof -
  let ?c = "aiocbs w r"
  have c: "0 \<le> cb_size ?c" "cb_size ?c \<le> int (s_len buf)" using w b by (auto simp: sized_def sized_cb_def len_of_def dest: spec [of _ r])
  then obtain p where p: "slice_from buf (cb_size ?c) = Some p" "int (s_len p) = int (s_len buf) - cb_size ?c"
    by (fastforce simp: slice_from_def)
  let ?bs = "mem_read (mem w) p"
  obtain nw ew v where e: "e_rawWrite E f ?bs (os w) = ((nw, ew), v)" by (metis prod.exhaust)
  have n: "ew = None \<Longrightarrow> 0 \<le> nw \<and> nw \<le> int (length ?bs)" using k e unfolding transfers_ok_def by blast
  have l: "length ?bs \<le> s_len p" by (simp add: mem_read_def)
  let ?c1 = "?c\<lparr>cb_err := map_option ErrSys ew\<rparr>"
  let ?w1 = "(set_cb r ?c1 w)\<lparr>os := v\<rparr>"
  have s1: "sized ?w1" by (rule sized_frame [OF w]) (simp_all add: set_cb_def io_def bufview_def)
  have s2: "sized (set_cb r (?c1\<lparr>cb_size := cb_size ?c + nw\<rparr>) ?w1)" if "ew = None"
  proof -
    have "sized_cb (?c1\<lparr>cb_size := cb_size ?c + nw\<rparr>)"
      using n [OF that] l c p(2) b w by (auto simp: sized_def sized_cb_def len_of_def)
    with w show ?thesis by (simp add: sized_def sized_bufs_def set_cb_def)
  qed
  consider "ew = Some EAGAIN \<or> ew = Some ENOBUFS" | "ew = Some EINTR"
    | "ew \<noteq> Some EAGAIN" "ew \<noteq> Some ENOBUFS" "ew \<noteq> Some EINTR" by blast
  then show ?thesis
  proof cases
    case 1
    with p(1) e have "write_once E f buf r w = Some (WouldBlock, ?w1)" by (auto simp: write_once_def Let_def)
    with s1 b show ?thesis by simp
  next
    case 2
    with p(1) e have "write_once E f buf r w = Some (Retry, ?w1)" by (simp add: write_once_def Let_def)
    with s1 b e 2 show ?thesis by auto
  next
    case 3
    with p(1) e have "write_once E f buf r w = Some (Finished, if ew = None then set_cb r (?c1\<lparr>cb_size := cb_size ?c + nw\<rparr>) ?w1 else ?w1)"
      by (simp add: write_once_def Let_def)
    with s1 s2 b show ?thesis by simp
  qed
qed

lemma tryWrite_result:
  assumes k: "transfers_ok E" and w: "sized w"
  shows "tryWrite E f r w = Some (fin, w') \<Longrightarrow> sized w'" and "interrupts_end E \<Longrightarrow> \<exists>x. tryWrite E f r w = Some x"
proof -
  have "(tryWrite E f r w = Some (fin, w') \<longrightarrow> sized w') \<and> (interrupts_end E \<longrightarrow> (\<exists>x. tryWrite E f r w = Some x))"
  proof (cases "cb_buffer (aiocbs w r)")
    case (Some buf)
    let ?I = "\<lambda>v. sized v \<and> cb_buffer (aiocbs v r) = Some buf"
    have o: "?I v1" if "write_once E f buf r v = Some (a, v1)" "?I v" for v a v1
      using write_once_sized [OF k conjunct1 [OF that(2)] conjunct2 [OF that(2)], of f] that(1) by auto
    have "sized w1" if "write_loop E f buf r w = Some (a, w1)" for a w1
      using retry_loop_inv [OF that [unfolded write_loop_def], where I = ?I, OF _ o] w Some by simp
    moreover have "\<exists>x. write_loop E f buf r w = Some x" if i: "interrupts_end E"
    proof -
      from i obtain m :: "'a \<Rightarrow> nat" where m: "\<And>f bs v nw v'. e_rawWrite E f bs v = ((nw, Some EINTR), v') \<Longrightarrow> m v' < m v"
        unfolding interrupts_end_def by blast
      show ?thesis
        unfolding write_loop_def
      proof (rule go_loop_total [where I = ?I and m = "\<lambda>v. m (os v)"])
        fix v :: "'a watcher" assume v: "?I v"
        from write_once_sized [OF k conjunct1 [OF v] conjunct2 [OF v], of f] obtain a v1 where o: "write_once E f buf r v = Some (a, v1)" "?I v1"
          and e: "a = Retry \<longrightarrow> (\<exists>bs nw. e_rawWrite E f bs (os v) = ((nw, Some EINTR), os v1))" by blast
        with m have "a = Retry \<longrightarrow> m (os v1) < m (os v)" by blast
        with o show "(\<exists>x. retry_unless (write_once E f buf r v) = Some (Inr x))
            \<or> (\<exists>s'. retry_unless (write_once E f buf r v) = Some (Inl s') \<and> ?I s' \<and> m (os s') < m (os v))"
          by (simp add: retry_unless_def)
      qed (use w Some in simp)
    qed
    ultimately show ?thesis using Some by (fastforce simp: tryWrite_def elim!: bind_SomeE split: if_splits)
  qed (use w in \<open>auto simp: tryWrite_def\<close>)
  then show "tryWrite E f r w = Some (fin, w') \<Longrightarrow> sized w'" "interrupts_end E \<Longrightarrow> \<exists>x. tryWrite E f r w = Some x" by blast+
qed

section \<open>All reachable states\<close>

definition sound :: "'w env \<Rightarrow> 'w watcher \<Rightarrow> bool" where
  "sound E w \<longleftrightarrow> sized w \<and> transfers_ok E"

lemma sized_deliver:
  assumes "deliver E r w = Some w'" and "own owned (r # H) Q w" and "sized w"
  shows "sized w'"
proof -
  obtain w1 where l: "leave_heap r w = Some w1" and i: "\<And>q. no_idx (aiocbs w1 q) = no_idx (aiocbs w q)"
    by (rule leave_heap_own [OF assms(2)]) blast
  have "bufview w1 = bufview w" using l by (auto simp: leave_heap_def bufview_def split: if_splits option.splits)
  then have w1: "sized w1" by (intro sized_frame [OF assms(3)] no_idx_io i)
  have o: "sized v'" if "send_once E r v = (b, v')" "sized v" for v v' b
    by (rule sized_frame [OF sized_yield [OF that(2), of E]])
      (use that(1) in \<open>auto simp: send_once_def Let_def bufview_def split: if_splits prod.splits\<close>)
  have "send_loop E r w1 = Some w'" using assms(1) l by (simp add: deliver_def)
  then show ?thesis
    unfolding send_loop_def
    by (rule go_loop_inv [where I = sized]) (auto simp: w1 split: prod.splits if_splits dest: o)
qed

lemma sized_fields:
  "sized w \<Longrightarrow> sized (w\<lparr>chPendingNotify := b, pendingCreate := pc, pendingProcessing := pp\<rparr>)"
  "sized w \<Longrightarrow> sized (w\<lparr>pendingProcessing := pp\<rparr>)" "sized w \<Longrightarrow> sized (w\<lparr>chSignal := x\<rparr>)" "sized w \<Longrightarrow> sized (w\<lparr>sigDone := b\<rparr>)"
  "sized w \<Longrightarrow> sized (w\<lparr>gcNotify := b, gcLocked := b'\<rparr>)" "sized w \<Longrightarrow> sized (w\<lparr>gcClosed := n, gc := g, gcLocked := b\<rparr>)"
  "sized w \<Longrightarrow> sized (w\<lparr>pendingCreate := pc, pendingProcessing := pp, loopDone := b\<rparr>)" "sized w \<Longrightarrow> sized (w\<lparr>timer := t\<rparr>)"
  "sized w \<Longrightarrow> sized (w\<lparr>timerC := b\<rparr>)"
  by (simp_all add: sized_def sized_bufs_def)

lemma sized_stop: "sized w \<Longrightarrow> sized (snd (stop E (w\<lparr>chSignal := None, pollerErr := err\<rparr>)))"
  by (auto simp: stop_def sized_def sized_bufs_def split: prod.splits)

lemma sized_drained: "sized w \<Longrightarrow> sized ((set_cb r zero_aiocb w)\<lparr>mem := m, chResults := rs\<rparr>)"
  by (simp add: sized_def sized_bufs_def sized_cb_def zero_aiocb_def set_cb_def len_of_def)

interpretation sound_state: state_invariant E owned "sound E" for E :: "'w env" and owned :: "'w \<Rightarrow> fd set"
proof (unfold_locales, unfold sound_def, goal_cases)
  case 1 then show ?case using tryRead_result(1) by blast
next
  case 2 then show ?case using tryWrite_result(1) by blast
next
  case 3 then show ?case using sized_deliver by (metis owns_def)
next
  case 4 then show ?case using sized_data_kept [OF _ data_kept_dequeue] by blast
next
  case 5 then show ?case using sized_data_kept [OF _ data_kept_set_err] by blast
next
  case 6 then show ?case using sized_data_kept [OF _ data_kept_wait] by blast
next
  case 7 then show ?case using sized_data_kept [OF _ data_kept_register] by blast
next
  case 8 then show ?case using sized_data_kept [OF _ data_kept_unregister] by blast
qed (simp_all add: sized_os sized_yield sized_fields sized_stop sized_drained)

interpretation sound_loop: timer_blind E owned "\<lambda>H Q w. owns E owned H Q w \<and> sound E w" "\<lambda>r H Q w. owns E owned H Q w \<and> sound E w"
  for E :: "'w env" and owned :: "'w \<Rightarrow> fd set"
proof (unfold_locales, unfold sound_def, goal_cases)
  case 1 then show ?case using own_loop.popped sized_data_kept [OF _ data_kept_pop] by blast
next
  case 2 then show ?case using own_loop.timer_set sized_fields(8) by blast
next
  case 3 then show ?case using own_loop.timer_read sized_fields(9) by blast
qed

lemma sized_new: "NewWatcherSize E n m world = Inr w \<Longrightarrow> sized w"
  by (auto simp: NewWatcherSize_def sized_def sized_bufs_def sized_cb_def zero_aiocb_def len_of_def mk_slice_def
      split: prod.splits option.splits)

lemma reachable_sized:
  assumes "os_ok E owned" and "reachable E w" and "transfers_ok E"
  shows "sized w"
proof -
  have "owns E owned [] (qs w) w \<and> sound E w"
    by (rule sound_loop.reachable_inv [OF assms(2)]) (simp add: sound_def owns_def own_new sized_new assms)
  then show ?thesis by (simp add: sound_def)
qed

text \<open>
  C8. Sizes are sizes of something: in every state the number of bytes a request has transferred lies within
  its buffer, the size of every result that \<open>WaitIO\<close> has put into the current batch lies within the buffer it
  comes with, the three shared buffers have the configured size and the write position lies within it.
\<close>

theorem sizes_within_buffers:
  assumes "os_ok E owned" and "reachable E w" and "transfers_ok E"
  shows "(\<forall>r. 0 \<le> cb_size (aiocbs w r) \<and> cb_size (aiocbs w r) \<le> int (len_of (cb_buffer (aiocbs w r))))
    \<and> (\<forall>x \<in> set (results w). 0 \<le> r_Size x \<and> r_Size x \<le> int (len_of (r_Buffer x)))
    \<and> s_len (swapBufferFront w) = swapSize w \<and> s_len (swapBufferMiddle w) = swapSize w \<and> s_len (swapBufferBack w) = swapSize w
    \<and> 0 \<le> bufferOffset w \<and> bufferOffset w \<le> int (swapSize w)"
  using reachable_sized [OF assms] by (simp add: sized_def sized_cb_def sized_bufs_def sized_result_def)

section \<open>Example\<close>

lemma prompt_transfers: "transfers_ok prompt_env"
  by (auto simp: transfers_ok_def prompt_env_def sample_env_def sample_read_def split: list.splits)

lemma batch_results:
  "results batch_state = [\<lparr>r_Operation = OpRead, r_Context = Some 1, r_Conn = Some 7,
    r_Buffer = Some \<lparr>s_arr = Swap 0, s_off = 0, s_len = 3, s_cap = 8\<rparr>, r_IsSwapBuffer = True, r_Size = 3, r_Error = None\<rparr>]"
  by (simp add: eval_batch)

theorem sizes_within_buffers_witness:
  "map r_Size (results batch_state) = [3] \<and> list_all (\<lambda>x. r_Size x \<le> int (len_of (r_Buffer x))) (results batch_state)"
  using sizes_within_buffers [OF prompt_env_ok(1) batch_state_reachable prompt_transfers] by (simp add: batch_results)

end
