(* ===== verification/Progress.thy ===== *)
theory Progress
  imports Buffer_Sizes
begin

text \<open>
  The loop neither panics nor hangs. No slice expression is out of range (theory \<open>Buffer_Sizes\<close>); with system
  calls that are not interrupted forever and a caller that keeps collecting results, every handler returns. The
  end of the loop returns without any of these assumptions.
\<close>

section \<open>Delivering\<close>

text \<open>While the channel is full, the other goroutines make progress towards taking a result out.\<close>

definition consumer :: "'w env \<Rightarrow> bool" where
  "consumer E \<longleftrightarrow> (\<exists>m :: 'w watcher \<Rightarrow> nat. \<forall>w. \<not> die (yield E w) \<and> resultsCap \<le> length (chResults (yield E w)) \<longrightarrow> m (yield E w) < m w)"

lemma send_loop_ret:
  assumes "consumer E"
  shows "\<exists>w'. send_loop E r w = Some w'"
proof -
  from assms obtain m :: "'a watcher \<Rightarrow> nat"
    where m: "\<And>w. \<not> die (yield E w) \<Longrightarrow> resultsCap \<le> length (chResults (yield E w)) \<Longrightarrow> m (yield E w) < m w"
    unfolding consumer_def by blast
  show ?thesis
    unfolding send_loop_def
  proof (rule go_loop_total [where I = "\<lambda>_. True" and m = m])
    fix v :: "'a watcher"
    show "(\<exists>x. (case send_once E r v of (taken, w1) \<Rightarrow> Some (if taken then Inr w1 else Inl w1)) = Some (Inr x))
      \<or> (\<exists>s'. (case send_once E r v of (taken, w1) \<Rightarrow> Some (if taken then Inr w1 else Inl w1)) = Some (Inl s') \<and> True \<and> m s' < m v)"
      using m [of v] by (auto simp: send_once_def Let_def split: prod.splits)
  qed simp
qed

text \<open>A closed watcher does not wait for the channel.\<close>

lemma send_loop_ret_closed: "die w \<Longrightarrow> \<exists>w'. send_loop E r w = Some w'"
  using yield_die [of w E] send_loop_done [of E r w] by (cases "send_once E r w") (auto simp: send_once_def Let_def split: prod.splits if_splits)

lemma deliver_ret:
  assumes "own owned (r # H) Q w" and "\<And>v. die w \<Longrightarrow> die v \<Longrightarrow> \<exists>w'. send_loop E r v = Some w'" "\<And>v. \<not> die w \<Longrightarrow> \<exists>w'. send_loop E r v = Some w'"
  shows "\<exists>w'. deliver E r w = Some w'"
proof -
  obtain w1 where l: "leave_heap r w = Some w1" by (rule leave_heap_own [OF assms(1)])
  then have "die w1 = die w" by (auto simp: leave_heap_def split: if_splits option.splits)
  with assms(2,3) l show ?thesis by (cases "die w") (auto simp: deliver_def)
qed

section \<open>Every handler returns\<close>

definition lively :: "'w env \<Rightarrow> bool" where
  "lively E \<longleftrightarrow> transfers_ok E \<and> interrupts_end E \<and> consumer E"

interpretation lively_state: state_invariant E owned "\<lambda>w. sound E w \<and> lively E" for E :: "'w env" and owned :: "'w \<Rightarrow> fd set"
  by (rule sound_state.with_constant)

interpretation lively_loop: loop_returns E owned "\<lambda>H Q w. owns E owned H Q w \<and> sound E w \<and> lively E"
    "\<lambda>r H Q w. owns E owned H Q w \<and> sound E w \<and> lively E"
  for E :: "'w env" and owned :: "'w \<Rightarrow> fd set"
proof (unfold_locales, goal_cases)
  case 1 then show ?case using deliver_ret send_loop_ret lively_def owns_def by blast
next
  case 2 then show ?case using sound_loop.popped by blast
next
  case 3 then show ?case using sound_loop.timer_set by blast
next
  case 4 then show ?case using sound_loop.timer_read by blast
next
  case 5 then show ?case using tryRead_result(2) sound_def lively_def by blast
next
  case 6 then show ?case using tryWrite_result(2) sound_def lively_def by blast
qed

text \<open>
  C4. The loop neither panics nor hangs. In every state of a watcher, each handler of the loop returns: the
  requests submitted so far, any batch of readiness events, the deadlines and the finalized connections are
  processed with no slice expression or index out of range, no record missing and no loop that does not end.
  Assumed: a system call transfers at most what it was asked to and is not interrupted forever, and while the
  result channel is full the caller of \<open>WaitIO\<close> makes progress towards receiving.
\<close>

theorem loop_handlers_return:
  assumes "os_ok E owned" and "reachable E w" and "transfers_ok E" and "interrupts_end E" and "consumer E"
  shows "(\<exists>w'. loop_pending E (w\<lparr>chPendingNotify := False\<rparr>) = Some w') \<and> (\<forall>es. \<exists>w'. handleEvents E es w = Some w')
    \<and> (\<exists>w'. handleTimer E (w\<lparr>timerC := False\<rparr>) = Some w') \<and> (\<exists>w'. handleGC E (w\<lparr>gcNotify := False\<rparr>) = Some w')"
proof -
  have s: "owns E owned [] (qs w) w \<and> sound E w \<and> lively E"
    by (rule lively_loop.reachable_inv [OF assms(2)]) (simp add: sound_def lively_def owns_def own_new sized_new assms)
  show ?thesis
    using lively_loop.loop_pending_ret [OF s] lively_loop.handleEvents_ret [OF s] lively_loop.handleTimer_ret [OF s]
      lively_loop.handleGC_ret [OF s] by blast
qed

section \<open>The shutdown returns\<close>

interpretation die_inv: quiet_invariant E owned die for E :: "'w env" and owned :: "'w \<Rightarrow> fd set"
proof (unfold_locales, goal_cases)
  case (1 w w')
  then show ?case using rview_eqD [of w' w] by (simp add: quiet_def)
next
  case (2 H Q w a)
  then show ?case using rview_exec_act [of E a w] by (cases a) (auto simp: rview_def split: if_splits)
next
  case (6 w r)
  then show ?case using rview_eqD [OF rview_track, of E r w] by simp
qed simp_all

interpretation die_loop: sends_return E owned "\<lambda>H Q w. owns E owned H Q w \<and> die w" "\<lambda>r H Q w. owns E owned H Q w \<and> die w"
  for E :: "'w env" and owned :: "'w \<Rightarrow> fd set"
  by unfold_locales (use deliver_ret send_loop_ret_closed owns_def in blast)

text \<open>
  C5. A closed watcher ends: from every state in which it is closed, the deferred function of the loop
  returns, in whatever order the registration map is visited and whatever the other goroutines do. It does
  not wait for anybody to receive the results it still delivers. A \<open>Close\<close> that waits for the loop then
  returns.
\<close>

theorem shutdown_returns:
  assumes "os_ok E owned" and "reachable E w" and "die w"
  shows "\<exists>w'. loop_exit E order w = Some w' \<and> loopDone w' \<and> (\<exists>e w''. Close E w' = Some (e, w''))"
proof -
  have "owns E owned [] (qs w) w" using reachable_own [OF assms(1,2)] by (simp add: owns_def assms(1))
  with die_loop.loop_exit_ret [of E owned w order] assms(3) obtain w' where w': "loop_exit E order w = Some w'" by blast
  then have "loopDone w'" by (auto simp: loop_exit_def elim!: bind_SomeE)
  with w' show ?thesis by (auto simp: Close_def stop_def split: prod.splits)
qed

section \<open>Example\<close>

text \<open>Reads that always succeed, callers that submit reads and collect results at every scheduling point.\<close>

definition busy_env :: "world env" where
  "busy_env = sample_env\<lparr>e_rawRead := (\<lambda>f n v. ((int n, None, replicate n 0), v)),
     e_sched := (\<lambda>v. ([AWaitDrained, AWaitNotify, AWaitEnter, AWaitMore, AWaitRecv, ARead None sample_conn None], v))\<rparr>"

lemma busy_os_ok: "os_ok busy_env sample_owned"
  unfolding os_ok_def by (intro conjI) (auto simp: busy_env_def sample_env_def sample_owned_def)

lemma busy_transfers: "transfers_ok busy_env"
  by (auto simp: transfers_ok_def busy_env_def sample_env_def)

definition busy_state :: "world watcher" where
  "busy_state = yield busy_env (case NewWatcherSize busy_env 8 (\<lambda>_. []) sample_world of Inr w \<Rightarrow> w)"

lemma busy_reachable: "reachable busy_env busy_state"
  unfolding busy_state_def
  by (rule reachable.step [OF reachable.new [of _ 8 "\<lambda>_. []" sample_world] loop_step.other])
    (simp add: NewWatcherSize_def busy_env_def sample_env_def)

lemma busy_interrupts: "interrupts_end busy_env"
  by (auto simp: interrupts_end_def busy_env_def sample_env_def)

lemma busy_consumer: "consumer busy_env"
  unfolding consumer_def
proof (intro exI [of _ "\<lambda>w. length (chResults w)"] allI impI)
  fix w :: "world watcher" assume a: "\<not> die (yield busy_env w) \<and> resultsCap \<le> length (chResults (yield busy_env w))"
  have rd: "chResults (snd (Read busy_env None sample_conn None v)) = chResults v" for v
    by (auto simp: Read_def aioCreate_def aiocbPool_Get_def aiocbPool_Put_def set_cb_def notifyPending_def Let_def
        split: option.splits prod.splits)
  have y: "chResults (yield busy_env w) = tl (chResults w)"
    by (cases "wphase w"; cases "chResults w")
      (simp_all add: yield_def run_acts_def busy_env_def rd [unfolded busy_env_def] WaitIO_enter_def fold_Put WaitIO_recv_def WaitIO_more_def
        WaitIO_drained_def WaitIO_notify_def notifyShouldSwap_def set_cb_def)
  with a show "length (chResults (yield busy_env w)) < length (chResults w)"
    by (cases "chResults w") (auto simp: resultsCap_def maxEvents_def)
qed

theorem loop_handlers_return_witness:
  "pendingCreate busy_state = [0] \<and> (\<exists>w'. loop_pending busy_env (busy_state\<lparr>chPendingNotify := False\<rparr>) = Some w')"
proof -
  have "pendingCreate busy_state = [0]" by code_simp
  with loop_handlers_return [OF busy_os_ok busy_reachable busy_transfers busy_interrupts busy_consumer] show ?thesis by blast
qed

theorem shutdown_returns_witness:
  "die (yield sample_env (sample_new 8 stop_world))
   \<and> (\<exists>w'. loop_exit sample_env [] (yield sample_env (sample_new 8 stop_world)) = Some w' \<and> loopDone w')"
proof -
  let ?w = "yield sample_env (sample_new 8 stop_world)"
  have "die ?w" by code_simp
  with shutdown_returns [OF sample_os_ok reachable.step [OF sample_new_reachable loop_step.other] this] show ?thesis by blast
qed

end
