(* ===== verification/Example_Servers.thy ===== *)
theory Example_Servers
  imports Buffer_Sizes Ordering
begin

text \<open>
  The two example programs, clients of the watcher: \<open>src/examples/echo-server/main.go\<close> and
  \<open>src/examples/push-server/main.go\<close>.
\<close>

section \<open>Slices of a possibly nil slice\<close>

text \<open>\<open>b[:n]\<close> of a nil slice is nil for \<open>n\<close> zero and panics otherwise.\<close>

definition upto :: "slice option \<Rightarrow> int \<Rightarrow> slice option option" where
  "upto b n = (case b of None \<Rightarrow> if n = 0 then Some None else None | Some s \<Rightarrow> map_option Some (slice_upto s n))"

definition cap_of :: "slice option \<Rightarrow> nat" where
  "cap_of b = (case b of None \<Rightarrow> 0 | Some s \<Rightarrow> s_cap s)"

section \<open>The echo server\<close>

text \<open>One result of a batch; the errors of \<open>Write\<close> and \<open>Read\<close> are ignored.\<close>

definition echo_result :: "'w env \<Rightarrow> OpResult \<Rightarrow> 'w watcher \<Rightarrow> 'w watcher option" where
  "echo_result E res w =
     (case r_Operation res of
        OpRead \<Rightarrow>
          if r_Error res = None
          then do { b \<leftarrow> upto (r_Buffer res) (r_Size res); Some (snd (Write E None (r_Conn res) b w)) }
          else Some w
      | OpWrite \<Rightarrow>
          if r_Error res = None
          then do { b \<leftarrow> upto (r_Buffer res) (int (cap_of (r_Buffer res))); Some (snd (Read E None (r_Conn res) b w)) }
          else Some w
      | opDelete \<Rightarrow> Some w)"

fun echo_results :: "'w env \<Rightarrow> OpResult list \<Rightarrow> 'w watcher \<Rightarrow> 'w watcher option" where
  "echo_results E [] w = Some w"
| "echo_results E (res # rs) w = do { w1 \<leftarrow> echo_result E res w; echo_results E rs w1 }"

text \<open>
  One iteration of \<open>echoServer\<close>: \<open>Inr\<close> when \<open>WaitIO\<close> reports an error and the goroutine ends. \<open>None\<close>:
  it waits in \<open>WaitIO\<close>, or panics.
\<close>

definition echo_once :: "'w env \<Rightarrow> 'w watcher \<Rightarrow> ('w watcher + gerr \<times> 'w watcher) option" where
  "echo_once E w =
     (case WaitIO E w of
        None \<Rightarrow> None
      | Some (Inl err, w1) \<Rightarrow> Some (Inr (err, w1))
      | Some (Inr rs, w1) \<Rightarrow> map_option Inl (echo_results E rs w1))"

text \<open>
  A connection that \<open>main\<close> accepted: its first read, into a new array \<open>User a\<close> of 128 bytes. The flag says
  whether \<open>main\<close> goes on.
\<close>

definition echo_accept :: "'w env \<Rightarrow> nat \<Rightarrow> net_conn \<Rightarrow> 'w watcher \<Rightarrow> bool \<times> 'w watcher" where
  "echo_accept E a conn w =
     (let (err, w1) = Read E None conn (Some (mk_slice (User a) 128)) (w\<lparr>mem := (mem w)(User a := replicate 128 0)\<rparr>)
      in (err = None, w1))"

section \<open>The push server\<close>

text \<open>
  The goroutine that owns the list of connections receives completed writes, ticks with the text to push (a new
  slice), and accepted connections.
\<close>

datatype push_event = PushIO OpResult | PushTick "slice option" | PushConn net_conn

definition push_writes :: "'w env \<Rightarrow> slice option \<Rightarrow> net_conn list \<Rightarrow> 'w watcher \<Rightarrow> 'w watcher" where
  "push_writes E push conns w = fold (\<lambda>conn w. snd (Write E None conn push w)) conns w"

fun push_step :: "'w env \<Rightarrow> push_event \<Rightarrow> net_conn list \<times> 'w watcher \<Rightarrow> net_conn list \<times> 'w watcher" where
  "push_step E (PushIO res) (conns, w) = (if r_Error res \<noteq> None then conns else conns @ [r_Conn res], w)"
| "push_step E (PushTick push) (conns, w) = ([], push_writes E push conns w)"
| "push_step E (PushConn conn) (conns, w) = (conns @ [conn], w)"

text \<open>The goroutine that hands completed requests to the first one: the events of one batch.\<close>

definition push_forward :: "'w env \<Rightarrow> 'w watcher \<Rightarrow> ((gerr + push_event list) \<times> 'w watcher) option" where
  "push_forward E w = map_option (\<lambda>(x, w1). (map_sum id (map PushIO) x, w1)) (WaitIO E w)"

section \<open>Submitting from a client\<close>

text \<open>What a request asks for.\<close>

definition asked :: "'w watcher \<Rightarrow> aref \<Rightarrow> OpType \<times> net_conn \<times> slice option" where
  "asked w r = (cb_op (aiocbs w r), cb_conn (aiocbs w r), cb_buffer (aiocbs w r))"

text \<open>
  A client's calls have submitted the requests \<open>new\<close>, after those that were submitted before, which they leave
  alone.
\<close>

definition submitted :: "('w \<Rightarrow> fd set) \<Rightarrow> 'w watcher \<Rightarrow> (OpType \<times> net_conn \<times> slice option) list \<Rightarrow> 'w watcher \<Rightarrow> bool" where
  "submitted owned w reqs w' \<longleftrightarrow> own owned [] (qs w') w' \<and> \<not> die w' \<and>
     (\<exists>new. pendingCreate w' = pendingCreate w @ new \<and> map (asked w') new = reqs) \<and> (\<forall>q \<in> set (pendingCreate w). asked w' q = asked w q)"

lemma submitted_none: "own owned [] (qs w) w \<Longrightarrow> \<not> die w \<Longrightarrow> submitted owned w [] w"
  by (simp add: submitted_def)

lemma submitted_trans:
  assumes "submitted owned u xs v" and "submitted owned v ys w"
  shows "submitted owned u (xs @ ys) w"
proof -
  from assms(1) obtain a where a: "pendingCreate v = pendingCreate u @ a" "map (asked v) a = xs"
    and u: "\<forall>q \<in> set (pendingCreate u). asked v q = asked u q" by (auto simp: submitted_def)
  from assms(2) obtain b where b: "pendingCreate w = pendingCreate v @ b" "map (asked w) b = ys" "own owned [] (qs w) w" "\<not> die w"
    and v: "\<forall>q \<in> set (pendingCreate v). asked w q = asked v q" by (auto simp: submitted_def)
  have "map (asked w) (a @ b) = xs @ ys" using a b(2) v by auto
  moreover have "pendingCreate w = pendingCreate u @ (a @ b)" using a(1) b(1) by simp
  moreover have "\<forall>q \<in> set (pendingCreate u). asked w q = asked u q" using a(1) u v by auto
  ultimately show ?thesis using b(3,4) unfolding submitted_def by blast
qed

lemma submitted_aioCreate:
  assumes "own owned [] (qs w) w" and "os_ok E owned" and "\<not> die w" and "p \<noteq> 0" and "oper \<noteq> opDelete"
  shows "submitted owned w [(oper, Some p, buf)] (snd (aioCreate E cx oper (Some p) buf dl full w))"
proof -
  obtain k world where k: "e_pool E (os w) = (k, world)" by fastforce
  let ?r = "if k < length (aiocbPool w) then aiocbPool w ! k else next_cb w"
  let ?w = "snd (aioCreate E cx oper (Some p) buf dl full w)"
  have f: "pendingCreate ?w = pendingCreate w @ [?r]" "aiocbs ?w = (aiocbs w)(?r := new_aiocb cx oper p buf dl full)"
    "die ?w = die w" "qs ?w = qs w"
    using assms(3,4) k
    by (auto simp: aioCreate_def aiocbPool_Get_def set_cb_def notifyPending_def Let_def qs_def)
  have "?r \<in> set (aiocbPool w) \<or> ?r = next_cb w" by auto
  then have "?r \<notin> set (pendingCreate w)" using assms(1) by (auto simp: own_def own_locs_def locs_def)
  moreover have "own owned [] (qs ?w) ?w" using own_aioCreate [OF assms(1,2), of oper dl] assms(5) by (simp add: f(4))
  ultimately show ?thesis
    using f assms(3) by (auto simp: submitted_def asked_def new_aiocb_def)
qed

lemma submitted_Write:
  assumes "own owned [] (qs w) w" and "os_ok E owned" and "\<not> die w" and "p \<noteq> 0"
  shows "submitted owned w (if len_of buf = 0 then [] else [(OpWrite, Some p, buf)]) (snd (Write E cx (Some p) buf w))"
  using assms by (simp add: Write_def submitted_none submitted_aioCreate)

lemma submitted_Read:
  assumes "own owned [] (qs w) w" and "os_ok E owned" and "\<not> die w" and "p \<noteq> 0"
  shows "submitted owned w [(OpRead, Some p, buf)] (snd (Read E cx (Some p) buf w))"
  using assms by (simp add: Read_def submitted_aioCreate)

section \<open>The echo server answers\<close>

text \<open>
  What the server should submit for a result: the bytes read are written back, and after a write the whole
  buffer is read into again.
\<close>

definition echo_answer :: "OpResult \<Rightarrow> (OpType \<times> net_conn \<times> slice option) list" where
  "echo_answer res =
     (if r_Error res \<noteq> None then []
      else case r_Operation res of
             OpRead \<Rightarrow> if r_Size res = 0 then []
                       else [(OpWrite, r_Conn res, map_option (\<lambda>s. s\<lparr>s_len := nat (r_Size res)\<rparr>) (r_Buffer res))]
           | OpWrite \<Rightarrow> [(OpRead, r_Conn res, map_option (\<lambda>s. s\<lparr>s_len := s_cap s\<rparr>) (r_Buffer res))]
           | opDelete \<Rightarrow> [])"

text \<open>A result for a connection, with a slice as Go has them.\<close>

definition result_ok :: "OpResult \<Rightarrow> bool" where
  "result_ok x \<longleftrightarrow> r_Conn x \<noteq> None \<and> r_Conn x \<noteq> Some 0 \<and> len_of (r_Buffer x) \<le> cap_of (r_Buffer x)"

lemma upto_within:
  "0 \<le> n \<Longrightarrow> n \<le> int (cap_of b) \<Longrightarrow> upto b n = Some (map_option (\<lambda>s. s\<lparr>s_len := nat n\<rparr>) b)"
  by (auto simp: upto_def cap_of_def slice_upto_def split: option.splits)

lemma echo_result_answers:
  assumes "own owned [] (qs w) w" and "os_ok E owned" and "\<not> die w" and "result_ok res" and "sized_result res"
  shows "\<exists>w'. echo_result E res w = Some w' \<and> submitted owned w (echo_answer res) w'"
proof (cases "r_Error res")
  case None
  obtain p where p: "r_Conn res = Some p" "p \<noteq> 0" using assms(4) by (auto simp: result_ok_def)
  let ?b = "\<lambda>n. map_option (\<lambda>s. s\<lparr>s_len := n\<rparr>) (r_Buffer res)"
  have u: "upto (r_Buffer res) (r_Size res) = Some (?b (nat (r_Size res)))"
    "upto (r_Buffer res) (int (cap_of (r_Buffer res))) = Some (map_option (\<lambda>s. s\<lparr>s_len := s_cap s\<rparr>) (r_Buffer res))"
    using assms(4,5) upto_within [of "r_Size res" "r_Buffer res"]
    by (auto simp: result_ok_def sized_result_def upto_def slice_upto_def cap_of_def split: option.splits)
  have "len_of (?b (nat (r_Size res))) = nat (r_Size res)"
    using assms(5) by (auto simp: sized_result_def len_of_def split: option.splits)
  then have "len_of (?b (nat (r_Size res))) = 0 \<longleftrightarrow> r_Size res = 0" using assms(5) by (auto simp: sized_result_def)
  with submitted_Write [OF assms(1-3) p(2), of "?b (nat (r_Size res))" None] submitted_Read [OF assms(1-3) p(2), of _ None]
    submitted_none [OF assms(1,3)] None p u
  show ?thesis by (cases "r_Operation res") (auto simp: echo_result_def echo_answer_def split: if_splits)
next
  case (Some e)
  with submitted_none [OF assms(1,3)] show ?thesis
    by (cases "r_Operation res") (simp_all add: echo_result_def echo_answer_def)
qed

lemma echo_results_answer:
  assumes "own owned [] (qs w) w" and "os_ok E owned" and "\<not> die w" and "\<forall>x \<in> set rs. result_ok x \<and> sized_result x"
  shows "\<exists>w'. echo_results E rs w = Some w' \<and> submitted owned w (concat (map echo_answer rs)) w'"
  using assms
proof (induction rs arbitrary: w)
  case Nil
  then show ?case by (simp add: submitted_none)
next
  case (Cons x rs)
  obtain w1 where w1: "echo_result E x w = Some w1" "submitted owned w (echo_answer x) w1"
    using echo_result_answers [OF Cons.prems(1-3), of x] Cons.prems(4) by auto
  then have "own owned [] (qs w1) w1" "\<not> die w1" by (simp_all add: submitted_def)
  with Cons.IH [of w1] Cons.prems(2,4) obtain w2 where "echo_results E rs w1 = Some w2"
    "submitted owned w1 (concat (map echo_answer rs)) w2" by auto
  with w1 submitted_trans [OF w1(2)] show ?case by auto
qed

text \<open>A call of \<open>WaitIO\<close> that finds results in the channel, from the caller's side.\<close>

lemma recv_all_frame:
  assumes "own owned [] (qs w) w"
  shows "own owned [] (qs ((WaitIO_recv ^^ n) w)) ((WaitIO_recv ^^ n) w) \<and> die ((WaitIO_recv ^^ n) w) = die w
    \<and> pendingCreate ((WaitIO_recv ^^ n) w) = pendingCreate w \<and> os ((WaitIO_recv ^^ n) w) = os w"
proof (induction n)
  case (Suc n)
  let ?w = "(WaitIO_recv ^^ n) w"
  have "qs (WaitIO_recv ?w) = qs ?w" "die (WaitIO_recv ?w) = die ?w" "pendingCreate (WaitIO_recv ?w) = pendingCreate ?w"
    "os (WaitIO_recv ?w) = os ?w"
    by (auto simp: WaitIO_recv_def qs_def set_cb_def split: list.splits)
  with own_WaitIO_recv [of owned "[]" "qs ?w" ?w] Suc show ?case by simp
qed (simp add: assms)

lemma WaitIO_hands_over:
  assumes "own owned [] (qs w) w" and "os_ok E owned" and "\<not> die w" and "\<not> loopDone w" and "chResults w \<noteq> []"
  shows "\<exists>w1. WaitIO E w = Some (Inr (map (\<lambda>r. result_of (aiocbs w r)) (chResults w)), w1)
    \<and> own owned [] (qs w1) w1 \<and> \<not> die w1 \<and> pendingCreate w1 = pendingCreate w"
proof -
  let ?w1 = "WaitIO_enter w"
  let ?w2 = "(WaitIO_recv ^^ length (chResults w)) ?w1"
  obtain b world where sel: "e_select E (os ?w1) = (b, world)" by fastforce
  let ?w3 = "(WaitIO_notify (WaitIO_drained ?w2))\<lparr>os := world\<rparr>"
  have e: "chResults ?w1 = chResults w" "results ?w1 = []" "die ?w1 = die w" "loopDone ?w1 = loopDone w"
    "aiocbs ?w1 = aiocbs w" "pendingCreate ?w1 = pendingCreate w" "qs ?w1 = qs w"
    by (simp_all add: WaitIO_enter_def fold_Put qs_def)
  have d: "distinct (chResults w)" using assms(1) by (auto simp: own_def own_locs_def locs_def)
  have "own owned [] (qs ?w1) ?w1" using own_WaitIO_enter [OF assms(1)] by (simp only: e(7))
  note f = recv_all_frame [OF this, of "length (chResults w)"]
  have r: "chResults ?w2 = []" "results ?w2 = map (\<lambda>r. result_of (aiocbs w r)) (chResults w)"
    using WaitIO_recv_all [OF e(1) d] e(2,5) by simp_all
  have "owned world = owned (os ?w1)" using os_okD(13) [OF assms(2) sel] .
  then have "own owned [] (qs ?w2) (?w2\<lparr>os := world\<rparr>)" using own_os [of owned "[]" "qs ?w2" ?w2 world] f by simp
  then have "own owned [] (qs ?w3) ?w3"
    by (simp add: WaitIO_notify_def WaitIO_drained_def notifyShouldSwap_def r(1) qs_def own_defs locs_def)
  moreover have "WaitIO E w = Some (Inr (results ?w2), ?w3)"
    using assms(3-5) e sel r(1) by (simp add: WaitIO_def Let_def WaitIO_notify_def WaitIO_drained_def notifyShouldSwap_def)
  moreover have "\<not> die ?w3" "pendingCreate ?w3 = pendingCreate w"
    using assms(3) f e(3,6) r(1) by (simp_all add: WaitIO_notify_def WaitIO_drained_def notifyShouldSwap_def)
  ultimately show ?thesis using r(2) by auto
qed

text \<open>
  C19. One iteration of the echo server, from the result channel of the watcher to its submission slice, ends without
  a panic: for each successful read, in the order of completion, it submits exactly one write of exactly the bytes
  that were read, on the connection they came from; for each successful write one read into the whole of the same
  buffer; for a failed request or an empty read nothing. The slice expressions of the server are in range because
  the watcher keeps the sizes of its results within their buffers.
\<close>

theorem echo_server_answers_each_result:
  assumes "os_ok E owned" and "reachable E w" and "transfers_ok E" and "\<not> die w" and "chResults w \<noteq> []"
    and "\<forall>r \<in> set (chResults w). result_ok (result_of (aiocbs w r))"
  shows "\<exists>w' new. echo_once E w = Some (Inl w') \<and> pendingCreate w' = pendingCreate w @ new
    \<and> map (asked w') new = concat (map (\<lambda>r. echo_answer (result_of (aiocbs w r))) (chResults w))"
proof -
  let ?rs = "map (\<lambda>r. result_of (aiocbs w r)) (chResults w)"
  have "\<not> loopDone w" using reachable_closed [OF assms(1,2)] assms(4) by (auto simp: closed_flags_def)
  from WaitIO_hands_over [OF reachable_own [OF assms(1,2)] assms(1,4) this assms(5)] obtain w1 where
    w1: "WaitIO E w = Some (Inr ?rs, w1)" "own owned [] (qs w1) w1" "\<not> die w1" "pendingCreate w1 = pendingCreate w" by blast
  have "\<forall>x \<in> set ?rs. result_ok x \<and> sized_result x"
    using reachable_sized [OF assms(1-3)] assms(6) by (auto simp: sized_def sized_cb_def sized_result_def result_of_def)
  from echo_results_answer [OF w1(2) assms(1) w1(3) this] w1(1,4) show ?thesis
    by (fastforce simp: submitted_def echo_once_def comp_def)
qed

text \<open>A connection that was accepted gets its first read, of at most 128 bytes, and \<open>main\<close> goes on.\<close>

lemma echo_accept_reads:
  assumes "own owned [] (qs w) w" and "os_ok E owned" and "\<not> die w" and "p \<noteq> 0"
  shows "\<exists>w' r. echo_accept E a (Some p) w = (True, w') \<and> pendingCreate w' = pendingCreate w @ [r]
    \<and> asked w' r = (OpRead, Some p, Some \<lparr>s_arr = User a, s_off = 0, s_len = 128, s_cap = 128\<rparr>)"
proof -
  let ?w = "w\<lparr>mem := (mem w)(User a := replicate 128 0)\<rparr>"
  have "own owned [] (qs ?w) ?w" using assms(1) by (simp add: qs_def own_defs locs_def)
  from submitted_Read [OF this assms(2) _ assms(4), of "Some (mk_slice (User a) 128)" None] assms(3)
  have "submitted owned ?w [(OpRead, Some p, Some (mk_slice (User a) 128))] (snd (Read E None (Some p) (Some (mk_slice (User a) 128)) ?w))" by simp
  moreover have "fst (Read E None (Some p) (Some (mk_slice (User a) 128)) ?w) = None"
    using assms(3,4) by (auto simp: Read_def aioCreate_def aiocbPool_Get_def set_cb_def Let_def split: prod.splits if_splits)
  ultimately show ?thesis by (auto simp: echo_accept_def submitted_def mk_slice_def split: prod.splits)
qed

section \<open>The push server loses nobody\<close>

text \<open>The connections that an event hands to the server.\<close>

fun push_gain :: "push_event \<Rightarrow> net_conn list" where
  "push_gain (PushIO res) = (if r_Error res = None then [r_Conn res] else [])"
| "push_gain (PushTick push) = []"
| "push_gain (PushConn conn) = [conn]"

fun push_ok :: "push_event \<Rightarrow> bool" where
  "push_ok (PushTick push) \<longleftrightarrow> len_of push \<noteq> 0"
| "push_ok e \<longleftrightarrow> (\<forall>c \<in> set (push_gain e). c \<noteq> None \<and> c \<noteq> Some 0)"

lemma push_writes_submits:
  assumes "own owned [] (qs w) w" and "os_ok E owned" and "\<not> die w" and "len_of push \<noteq> 0"
    and "\<forall>c \<in> set conns. c \<noteq> None \<and> c \<noteq> Some 0"
  shows "submitted owned w (map (\<lambda>c. (OpWrite, c, push)) conns) (push_writes E push conns w)"
  using assms unfolding push_writes_def
proof (induction conns arbitrary: w)
  case Nil
  then show ?case by (simp add: submitted_none)
next
  case (Cons c conns)
  then obtain p where p: "c = Some p" "p \<noteq> 0" by auto
  let ?w = "snd (Write E None c push w)"
  have s: "submitted owned w [(OpWrite, c, push)] ?w"
    using submitted_Write [OF Cons.prems(1-3) p(2), of push None] Cons.prems(4) p(1) by simp
  then have "own owned [] (qs ?w) ?w" "\<not> die ?w" by (simp_all add: submitted_def)
  from submitted_trans [OF s Cons.IH [OF this(1) Cons.prems(2) this(2) Cons.prems(4)]] Cons.prems(5) show ?case by simp
qed

lemma push_step_conserves:
  assumes "push_step E e (conns, w) = (conns', w')" and "own owned [] (qs w) w" and "os_ok E owned" and "\<not> die w" and "push_ok e"
    and "\<forall>c \<in> set conns. c \<noteq> None \<and> c \<noteq> Some 0"
  shows "\<exists>ps. submitted owned w (map (\<lambda>(c, b). (OpWrite, c, b)) ps) w' \<and> mset conns' + mset (map fst ps) = mset conns + mset (push_gain e)
    \<and> (\<forall>c \<in> set conns'. c \<noteq> None \<and> c \<noteq> Some 0)"
proof (cases e)
  case (PushTick push)
  with assms push_writes_submits [OF assms(2-4), of push conns] show ?thesis
    by (intro exI [of _ "map (\<lambda>c. (c, push)) conns"]) (auto simp: comp_def)
qed (use assms submitted_none [OF assms(2,4)] in \<open>auto intro!: exI [of _ "[]"] split: if_splits\<close>)

text \<open>
  C20. The push server neither forgets a connection nor makes one up. Over any sequence of events it submits only
  writes, and the connections on its list together with those of the writes it submitted are, counted with
  multiplicity, the ones it started with, those accepted and those whose write succeeded; a connection drops out only
  when its write fails.
\<close>

theorem push_server_conserves_connections:
  assumes "fold (push_step E) es (conns, w) = (conns', w')" and "os_ok E owned" and "own owned [] (qs w) w" and "\<not> die w"
    and "\<forall>e \<in> set es. push_ok e" and "\<forall>c \<in> set conns. c \<noteq> None \<and> c \<noteq> Some 0"
  shows "\<exists>new. pendingCreate w' = pendingCreate w @ new \<and> (\<forall>r \<in> set new. cb_op (aiocbs w' r) = OpWrite)
    \<and> mset conns' + mset (map (\<lambda>r. cb_conn (aiocbs w' r)) new) = mset conns + mset (concat (map push_gain es))"
proof -
  have "\<exists>ps. submitted owned w (map (\<lambda>(c, b). (OpWrite, c, b)) ps) w'
      \<and> mset conns' + mset (map fst ps) = mset conns + mset (concat (map push_gain es))"
    using assms
  proof (induction es arbitrary: conns w)
    case Nil
    then show ?case using submitted_none [of owned w] by (intro exI [of _ "[]"]) auto
  next
    case (Cons e es)
    obtain conns1 w1 where s: "push_step E e (conns, w) = (conns1, w1)" by fastforce
    from push_step_conserves [OF s Cons.prems(3,2,4) _ Cons.prems(6)] Cons.prems(5) obtain ps where
      ps: "submitted owned w (map (\<lambda>(c, b). (OpWrite, c, b)) ps) w1" "mset conns1 + mset (map fst ps) = mset conns + mset (push_gain e)"
      "\<forall>c \<in> set conns1. c \<noteq> None \<and> c \<noteq> Some 0" by auto
    then have o: "own owned [] (qs w1) w1" "\<not> die w1" by (simp_all add: submitted_def)
    from Cons.IH [OF _ Cons.prems(2) o _ ps(3)] Cons.prems(1,5) s obtain qs' where
      q: "submitted owned w1 (map (\<lambda>(c, b). (OpWrite, c, b)) qs') w'"
      "mset conns' + mset (map fst qs') = mset conns1 + mset (concat (map push_gain es))" by auto
    have "mset conns' + mset (map fst (ps @ qs')) = mset conns + mset (concat (map push_gain (e # es)))"
      using ps(2) q(2) by (simp add: add.assoc) (metis add.assoc add.commute)
    moreover have "submitted owned w (map (\<lambda>(c, b). (OpWrite, c, b)) (ps @ qs')) w'"
      using submitted_trans [OF ps(1) q(1)] by simp
    ultimately show ?case by blast
  qed
  then obtain ps new where n: "pendingCreate w' = pendingCreate w @ new" "map (asked w') new = map (\<lambda>(c, b). (OpWrite, c, b)) ps"
    and m: "mset conns' + mset (map fst ps) = mset conns + mset (concat (map push_gain es))" by (auto simp: submitted_def)
  have "map (\<lambda>r. cb_conn (aiocbs w' r)) new = map (fst \<circ> snd) (map (asked w') new)" by (simp add: asked_def comp_def)
  also have "\<dots> = map fst ps" unfolding n(2) by (simp add: case_prod_beta)
  finally have "map (\<lambda>r. cb_conn (aiocbs w' r)) new = map fst ps" .
  moreover have "cb_op (aiocbs w' r) = OpWrite" if "r \<in> set new" for r
  proof -
    have "asked w' r \<in> set (map (asked w') new)" using that by simp
    then show ?thesis unfolding n(2) by (auto simp: asked_def)
  qed
  ultimately show ?thesis using n(1) m by metis
qed

text \<open>The events that a batch becomes give back the connections of its successful requests.\<close>

lemma push_forward_gains:
  assumes "own owned [] (qs w) w" and "os_ok E owned" and "\<not> die w" and "\<not> loopDone w" and "chResults w \<noteq> []"
  shows "\<exists>es w1. push_forward E w = Some (Inr es, w1)
    \<and> concat (map push_gain es) = map (\<lambda>r. cb_conn (aiocbs w r)) (filter (\<lambda>r. cb_err (aiocbs w r) = None) (chResults w))"
proof -
  have "concat (map (\<lambda>r. push_gain (PushIO (result_of (aiocbs w r)))) rs)
      = map (\<lambda>r. cb_conn (aiocbs w r)) (filter (\<lambda>r. cb_err (aiocbs w r) = None) rs)" for rs
    by (induction rs) (simp_all add: result_of_def)
  with WaitIO_hands_over [OF assms] show ?thesis by (auto simp: push_forward_def comp_def)
qed

section \<open>Examples\<close>

lemma sample_transfers: "transfers_ok sample_env"
  by (auto simp: transfers_ok_def sample_env_def sample_read_def split: list.splits)

theorem echo_server_answers_each_result_witness:
  "\<exists>w' new. echo_once sample_env (started done_world) = Some (Inl w') \<and> pendingCreate w' = pendingCreate (started done_world) @ new
    \<and> map (asked w') new = [(OpWrite, Some 7, Some \<lparr>s_arr = Swap 0, s_off = 0, s_len = 1, s_cap = 8\<rparr>),
        (OpWrite, Some 7, Some \<lparr>s_arr = Swap 0, s_off = 1, s_len = 1, s_cap = 7\<rparr>)]"
proof -
  have r: "reachable sample_env (started done_world)"
    by (rule started_reachable) (simp_all add: done_world_def eval_ready)
  have f: "\<not> die (started done_world)" "chResults (started done_world) = [0, 1]"
    "map (\<lambda>r. result_of (aiocbs (started done_world) r)) [0, 1] =
      [\<lparr>r_Operation = OpRead, r_Context = Some 1, r_Conn = Some 7, r_Buffer = Some \<lparr>s_arr = Swap 0, s_off = 0, s_len = 1, s_cap = 8\<rparr>,
         r_IsSwapBuffer = True, r_Size = 1, r_Error = None\<rparr>,
       \<lparr>r_Operation = OpRead, r_Context = Some 2, r_Conn = Some 7, r_Buffer = Some \<lparr>s_arr = Swap 0, s_off = 1, s_len = 1, s_cap = 7\<rparr>,
         r_IsSwapBuffer = True, r_Size = 1, r_Error = None\<rparr>]"
    by (simp_all add: done_world_def eval_ready)
  from f(3) echo_server_answers_each_result [OF sample_os_ok r sample_transfers f(1)] show ?thesis
    by (simp add: f(2) result_ok_def echo_answer_def len_of_def cap_of_def)
qed

theorem push_server_conserves_connections_witness:
  "\<exists>new w'. fold (push_step sample_env) [PushConn (Some 7), PushTick (Some (mk_slice (User 1) 2))] ([], sample_new 8 sample_world) = ([], w')
    \<and> pendingCreate w' = new \<and> map (\<lambda>r. (cb_op (aiocbs w' r), cb_conn (aiocbs w' r))) new = [(OpWrite, Some 7)]"
proof -
  let ?es = "[PushConn (Some 7), PushTick (Some (mk_slice (User 1) 2))]" and ?w = "sample_new 8 sample_world"
  obtain w' where f: "fold (push_step sample_env) ?es ([], ?w) = ([], w')" by simp
  have "\<not> die ?w" "pendingCreate ?w = []" by (simp_all add: sample_new_def NewWatcherSize_def sample_env_def)
  with push_server_conserves_connections [OF f sample_os_ok reachable_own [OF sample_os_ok sample_new_reachable]]
  obtain new where n: "pendingCreate w' = new" "\<forall>r \<in> set new. cb_op (aiocbs w' r) = OpWrite"
    "mset (map (\<lambda>r. cb_conn (aiocbs w' r)) new) = {#Some 7#}"
    by (auto simp: len_of_def mk_slice_def)
  then have "map (\<lambda>r. cb_conn (aiocbs w' r)) new = [Some 7]" by (metis mset_single_iff)
  with n f show ?thesis by auto
qed

end
