(* ===== verification/Spec2Isabelle.thy ===== *)
theory Spec2Isabelle
  imports Swap_Results Deadlines Descriptors Attempts Ordering Platforms Progress Example_Servers
begin

text \<open>
  A verification development for gaio, an asynchronous network I/O library for Go. Callers submit reads and
  writes on connections to a watcher and collect the completed ones in batches with \<open>WaitIO\<close>.

  \<^bold>\<open>The program.\<close> \<open>src/watcher.go\<close> holds the watcher: the public calls, and the goroutine \<open>loop\<close> that
  owns the registered descriptors, the queues of waiting requests and the heap of deadlines.
  \<open>src/aio_generic.go\<close> has the shared types, \<open>src/time.go\<close> the methods that make a slice of requests a
  heap for \<open>container/heap\<close>. One file per platform implements the poller that reports readiness to the loop
  through a channel: \<open>src/aio_linux.go\<close> (epoll), \<open>src/aio_bsd.go\<close> (kqueue), \<open>src/aio_windows.go\<close>
  (WSAPoll); \<open>src/aio_unix.go\<close> duplicates descriptors, \<open>src/affinity_*.go\<close> pins threads. Two example servers
  under \<open>src/examples\<close> use the watcher.

  \<^bold>\<open>How the code is modelled.\<close> A struct is a record, an enumeration a datatype, a request is an address into
  the map \<open>aiocbs\<close>, a slice a window of an array with an identity, since results alias the watcher's
  buffers. Byte values, event flags, GC counters, register values and socket handles are words; sizes, offsets,
  descriptors and points in time are unbounded integers, with the conversions to 32 bits written out. Errors are
  values of \<open>gerr\<close>. What is not in the repository is a parameter: the system calls, the methods of
  connections, the clock, and the choices of the Go runtime (which case a \<open>select\<close> takes, which object a pool
  hands out, which goroutines run), all as functions on a state of the world, in the records \<open>env\<close>,
  \<open>linux_sys\<close>, \<open>bsd_sys\<close>, \<open>win_sys\<close>, \<open>unix\<close> and \<open>runtime\<close>.

  \<^bold>\<open>Concurrency.\<close> The loop is the step relation \<open>loop_step\<close>, one rule for each ready case of its
  \<open>select\<close>, each running a whole handler. Before every operation of the loop on state that it shares (a channel,
  the submission slice, the finalizer queue) the function \<open>yield\<close> executes any sequence of actions of other
  goroutines, of the type \<open>act\<close>: submissions, the parts of a \<open>WaitIO\<close> call between its channel operations,
  a stop, finalizers, the timer, signals of the poller. A section under a mutex is one action. The pollers'
  \<open>Wait\<close> is treated in the same way.

  \<^bold>\<open>Loops and panics.\<close> A \<open>for\<close> loop that may not end is \<open>go_loop\<close>, a partial function: \<open>None\<close>
  stands for a loop that does not return and for a panic (a slice expression or an index out of range, a missing
  map entry that is dereferenced). No fuel is used. That handlers return is proved in the theory
  \<open>Progress\<close>.

  \<^bold>\<open>The theories.\<close>
  \<^item> \<open>Gaio_Prelude\<close>: base types, facts on lists and options, \<open>go_loop\<close> with its rules for partial
    correctness and termination. \<open>Go_Heap\<close>: \<open>container/heap\<close> over an interface, as a locale, with the
    correctness of \<open>Push\<close>, \<open>Pop\<close> and \<open>Remove\<close>.
  \<^item> \<open>Aio_Types\<close> (\<open>aio_generic.go\<close>); \<open>Timed_Heap\<close> (\<open>time.go\<close>), which interprets the heap locale: the
    least deadline is popped, the request at its stored index is removed.
  \<^item> \<open>Watcher_State\<close>, \<open>Watcher_Api\<close>, \<open>Watcher_Loop\<close> (\<open>watcher.go\<close>): the state and constructor, the
    public calls and \<open>WaitIO\<close>, the handlers and the loop.
  \<^item> \<open>Ownership\<close>, \<open>Ownership_Ops\<close>: the invariant \<open>own\<close> (each request is at one place; registration maps,
    back pointers of queues and heap indices agree) and that every operation keeps it. \<open>Loop_Invariant\<close>:
    the contract between an invariant and the loop as locales \<open>loop_moves\<close>, \<open>loop_invariant\<close>,
    \<open>timer_blind\<close>: an invariant that is kept by the single moves of a request holds in all reachable states.
    \<open>Watcher_Safety\<close> interprets them for ownership; \<open>State_Invariant\<close> extends them for predicates on the
    watcher's state alone, which ownership supports.
  \<^item> \<open>Swap_Buffers\<close>, \<open>Swap_Results\<close>: the rotation of the three shared read buffers; a returned batch stays
    intact until the next \<open>WaitIO\<close> when the loop does not run between \<open>WaitIO\<close>'s test for an empty channel and
    its notification, and a schedule that breaks it otherwise.
  \<^item> \<open>Side_Invariants\<close>: GC counters, shutdown flags; \<open>Deadlines\<close>: the timer fires no later than
    any queued deadline, and expiry takes exactly the requests whose deadline has passed; \<open>Descriptors\<close>: the open
    duplicates are the registered ones, an ended watcher holds nothing, and a schedule in which a \<open>WaitIO\<close> call
    is stranded by the shutdown.
  \<^item> \<open>Attempts\<close>: one read or write attempt, on every outcome of the system call; \<open>Ordering\<close>: service of
    queues in order, release of a connection, the results of \<open>WaitIO\<close>, acceptance and refusal of submissions.
  \<^item> \<open>Buffer_Sizes\<close>: sizes and offsets stay within the slices they index, so no slice expression of an attempt
    is out of range. \<open>Loop_Returns\<close>, \<open>Progress\<close>: no handler panics or hangs; the shutdown of a closed watcher returns.
  \<^item> \<open>Poller_Common\<close>, \<open>Poller_Linux\<close>, \<open>Poller_Bsd\<close>, \<open>Poller_Windows\<close>: the platform files: translation of
    event flags, batches, registration, the poll set of Windows as an abstract set, opening and closing,
    resource leaks. \<open>Platforms\<close>: the environments of the watcher built from these files satisfy what the
    theorems about the watcher assume.
  \<^item> \<open>Example_Servers\<close> (\<open>examples/\<close>): the two programs as clients of the watcher; the echo server answers every
    result without a panic, the push server loses no connection.
  \<^item> \<open>Sample_World\<close>: a concrete environment in which the witnesses evaluate the model.

  \<^bold>\<open>What is assumed.\<close> \<open>os_ok\<close>: duplicating a connection yields a descriptor that was not open, and only
  closing closes it (proved for the three platforms from \<open>unix_ok\<close>, \<open>win_fds\<close> and \<open>win_closes\<close>, the same about
  the system calls). \<open>starts_clean\<close>: no duplicate is open when the watcher is made. \<open>alone\<close>: the schedule in which no
  other goroutine runs during a handler, for the statements on what a handler adds to the result channel.
  \<open>transfers_ok\<close>: a system call transfers no more than requested. \<open>interrupts_end\<close>, \<open>consumer\<close>: calls
  are not interrupted forever, a full result channel is eventually received from. \<open>own_arrays\<close>: callers
  pass slices of their own arrays. \<open>prompt_notify\<close>: the schedule restriction of the buffer theorem, which
  is needed. For the timer, a deadline that lies at most \<open>2 ^ 63\<close> nanoseconds before any clock reading.
  \<open>eventfd_ok\<close>, \<open>kevent_ok\<close>: a write to the event descriptor ends \<open>epoll_wait\<close>, a successful \<open>kevent\<close> has processed
  its changes. \<open>linux_fds\<close>, \<open>win_close_ok\<close>: what the calls of \<open>openPoll\<close> do to the open descriptors.
  \<open>result_ok\<close>, \<open>push_ok\<close>: the example servers get results of connections and push a non-empty text. Each theorem
  names the ones it uses.

  \<^bold>\<open>Not modelled.\<close> The package comment (\<open>pkg.go\<close>) and the tests. Of the example servers, listening, accepting, the
  ticker, formatting and logging.
  The lazy loading of DLLs and the memory layout of the structures passed to Windows (the protocol information is
  opaque). Data races on plain memory and the Go memory model: sections under a mutex and operations between two
  channel operations are atomic. The moment at which the garbage collector runs a finalizer (it may run at any
  scheduling point), and the finalizer of the wrapper object, which only calls \<open>Close\<close>.
\<close>

end
